(* ===== verification/CPrelude.thy ===== *)
theory CPrelude
  imports Main "HOL-Library.Word" "HOL-Library.Monad_Syntax"
begin

unbundle bit_operations_syntax

text \<open>
  Shared vocabulary of the development: the machine types of \<^verbatim>\<open>macro.h\<close> as words, C memory as a
  list of cells with bounds-checked access, C strings, little-endian and big-endian byte views of
  words, and the two interfaces that several components implement (a self-delimiting byte codec and
  a cyclic index).

  A value of an option type is used for every C expression whose execution may be undefined:
  \<^term>\<open>None\<close> means that the program reads or writes outside an object (or performs another
  operation the language leaves undefined), so a theorem that a result is \<^term>\<open>Some r\<close> includes
  memory safety of the code it is about.
\<close>

section \<open>Machine types\<close>

type_synonym u8 = "8 word"
type_synonym u16 = "16 word"
type_synonym u32 = "32 word"
type_synonym u64 = "64 word"

named_theorems mem_simps \<open>bounds-checked memory access\<close>
named_theorems byte_simps \<open>byte views of words\<close>

abbreviation char_code :: "char \<Rightarrow> u8" where
  "char_code c \<equiv> of_char c"

abbreviation bytes_of_string :: "string \<Rightarrow> u8 list" where
  "bytes_of_string s \<equiv> map of_char s"

abbreviation str :: "string \<Rightarrow> u8 list" where
  "str s \<equiv> bytes_of_string s"

section \<open>Memory objects\<close>

definition rd :: "'a list \<Rightarrow> nat \<Rightarrow> 'a option" where
  "rd xs i = (if i < length xs then Some (xs ! i) else None)"

definition wr :: "'a list \<Rightarrow> nat \<Rightarrow> 'a \<Rightarrow> 'a list option" where
  "wr xs i v = (if i < length xs then Some (xs[i := v]) else None)"

text \<open>The source side and the destination side of \<^verbatim>\<open>memcpy\<close> and \<^verbatim>\<open>memmove\<close>.\<close>

definition rd_range :: "'a list \<Rightarrow> nat \<Rightarrow> nat \<Rightarrow> 'a list option" where
  "rd_range xs i n = (if i + n \<le> length xs then Some (take n (drop i xs)) else None)"

definition wr_range :: "'a list \<Rightarrow> nat \<Rightarrow> 'a list \<Rightarrow> 'a list option" where
  "wr_range xs i ys =
     (if i + length ys \<le> length xs then Some (take i xs @ ys @ drop (i + length ys) xs) else None)"

lemma rd_Some [mem_simps]: "i < length xs \<Longrightarrow> rd xs i = Some (xs ! i)"
  by (simp add: rd_def)

lemma rd_eq_Some_iff: "rd xs i = Some v \<longleftrightarrow> i < length xs \<and> xs ! i = v"
  by (auto simp: rd_def)

lemma rd_eq_None_iff: "rd xs i = None \<longleftrightarrow> length xs \<le> i"
  by (auto simp: rd_def)

lemma rd_append_right [mem_simps]: "rd (xs @ ys) (length xs + i) = rd ys i"
  by (simp add: rd_def)

lemma rd_append_mid [mem_simps]: "rd (xs @ y # ys) (length xs) = Some y"
  by (simp add: rd_def)

lemma wr_Some [mem_simps]: "i < length xs \<Longrightarrow> wr xs i v = Some (xs[i := v])"
  by (simp add: wr_def)

lemma wr_eq_Some_iff: "wr xs i v = Some ys \<longleftrightarrow> i < length xs \<and> ys = xs[i := v]"
  by (auto simp: wr_def)

lemma wr_eq_None_iff: "wr xs i v = None \<longleftrightarrow> length xs \<le> i"
  by (auto simp: wr_def)

lemma wr_append_mid [mem_simps]: "wr (xs @ y # ys) (length xs) v = Some (xs @ v # ys)"
  by (simp add: wr_def)

lemma wr_Cons_Suc [simp]: "wr (a # xs) (Suc i) v = map_option ((#) a) (wr xs i v)"
  by (simp add: wr_def)

lemma wr_Cons_0 [simp]: "wr (a # xs) 0 v = Some (v # xs)"
  by (simp add: wr_def)

lemma wr_Nil [simp]: "wr [] i v = None"
  by (simp add: wr_def)

lemma rd_Cons_Suc [simp]: "rd (a # xs) (Suc i) = rd xs i"
  by (simp add: rd_def)

lemma rd_Cons_0 [simp]: "rd (a # xs) 0 = Some a"
  by (simp add: rd_def)

lemma rd_Nil [simp]: "rd [] i = None"
  by (simp add: rd_def)

lemma length_wr: "wr xs i v = Some ys \<Longrightarrow> length ys = length xs"
  by (auto simp: wr_eq_Some_iff)

lemma rd_wr_same: "wr xs i v = Some ys \<Longrightarrow> rd ys i = Some v"
  by (auto simp: wr_eq_Some_iff rd_def)

lemma rd_wr_other: "wr xs i v = Some ys \<Longrightarrow> j \<noteq> i \<Longrightarrow> rd ys j = rd xs j"
  by (auto simp: wr_eq_Some_iff rd_def)

lemma rd_range_Some [mem_simps]: "i + n \<le> length xs \<Longrightarrow> rd_range xs i n = Some (take n (drop i xs))"
  by (simp add: rd_range_def)

lemma rd_range_eq_Some_iff:
  "rd_range xs i n = Some ys \<longleftrightarrow> i + n \<le> length xs \<and> ys = take n (drop i xs)"
  by (auto simp: rd_range_def)

lemma length_rd_range: "rd_range xs i n = Some ys \<Longrightarrow> length ys = n"
  by (auto simp: rd_range_eq_Some_iff)

lemma wr_range_Some [mem_simps]:
  "i + length ys \<le> length xs \<Longrightarrow>
     wr_range xs i ys = Some (take i xs @ ys @ drop (i + length ys) xs)"
  by (simp add: wr_range_def)

lemma wr_range_eq_Some_iff:
  "wr_range xs i ys = Some zs \<longleftrightarrow>
     i + length ys \<le> length xs \<and> zs = take i xs @ ys @ drop (i + length ys) xs"
  by (auto simp: wr_range_def)

lemma length_wr_range: "wr_range xs i ys = Some zs \<Longrightarrow> length zs = length xs"
  by (auto simp: wr_range_eq_Some_iff)

lemma rd_range_wr_range_other:
  assumes "wr_range xs i ys = Some zs" "j + n \<le> i \<or> i + length ys \<le> j"
  shows "rd_range zs j n = rd_range xs j n"
proof -
  from assms(1) have zs: "i + length ys \<le> length xs" "zs = take i xs @ ys @ drop (i + length ys) xs"
    by (simp_all add: wr_range_eq_Some_iff)
  then have len: "length zs = length xs" by simp
  have nth: "zs ! m = xs ! m" if "m < i \<or> i + length ys \<le> m" "m < length xs" for m
    using that(1)
  proof
    assume "m < i"
    then show ?thesis using zs by (simp add: nth_append)
  next
    assume "i + length ys \<le> m"
    then obtain k where "m = i + length ys + k" using le_Suc_ex by blast
    then show ?thesis using zs that(2) by (simp add: nth_append)
  qed
  have "take n (drop j zs) = take n (drop j xs)"
  proof (rule nth_equalityI)
    fix k assume k: "k < length (take n (drop j zs))"
    then have "j + k < i \<or> i + length ys \<le> j + k" "j + k < length xs" "k < n"
      using assms(2) len by auto
    with nth [of "j + k"] show "take n (drop j zs) ! k = take n (drop j xs) ! k"
      by (simp add: len)
  qed (simp add: len)
  then show ?thesis by (simp add: rd_range_def len)
qed

lemma rd_range_wr_range: "wr_range xs i ys = Some zs \<Longrightarrow> rd_range zs i (length ys) = Some ys"
  by (auto simp: wr_range_eq_Some_iff rd_range_def)

lemma wr_range_mid: "wr_range (pre @ old @ post) (length pre) ys = Some (pre @ ys @ post)"
  if "length old = length ys"
  using that by (simp add: wr_range_def)

lemma rd_range_Cons_iff:
  "rd_range buf r (Suc n) = Some (b # bs) \<longleftrightarrow> rd buf r = Some b \<and> rd_range buf (Suc r) n = Some bs"
proof (cases "r < length buf")
  case True
  then have "drop r buf = buf ! r # drop (Suc r) buf" by (simp add: Cons_nth_drop_Suc)
  then show ?thesis using True by (auto simp: rd_range_def rd_def)
qed (auto simp: rd_range_def rd_def)

text \<open>Lists of a fixed small length, element by element.\<close>

lemma length_two: "length xs = 2 \<Longrightarrow> \<exists>a b. xs = [a, b]"
  by (auto simp: numeral_eq_Suc length_Suc_conv)

lemma length_4: "length xs = 4 \<Longrightarrow> \<exists>a b c d. xs = [a, b, c, d]"
  by (auto simp: numeral_eq_Suc length_Suc_conv)

lemma length_6: "length xs = 6 \<Longrightarrow> \<exists>a b c d e f. xs = [a, b, c, d, e, f]"
  by (auto simp: numeral_eq_Suc length_Suc_conv)

lemma length_16: "length xs = 16 \<Longrightarrow> \<exists>a0 a1 a2 a3 a4 a5 a6 a7 a8 a9 a10 a11 a12 a13 a14 a15.
  xs = [a0, a1, a2, a3, a4, a5, a6, a7, a8, a9, a10, a11, a12, a13, a14, a15]"
  by (auto simp: numeral_eq_Suc length_Suc_conv)

lemma four_cells: "4 \<le> length xs \<Longrightarrow> \<exists>a b c d rest. xs = [a, b] @ [c, d] @ rest"
  by (auto simp: numeral_eq_Suc Suc_le_length_iff)

section \<open>C strings\<close>

text \<open>
  \<^term>\<open>cstr\<close> is the string a buffer holds; \<^verbatim>\<open>strlen\<close> of a buffer without a terminator reads past
  its end.
\<close>

definition cstr :: "u8 list \<Rightarrow> u8 list" where
  "cstr buf = takeWhile (\<lambda>b. b \<noteq> 0) buf"

definition strlen :: "u8 list \<Rightarrow> nat option" where
  "strlen buf = (if 0 \<in> set buf then Some (length (cstr buf)) else None)"

text \<open>The text a string argument (\<^verbatim>\<open>%s\<close>, \<^verbatim>\<open>strcmp\<close>) stands for.\<close>

definition cstring :: "u8 list \<Rightarrow> u8 list option" where
  "cstring buf = (if 0 \<in> set buf then Some (cstr buf) else None)"

lemma cstr_append_NUL [simp]: "0 \<notin> set s \<Longrightarrow> cstr (s @ 0 # t) = s"
  unfolding cstr_def by (subst takeWhile_append2) (auto intro: ccontr)

lemma cstr_no_NUL [simp]: "0 \<notin> set s \<Longrightarrow> cstr s = s"
  unfolding cstr_def by (rule takeWhile_eq_all_conv [THEN iffD2]) (metis (full_types))

lemma NUL_notin_cstr [simp]: "0 \<notin> set (cstr buf)"
  by (auto simp: cstr_def dest: set_takeWhileD)

lemma strlen_append_NUL [simp]: "0 \<notin> set s \<Longrightarrow> strlen (s @ 0 # t) = Some (length s)"
  by (simp add: strlen_def)

lemma cstring_append_NUL [simp]: "0 \<notin> set s \<Longrightarrow> cstring (s @ 0 # t) = Some s"
  by (simp add: cstring_def)

lemma strlen_Some_split:
  assumes "strlen buf = Some n"
  shows "\<exists>t. buf = cstr buf @ 0 # t \<and> length (cstr buf) = n"
proof -
  from assms have z: "0 \<in> set buf" and n: "length (cstr buf) = n"
    by (auto simp: strlen_def split: if_splits)
  have eq: "buf = cstr buf @ dropWhile (\<lambda>b. b \<noteq> 0) buf"
    by (simp add: cstr_def)
  with z have "dropWhile (\<lambda>b. b \<noteq> 0) buf \<noteq> []"
    by (metis append.right_neutral NUL_notin_cstr)
  then obtain y t where yt: "dropWhile (\<lambda>b. b \<noteq> 0) buf = y # t"
    by (cases "dropWhile (\<lambda>b. b \<noteq> 0) buf") auto
  then have "y = 0"
    using hd_dropWhile [of "\<lambda>b. b \<noteq> 0" buf] by auto
  with eq yt n show ?thesis by metis
qed

section \<open>Words: bits beyond a bound\<close>

lemma unat_less_iff_bits:
  "unat (x :: 'a::len word) < 2 ^ k \<longleftrightarrow> take_bit k x = x"
  by (metis take_bit_nat_eq_self_iff unsigned_take_bit_eq word_unat_eq_iff)

lemma not_bit_above: "unat (x :: 'a::len word) < 2 ^ k \<Longrightarrow> k \<le> i \<Longrightarrow> \<not> bit x i"
  by (metis bit_take_bit_iff leD unat_less_iff_bits)

lemma take_bit_self_iff_bits: "take_bit k (x :: 'a::len word) = x \<longleftrightarrow> (\<forall>i\<ge>k. \<not> bit x i)"
proof
  assume "take_bit k x = x"
  then show "\<forall>i\<ge>k. \<not> bit x i" by (metis bit_take_bit_iff leD)
next
  assume "\<forall>i\<ge>k. \<not> bit x i"
  then show "take_bit k x = x"
    by (intro bit_word_eqI) (auto simp: bit_simps not_le [symmetric])
qed

lemma unat_power_word: "k < LENGTH('a) \<Longrightarrow> unat (2 ^ k :: 'a::len word) = 2 ^ k"
  by (simp add: of_nat_inverse)

lemma word_less_power_iff:
  "k < LENGTH('a) \<Longrightarrow> (x :: 'a::len word) < 2 ^ k \<longleftrightarrow> (\<forall>i\<ge>k. \<not> bit x i)"
  by (simp add: word_less_nat_alt unat_power_word unat_less_iff_bits take_bit_self_iff_bits)

lemma drop_bit_less_power:
  "(x :: 'a::len word) < 2 ^ (m + k) \<Longrightarrow> m + k < LENGTH('a) \<Longrightarrow> drop_bit k x < 2 ^ m"
  by (simp add: word_less_power_iff bit_simps)

lemma unat_of_nat_small: "n < 2 ^ LENGTH('a) \<Longrightarrow> unat (of_nat n :: 'a::len word) = n"
  by (simp add: unsigned_of_nat take_bit_nat_eq_self)

lemma sint_of_nat_u32: "n < 2 ^ 31 \<Longrightarrow> sint (of_nat n :: u32) = int n"
  by (simp add: signed_of_nat signed_take_bit_int_eq_self)

lemma sint_small_u32: "uint (x :: u32) < 2 ^ 31 \<Longrightarrow> sint x = uint x"
  using signed_take_bit_int_eq_self [of 31 "uint x"] uint_lt2p
  by (simp add: sint_uint order_trans [OF _ uint_ge_0])

lemma drop_bit_eq_0_bits:
  assumes "drop_bit k (x :: 'a::len word) = 0"
  shows "\<forall>i\<ge>k. \<not> bit x i"
proof (intro allI impI)
  fix i assume "k \<le> i"
  then have "bit x i = bit (drop_bit k x) (i - k)" by (simp add: bit_drop_bit_eq)
  then show "\<not> bit x i" by (simp add: assms)
qed

text \<open>Equality of bytes, bit by bit; and a word equation reduced to its finitely many bits.\<close>

lemma all_less_8:
  "(\<forall>n<8. P n) \<longleftrightarrow> P 0 \<and> P 1 \<and> P 2 \<and> P 3 \<and> P 4 \<and> P 5 \<and> P 6 \<and> P (7 :: nat)"
  by (simp add: numeral_eq_Suc All_less_Suc del: One_nat_def) auto

lemma unat_u8_less [simp]: "unat (b :: u8) < 256"
proof -
  have "unat b < 2 ^ LENGTH(8)" by (rule unsigned_less)
  then show ?thesis by simp
qed

lemma u8_bit_high: "8 \<le> n \<Longrightarrow> \<not> bit (b :: u8) n"
  by (simp add: bit_word.rep_eq)

lemma u8_eq_bits: "(a :: u8) = b \<longleftrightarrow> (\<forall>n<8. bit a n = bit b n)"
  by (auto intro: bit_word_eqI)

lemmas u8_bits = u8_eq_bits all_less_8 bit_simps

lemmas bit_cases = bit_simps numeral_eq_Suc less_Suc_eq

section \<open>Byte views of words\<close>

text \<open>
  Byte \<open>i\<close> of a word, and the two byte orders: little-endian is how the x86-64 targets of this
  code store an integer object, big-endian is network order.
\<close>

definition byte :: "nat \<Rightarrow> 'a::len word \<Rightarrow> u8" where
  "byte i x = ucast (drop_bit (8 * i) x)"

definition le_bytes :: "nat \<Rightarrow> 'a::len word \<Rightarrow> u8 list" where
  "le_bytes n x = map (\<lambda>i. byte i x) [0..<n]"

primrec of_le_bytes :: "u8 list \<Rightarrow> 'a::len word" where
  "of_le_bytes [] = 0"
| "of_le_bytes (b # bs) = ucast b OR push_bit 8 (of_le_bytes bs)"

lemma length_le_bytes [simp]: "length (le_bytes n x) = n"
  by (simp add: le_bytes_def)

lemma le_bytes_Suc: "le_bytes (Suc n) x = ucast x # le_bytes n (drop_bit 8 x)"
proof -
  have "map (\<lambda>i. byte i x) [0..<Suc n] = byte 0 x # map (\<lambda>i. byte (Suc i) x) [0..<n]"
    by (simp add: upt_conv_Cons map_Suc_upt [symmetric] del: upt_Suc)
  moreover have "byte (Suc i) x = byte i (drop_bit 8 x)" for i
    by (simp add: byte_def drop_bit_drop_bit add.commute)
  ultimately show ?thesis
    by (simp add: le_bytes_def byte_def del: upt_Suc)
qed

lemma of_le_bytes_le_bytes_take:
  "of_le_bytes (le_bytes n x) = take_bit (8 * n) (x :: 'a::len word)"
proof (induction n arbitrary: x)
  case 0
  show ?case by (simp add: le_bytes_def)
next
  case (Suc n)
  have "ucast (ucast x :: u8) OR push_bit 8 (take_bit (8 * n) (drop_bit 8 x)) = take_bit (8 * Suc n) x"
    by (rule bit_word_eqI) (auto simp: bit_simps)
  with Suc show ?case by (simp add: le_bytes_Suc)
qed

lemma of_le_bytes_le_bytes [simp]:
  "LENGTH('a) \<le> 8 * n \<Longrightarrow> of_le_bytes (le_bytes n x) = (x :: 'a::len word)"
  by (simp add: of_le_bytes_le_bytes_take take_bit_word_eq_self)

section \<open>Interface: self-delimiting byte codecs\<close>

text \<open>
  The encoders of this repository write a value as a run of bytes from which the matching decoder
  reads the value back and reports how many bytes it used, whatever bytes follow. Everything a
  client needs (values are determined by their bytes, sequences of values are determined by their
  concatenation) follows from that one law.
\<close>

locale byte_codec =
  fixes enc :: "'a \<Rightarrow> u8 list"
    and dec :: "u8 list \<Rightarrow> ('a \<times> nat) option"
    and ok :: "'a \<Rightarrow> bool"
  assumes dec_enc: "ok x \<Longrightarrow> dec (enc x @ rest) = Some (x, length (enc x))"
    and dec_Nil: "dec [] = None"
begin

lemma enc_nonempty: "ok x \<Longrightarrow> enc x \<noteq> []"
  using dec_enc [of x "[]"] dec_Nil by auto

lemma enc_prefix_free:
  assumes "ok x" "ok y" "enc x @ r = enc y @ s"
  shows "x = y \<and> r = s"
proof -
  from assms have "Some (x, length (enc x)) = Some (y, length (enc y))"
    by (metis dec_enc)
  with assms(3) show ?thesis by simp
qed

lemma enc_inj: "ok x \<Longrightarrow> ok y \<Longrightarrow> enc x = enc y \<Longrightarrow> x = y"
  using enc_prefix_free [of x y "[]" "[]"] by simp

lemma concat_enc_inj:
  assumes "list_all ok xs" "list_all ok ys" "concat (map enc xs) = concat (map enc ys)"
  shows "xs = ys"
  using assms
proof (induction xs arbitrary: ys)
  case Nil
  then show ?case
    by (cases ys) (auto simp: enc_nonempty)
next
  case (Cons x xs)
  from Cons.prems obtain y zs where ys: "ys = y # zs"
    by (cases ys) (auto simp: enc_nonempty)
  with Cons.prems have "x = y \<and> concat (map enc xs) = concat (map enc zs)"
    by (intro enc_prefix_free) auto
  with Cons ys show ?case by auto
qed

end

text \<open>A read loop over such a decoder: it decodes, advances by the reported size and repeats.\<close>

locale codec_loop = byte_codec +
  fixes loop :: "u8 list \<Rightarrow> 'a list"
  assumes loop_stop: "dec bs = None \<Longrightarrow> loop bs = []"
    and loop_step: "dec bs = Some (x, n) \<Longrightarrow> loop bs = x # loop (drop n bs)"
begin

lemma loop_concat_enc:
  "list_all ok xs \<Longrightarrow> loop (concat (map enc xs) @ rest) = xs @ loop rest"
  by (induction xs) (simp_all add: loop_step [OF dec_enc])

lemma loop_concat: "list_all ok xs \<Longrightarrow> loop (concat (map enc xs)) = xs"
  using loop_concat_enc [of xs "[]"] by (simp add: loop_stop [OF dec_Nil])

end

section \<open>Interface: cyclic indices\<close>

text \<open>The increment-and-wrap step that every ring of this repository performs on its cursor.\<close>

locale ring_index =
  fixes adv :: "nat \<Rightarrow> nat" and N :: nat
  assumes adv_less: "Suc i < N \<Longrightarrow> adv i = Suc i"
    and adv_last: "Suc i = N \<Longrightarrow> adv i = 0"
begin

lemma adv_mod: "i < N \<Longrightarrow> adv i = Suc i mod N"
  by (cases "Suc i = N") (simp_all add: adv_last adv_less)

lemma adv_in_range: "i < N \<Longrightarrow> adv i < N"
  by (simp add: adv_mod)

lemma adv_pow: "i < N \<Longrightarrow> (adv ^^ k) i = (i + k) mod N"
proof (induction k)
  case (Suc k)
  then have "adv ((i + k) mod N) = Suc ((i + k) mod N) mod N"
    by (simp add: adv_mod)
  with Suc show ?case by (simp add: mod_Suc_eq)
qed simp

lemma adv_cycle: "i < N \<Longrightarrow> (adv ^^ N) i = i"
  by (simp add: adv_pow)

lemma adv_inj: "i < N \<Longrightarrow> j < N \<Longrightarrow> adv i = adv j \<Longrightarrow> i = j"
  by (metis adv_last adv_less Suc_inject Suc_lessI nat.distinct(1))

end

end
