(* ===== verification/Libc.thy ===== *)
theory Libc
  imports CPrelude
begin

text \<open>
  The functions of the C library that the programs call on data of their own: \<^verbatim>\<open>bsearch\<close> and
  \<^verbatim>\<open>qsort\<close> with a comparison callback, the conversions of \<^verbatim>\<open>printf\<close> that occur in the sources, and
  \<^verbatim>\<open>sprintf\<close>/\<^verbatim>\<open>snprintf\<close> into a memory object, and the compiler's \<^verbatim>\<open>__builtin_clz\<close>. A comparison callback may be undefined (a signed
  subtraction can overflow), so its result is an option.

  The locale \<open>key_compare\<close> is the contract between a callback and the two library functions: on the
  elements in use the callback is defined and has the sign of the difference of two keys.
\<close>

section \<open>Leading zeros\<close>

unbundle bit_operations_syntax

text \<open>\<^verbatim>\<open>__builtin_clz\<close>: the number of leading zero bits, undefined for 0.\<close>

definition clz :: "'a::len word \<Rightarrow> nat option" where
  "clz x = (if x = 0 then None
            else Some (length (takeWhile (\<lambda>i. \<not> bit x i) (rev [0..<LENGTH('a)]))))"

lemma clz_Some:
  assumes "clz (x :: 'a::len word) = Some z"
  shows "z < LENGTH('a)" "LENGTH('a) - z \<le> k \<longleftrightarrow> (\<forall>i\<ge>k. \<not> bit x i)"
proof -
  let ?n = "LENGTH('a)"
  let ?r = "rev [0..<?n]"
  have x: "x \<noteq> 0" and z: "z = length (takeWhile (\<lambda>i. \<not> bit x i) ?r)"
    using assms by (auto simp: clz_def split: if_splits)
  obtain j where "j < ?n" "bit x j"
    using x by (metis bit_0_eq bit_word_eqI bot_apply bot_bool_def)
  then have "\<exists>i\<in>set ?r. bit x i" by auto
  then have "takeWhile (\<lambda>i. \<not> bit x i) ?r \<noteq> ?r"
    by (metis (mono_tags, lifting) takeWhile_eq_all_conv)
  then have lt: "z < length ?r"
    using z by (metis length_takeWhile_le le_neq_implies_less takeWhile_eq_take take_all_iff le_refl)
  then show zn: "z < ?n" by simp
  have "bit x (?r ! z)"
    using nth_length_takeWhile [of "\<lambda>i. \<not> bit x i" ?r] lt z by simp
  then have top: "bit x (?n - 1 - z)"
    using zn by (simp add: rev_nth)
  have above: "\<not> bit x i" if "?n - 1 - z < i" "i < ?n" for i
  proof -
    have "?n - 1 - i < z" using that zn by linarith
    then have "takeWhile (\<lambda>i. \<not> bit x i) ?r ! (?n - 1 - i) = ?r ! (?n - 1 - i)"
      using z by (metis takeWhile_nth)
    moreover have "?r ! (?n - 1 - i) = i" using that by (simp add: rev_nth)
    ultimately have "i \<in> set (takeWhile (\<lambda>i. \<not> bit x i) ?r)"
      using \<open>?n - 1 - i < z\<close> z by (metis nth_mem)
    then show ?thesis by (auto dest: set_takeWhileD)
  qed
  show "?n - z \<le> k \<longleftrightarrow> (\<forall>i\<ge>k. \<not> bit x i)"
  proof
    assume "?n - z \<le> k"
    then show "\<forall>i\<ge>k. \<not> bit x i"
      using above bit_imp_le_length [of x] zn by (metis Suc_diff_1 Suc_diff_Suc diff_Suc_eq_diff_pred diff_right_commute le_trans less_eq_Suc_le linorder_not_le)
  next
    assume "\<forall>i\<ge>k. \<not> bit x i"
    with top have "?n - 1 - z < k" by (meson not_le)
    then show "?n - z \<le> k" using zn by linarith
  qed
qed

lemma clz_32: "clz (x :: u32) = Some z \<Longrightarrow> k < 32 \<Longrightarrow> 32 - z < Suc k \<longleftrightarrow> x < 2 ^ k"
  using clz_Some(2) [of x z k] by (simp add: word_less_power_iff less_Suc_eq_le)

section \<open>Search and sort\<close>

text \<open>\<open>bsearch cmp k xs l u\<close> searches \<open>k\<close> in the cells \<open>l..<u\<close>; the outer option is definedness.\<close>

function bsearch :: "('a \<Rightarrow> 'a \<Rightarrow> int option) \<Rightarrow> 'a \<Rightarrow> 'a list \<Rightarrow> nat \<Rightarrow> nat \<Rightarrow> 'a option option" where
  "bsearch cmp k xs l u =
     (if l < u then
        let idx = (l + u) div 2 in
        case rd xs idx of
          None \<Rightarrow> None
        | Some x \<Rightarrow>
            (case cmp k x of
               None \<Rightarrow> None
             | Some r \<Rightarrow>
                 if r < 0 then bsearch cmp k xs l idx
                 else if r > 0 then bsearch cmp k xs (idx + 1) u
                 else Some (Some x))
      else Some None)"
  by pat_completeness auto
termination
  by (relation "measure (\<lambda>(cmp, k, xs, l, u). u - l)") auto

declare bsearch.simps [simp del]

fun qsort_insert :: "('a \<Rightarrow> 'a \<Rightarrow> int option) \<Rightarrow> 'a \<Rightarrow> 'a list \<Rightarrow> 'a list option" where
  "qsort_insert cmp x [] = Some [x]"
| "qsort_insert cmp x (y # ys) = do {
     r \<leftarrow> cmp x y;
     if r \<le> 0 then Some (x # y # ys) else map_option ((#) y) (qsort_insert cmp x ys)
   }"

fun qsort :: "('a \<Rightarrow> 'a \<Rightarrow> int option) \<Rightarrow> 'a list \<Rightarrow> 'a list option" where
  "qsort cmp [] = Some []"
| "qsort cmp (x # xs) = do {
     ys \<leftarrow> qsort cmp xs;
     qsort_insert cmp x ys
   }"

locale key_compare =
  fixes cmp :: "'a \<Rightarrow> 'a \<Rightarrow> int option"
    and key :: "'a \<Rightarrow> int"
    and ok :: "'a \<Rightarrow> bool"
  assumes cmp_sgn: "ok a \<Longrightarrow> ok b \<Longrightarrow> \<exists>r. cmp a b = Some r \<and> sgn r = sgn (key a - key b)"
begin

lemma cmp_cases:
  assumes "ok a" "ok b"
  obtains r where "cmp a b = Some r" "r < 0 \<longleftrightarrow> key a < key b" "0 < r \<longleftrightarrow> key b < key a"
  using cmp_sgn [OF assms] by (metis diff_less_0_iff_less diff_gt_0_iff_gt sgn_less sgn_greater)

lemma bsearch_range:
  assumes "sorted_wrt (<) (map key xs)" "list_all ok xs" "ok k" "u \<le> length xs"
    and "\<And>i. i < length xs \<Longrightarrow> key (xs ! i) = key k \<Longrightarrow> l \<le> i \<and> i < u"
  shows "bsearch cmp k xs l u = Some (find (\<lambda>x. key x = key k) xs)"
  using assms(4,5)
proof (induction "u - l" arbitrary: l u rule: less_induct)
  case less
  note mono = sorted_wrt_nth_less [OF assms(1), unfolded length_map]
  show ?case
  proof (cases "l < u")
    case False
    with less.prems(2) have "find (\<lambda>x. key x = key k) xs = None"
      by (auto simp: find_None_iff in_set_conv_nth) (meson le_less_trans)
    with False show ?thesis by (simp add: bsearch.simps)
  next
    case True
    define m where "m = (l + u) div 2"
    have m: "m < length xs" "l \<le> m" "m < u" using True less.prems(1) by (auto simp: m_def)
    then have "ok (xs ! m)" using assms(2) by (simp add: list_all_length)
    from cmp_cases [OF assms(3) this] obtain r where
      r: "cmp k (xs ! m) = Some r" "r < 0 \<longleftrightarrow> key k < key (xs ! m)" "0 < r \<longleftrightarrow> key (xs ! m) < key k" .
    have step: "bsearch cmp k xs l u =
        (if r < 0 then bsearch cmp k xs l m else if 0 < r then bsearch cmp k xs (m + 1) u
         else Some (Some (xs ! m)))"
      using True m r(1) by (subst bsearch.simps) (simp add: rd_Some m_def [symmetric])
    consider "r < 0" | "0 < r" | "r = 0" by linarith
    then show ?thesis
    proof cases
      case 1
      have "bsearch cmp k xs l m = Some (find (\<lambda>x. key x = key k) xs)"
      proof (rule less.hyps)
        fix i assume i: "i < length xs" "key (xs ! i) = key k"
        then have "\<not> m < i" "m \<noteq> i" using mono [of m i] 1 r(2) by auto
        then show "l \<le> i \<and> i < m" using less.prems(2) [OF i] by simp
      qed (use m in auto)
      with step 1 show ?thesis by simp
    next
      case 2
      have "bsearch cmp k xs (m + 1) u = Some (find (\<lambda>x. key x = key k) xs)"
      proof (rule less.hyps)
        fix i assume i: "i < length xs" "key (xs ! i) = key k"
        then have "\<not> i < m" "m \<noteq> i" using mono [of i m] m(1) 2 r(3) by auto
        then show "m + 1 \<le> i \<and> i < u" using less.prems(2) [OF i] by simp
      qed (use m less.prems in auto)
      with step 2 show ?thesis by simp
    next
      case 3
      then have "key (xs ! m) = key k" using r by auto
      moreover have "\<not> key (xs ! j) = key k" if "j < m" for j
        using mono [of j m] m(1) that calculation by auto
      ultimately have "find (\<lambda>x. key x = key k) xs = Some (xs ! m)"
        using m(1) by (auto simp: find_Some_iff intro!: exI [of _ m])
      with step 3 show ?thesis by simp
    qed
  qed
qed

lemma bsearch_find:
  assumes "sorted_wrt (<) (map key xs)" "list_all ok xs" "ok k"
  shows "bsearch cmp k xs 0 (length xs) = Some (find (\<lambda>x. key x = key k) xs)"
  by (rule bsearch_range [OF assms]) auto

lemma qsort_insert_insort:
  "ok x \<Longrightarrow> list_all ok ys \<Longrightarrow> qsort_insert cmp x ys = Some (insort_key key x ys)"
proof (induction ys)
  case (Cons y ys)
  then have "ok x" "ok y" by simp_all
  from cmp_cases [OF this] obtain r where
    "cmp x y = Some r" "r < 0 \<longleftrightarrow> key x < key y" "0 < r \<longleftrightarrow> key y < key x" .
  with Cons show ?case by auto
qed simp

lemma qsort_sort_key: "list_all ok xs \<Longrightarrow> qsort cmp xs = Some (sort_key key xs)"
proof (induction xs)
  case (Cons x xs)
  then have "list_all ok (sort_key key xs)" by (simp add: list_all_iff)
  with Cons show ?case by (simp add: qsort_insert_insort)
qed simp

end

section \<open>Formatted output\<close>

text \<open>\<^verbatim>\<open>%x\<close> and \<^verbatim>\<open>%#x\<close>: the alternative form has the prefix only when the value is not 0.\<close>

definition hex_digit :: "nat \<Rightarrow> u8" where
  "hex_digit d = of_nat (if d < 10 then 48 + d else 87 + d)"

fun fmt_x :: "nat \<Rightarrow> u8 list" where
  "fmt_x n = (if n < 16 then [hex_digit n] else fmt_x (n div 16) @ [hex_digit (n mod 16)])"

declare fmt_x.simps [simp del]

text \<open>\<^verbatim>\<open>%d\<close> of a value that is not negative.\<close>

fun fmt_d :: "nat \<Rightarrow> u8 list" where
  "fmt_d n = (if n < 10 then [of_nat (48 + n)] else fmt_d (n div 10) @ [of_nat (48 + n mod 10)])"

declare fmt_d.simps [simp del]

definition fmt_int :: "int \<Rightarrow> u8 list" where
  "fmt_int i = (if i < 0 then 45 # fmt_d (nat (- i)) else fmt_d (nat i))"

definition fmt_alt_x :: "nat \<Rightarrow> u8 list" where
  "fmt_alt_x n = (if n = 0 then [48] else [48, 120] @ fmt_x n)"

text \<open>
  \<^verbatim>\<open>sprintf\<close> of an already converted text into the memory from \<open>p\<close> on, with its terminating NUL;
  \<^verbatim>\<open>snprintf\<close> writes at most \<open>n\<close> bytes including the NUL. Both return the length of the text.
\<close>

definition sprintf :: "u8 list \<Rightarrow> nat \<Rightarrow> u8 list \<Rightarrow> (nat \<times> u8 list) option" where
  "sprintf buf p txt = map_option (Pair (length txt)) (wr_range buf p (txt @ [0]))"

definition snprintf :: "u8 list \<Rightarrow> nat \<Rightarrow> nat \<Rightarrow> u8 list \<Rightarrow> (nat \<times> u8 list) option" where
  "snprintf buf p n txt =
     (if n = 0 then Some (length txt, buf)
      else map_option (Pair (length txt)) (wr_range buf p (take (n - 1) txt @ [0])))"

text \<open>The lines \<^verbatim>\<open>LOG_INFO\<close> prints to standard output and \<^verbatim>\<open>LOG_ERROR\<close> to standard error.\<close>

datatype log_line = LOG_INFO "u8 list" | LOG_ERROR "u8 list"

section \<open>Numbers from text\<close>

definition isspace :: "u8 \<Rightarrow> bool" where
  "isspace c \<longleftrightarrow> c \<in> {32, 9, 10, 11, 12, 13}"

definition isdigit :: "u8 \<Rightarrow> bool" where
  "isdigit c \<longleftrightarrow> 48 \<le> c \<and> c \<le> 57"

text \<open>The leading digits of a text as a number, and the sign and digits after leading spaces.\<close>

definition digits_value :: "u8 list \<Rightarrow> nat" where
  "digits_value s = foldl (\<lambda>n c. 10 * n + (unat c - 48)) 0 (takeWhile isdigit s)"

definition signed_value :: "u8 list \<Rightarrow> int" where
  "signed_value s =
     (case dropWhile isspace s of
        [] \<Rightarrow> 0
      | c # r \<Rightarrow> if c = 45 then - int (digits_value r)
                 else if c = 43 then int (digits_value r) else int (digits_value (c # r)))"

text \<open>\<^verbatim>\<open>atoi\<close> is undefined when the number is no \<^verbatim>\<open>int\<close>; \<^verbatim>\<open>strtoull\<close> saturates and negates modulo 2^64.\<close>

definition atoi :: "u8 list \<Rightarrow> int option" where
  "atoi s = (let n = signed_value s in if - (2 ^ 31) \<le> n \<and> n < 2 ^ 31 then Some n else None)"

definition strtoull :: "u8 list \<Rightarrow> u64" where
  "strtoull s = (let n = signed_value s in if 2 ^ 64 \<le> \<bar>n\<bar> then - 1 else of_int n)"

section \<open>Printed numbers\<close>

definition fold_digits :: "nat \<Rightarrow> u8 list \<Rightarrow> nat" where
  "fold_digits = foldl (\<lambda>n c. 10 * n + (unat c - 48))"

lemma digit_char:
  assumes "d < 10"
  shows "unat (of_nat (48 + d) :: u8) = 48 + d" "isdigit (of_nat (48 + d))"
proof -
  show u: "unat (of_nat (48 + d) :: u8) = 48 + d" using assms by (simp del: of_nat_add add: unat_of_nat take_bit_eq_mod)
  show "isdigit (of_nat (48 + d))"
    unfolding isdigit_def word_le_nat_alt u using assms by simp
qed

lemma fmt_d_digits: "list_all isdigit (fmt_d n)"
  by (induction n rule: fmt_d.induct) (subst fmt_d.simps, auto simp del: of_nat_add simp: digit_char)

lemma fmt_d_not_Nil [simp]: "fmt_d n \<noteq> []"
  by (subst fmt_d.simps) simp

lemma fmt_d_set:
  assumes "c \<in> set (fmt_d n)"
  shows "isdigit c" "48 \<le> unat c" "unat c \<le> 57"
  using assms fmt_d_digits [of n] by (auto simp: list_all_iff isdigit_def word_le_nat_alt)

lemma fmt_d_fold: "fold_digits 0 (fmt_d n) = n"
proof (induction n rule: fmt_d.induct)
  case (1 n)
  then show ?case
    by (subst fmt_d.simps) (auto simp del: of_nat_add simp: fold_digits_def digit_char)
qed

lemma fmt_d_length: "n < 10 ^ Suc k \<Longrightarrow> length (fmt_d n) \<le> Suc k"
proof (induction k arbitrary: n)
  case 0
  then show ?case by (subst fmt_d.simps) simp
next
  case (Suc k)
  then have "n div 10 < 10 ^ Suc k" by (simp add: less_mult_imp_div_less mult.commute)
  then show ?case using Suc.IH [of "n div 10"] by (subst fmt_d.simps) simp
qed

text \<open>Reading a printed number gives the number back, whatever follows that is no digit.\<close>

lemma digits_value_fmt_d: "r = [] \<or> \<not> isdigit (hd r) \<Longrightarrow> digits_value (fmt_d n @ r) = n"
proof -
  assume r: "r = [] \<or> \<not> isdigit (hd r)"
  have "takeWhile isdigit r = []" using r by (cases r) auto
  then have "takeWhile isdigit (fmt_d n @ r) = fmt_d n"
    using fmt_d_digits [of n] by (simp add: list_all_iff takeWhile_append)
  then show ?thesis using fmt_d_fold [of n] by (simp add: digits_value_def fold_digits_def)
qed

lemma signed_value_fmt_d:
  assumes "r = [] \<or> \<not> isdigit (hd r)"
  shows "signed_value (fmt_d n @ r) = int n"
proof -
  obtain c s where cs: "fmt_d n = c # s" by (cases "fmt_d n") auto
  have c: "48 \<le> unat c" using fmt_d_set(2) [of c n] cs by simp
  have "c \<noteq> 45" "c \<noteq> 43" "\<not> isspace c" using c by (auto simp: isspace_def)
  then show ?thesis using digits_value_fmt_d [OF assms, of n] by (simp add: signed_value_def cs)
qed

lemma signed_value_fmt_int:
  assumes "r = [] \<or> \<not> isdigit (hd r)"
  shows "signed_value (fmt_int i @ r) = i"
proof (cases "i < 0")
  case True
  then show ?thesis using digits_value_fmt_d [OF assms, of "nat (- i)"]
    by (simp add: fmt_int_def signed_value_def isspace_def)
next
  case False
  then show ?thesis using signed_value_fmt_d [OF assms, of "nat i"] by (simp add: fmt_int_def)
qed

lemma atoi_fmt_int:
  assumes "r = [] \<or> \<not> isdigit (hd r)" "- (2 ^ 31) \<le> i" "i < 2 ^ 31"
  shows "atoi (fmt_int i @ r) = Some i"
  using assms by (simp add: atoi_def signed_value_fmt_int)

lemma fmt_int_set: "c \<in> set (fmt_int i) \<Longrightarrow> c = 45 \<or> 48 \<le> unat c \<and> unat c \<le> 57"
  using fmt_d_set by (auto simp: fmt_int_def split: if_splits)

lemma fmt_int_length: "\<bar>i\<bar> < 10 ^ Suc k \<Longrightarrow> length (fmt_int i) \<le> Suc (Suc k)"
  using fmt_d_length [of "nat \<bar>i\<bar>" k] by (auto simp: fmt_int_def nat_less_iff)

section \<open>Network byte order\<close>

definition htons :: "u16 \<Rightarrow> u16" where
  "htons x = push_bit 8 x OR drop_bit 8 x"

definition ntohs :: "u16 \<Rightarrow> u16" where
  "ntohs = htons"

text \<open>A 16-bit field of a packed structure at an offset of the packet.\<close>

definition rd16 :: "u8 list \<Rightarrow> nat \<Rightarrow> u16 option" where
  "rd16 buf i = map_option of_le_bytes (rd_range buf i 2)"

definition wr16 :: "u8 list \<Rightarrow> nat \<Rightarrow> u16 \<Rightarrow> u8 list option" where
  "wr16 buf i v = wr_range buf i (le_bytes 2 v)"

definition inet_ntoa :: "u8 list \<Rightarrow> u8 list" where
  "inet_ntoa bs = fmt_d (unat (bs ! 0)) @ 46 # fmt_d (unat (bs ! 1)) @ 46 #
     fmt_d (unat (bs ! 2)) @ 46 # fmt_d (unat (bs ! 3))"

lemma htons_htons [simp]: "htons (htons x) = x"
  unfolding htons_def by (rule bit_word_eqI) (auto simp: bit_simps)

lemma le_bytes_htons: "le_bytes 2 (htons x) = [ucast (drop_bit 8 x), ucast x]"
proof -
  have "ucast (htons x) = (ucast (drop_bit 8 x) :: u8)"
    unfolding htons_def by (rule bit_word_eqI) (auto simp: bit_simps)
  moreover have "ucast (drop_bit 8 (htons x)) = (ucast x :: u8)"
    unfolding htons_def by (rule bit_word_eqI) (auto simp: bit_simps)
  ultimately show ?thesis by (simp add: numeral_2_eq_2 le_bytes_def byte_def)
qed

lemma le_bytes_zero: "le_bytes 2 (0 :: u16) = [0, 0]"
  by (simp add: numeral_2_eq_2 le_bytes_def byte_def)

lemma rd_range_sub:
  assumes "rd_range buf i n = Some bs" "j + m \<le> n"
  shows "rd_range buf (i + j) m = Some (take m (drop j bs))"
  using assms by (auto simp: rd_range_eq_Some_iff take_drop min_def add.commute)

end
