(* ===== verification/Utf8.thy ===== *)
theory Utf8
  imports Libc
begin

text \<open>
  The UTF-8 coder of \<^verbatim>\<open>trivial/name_codec.c\<close>: \<^verbatim>\<open>utf8_encode\<close>, \<^verbatim>\<open>utf8_decode\<close> and the stream
  cursor \<^verbatim>\<open>st_utf8_stream_t\<close>. The reference is \<^term>\<open>utf8_bytes\<close>, the byte sequence of a code
  point below \<^verbatim>\<open>2^21\<close>.
\<close>

unbundle bit_operations_syntax

section \<open>The code\<close>

text \<open>The suffix loop \<^verbatim>\<open>for (i = c - 1; i >= 0; i--) *++p = ...\<close>; the cursor is \<open>p\<close>.\<close>

fun utf8_put_suffix :: "nat \<Rightarrow> u32 \<Rightarrow> u8 list \<Rightarrow> nat \<Rightarrow> u8 list option" where
  "utf8_put_suffix 0 x buf p = Some buf"
| "utf8_put_suffix (Suc i) x buf p = do {
     buf \<leftarrow> wr buf (Suc p) (ucast ((drop_bit (i * 6) x AND 0x3f) OR 0x80));
     utf8_put_suffix i x buf (Suc p)
   }"

text \<open>
  \<^verbatim>\<open>utf8_encode(p, e, x)\<close>; the list is the memory between \<open>p\<close> and \<open>e\<close>. The first byte is
  written before the room is checked, and 0 is returned when there is no room for the rest.
\<close>

definition utf8_encode :: "u8 list \<Rightarrow> u32 \<Rightarrow> (nat \<times> u8 list) option" where
  "utf8_encode p x = do {
     z \<leftarrow> clz x;
     let n = 32 - z;
     (c, p) \<leftarrow>
       (if n < 8 then map_option (Pair 0) (wr p 0 (ucast (x AND 0xff)))
        else if n < 12 then map_option (Pair 1) (wr p 0 (ucast ((drop_bit 6 x AND 0xff) OR 0xc0)))
        else if n < 17 then map_option (Pair 2) (wr p 0 (ucast ((drop_bit 12 x AND 0xff) OR 0xe0)))
        else if n < 22 then map_option (Pair 3) (wr p 0 (ucast ((drop_bit 18 x AND 0xff) OR 0xf0)))
        else Some (0, p));
     if length p \<le> c then Some (0, p)
     else do {
       p \<leftarrow> utf8_put_suffix c x p 0;
       Some (c + 1, p)
     }
   }"

text \<open>The suffix loop of \<^verbatim>\<open>utf8_decode\<close>; \<^term>\<open>None\<close> is \<^verbatim>\<open>goto err\<close>.\<close>

fun utf8_get_suffix :: "nat \<Rightarrow> u8 list \<Rightarrow> u32 \<Rightarrow> u32 option" where
  "utf8_get_suffix 0 p u = Some u"
| "utf8_get_suffix (Suc c) [] u = None"
| "utf8_get_suffix (Suc c) (b # p) u =
     (if drop_bit 6 b = 2 then utf8_get_suffix c p (push_bit 6 u OR (ucast b AND 0x3f)) else None)"

text \<open>
  \<^verbatim>\<open>utf8_decode(p, e, &x)\<close> over the bytes between \<open>p\<close> and \<open>e\<close>: the code point and the number of
  bytes, \<^term>\<open>None\<close> for the return value 0. When \<open>p = e\<close> the test \<^verbatim>\<open>p + c >= e\<close> rejects
  whatever byte was found at \<open>p\<close>; the only caller excludes that case.
\<close>

definition utf8_decode :: "u8 list \<Rightarrow> (u32 \<times> nat) option" where
  "utf8_decode p = (case p of [] \<Rightarrow> None | b # q \<Rightarrow> do {
     (c, u) \<leftarrow>
       (if drop_bit 7 b = 0 then Some (0, ucast b)
        else if drop_bit 5 b = 0x6 then Some (1, ucast (b AND 0x1f))
        else if drop_bit 4 b = 0xe then Some (2, ucast (b AND 0xf))
        else if drop_bit 3 b = 0x1e then Some (3, ucast (b AND 0x7))
        else None);
     if length p \<le> c then None
     else do {
       u \<leftarrow> utf8_get_suffix c q u;
       Some (u, c + 1)
     }
   })"

record st_utf8_stream =
  st_p :: nat
  st_e :: nat

definition utf8_stream_init :: "nat \<Rightarrow> nat \<Rightarrow> st_utf8_stream" where
  "utf8_stream_init p len = \<lparr>st_p = p, st_e = p + len\<rparr>"

definition stream_rest :: "u8 list \<Rightarrow> st_utf8_stream \<Rightarrow> u8 list" where
  "stream_rest buf self = take (st_e self - st_p self) (drop (st_p self) buf)"

text \<open>
  \<^verbatim>\<open>utf8_stream_next\<close>: the code point, the size stored through \<^verbatim>\<open>utf8size\<close> (if any) and the moved
  cursor; \<^verbatim>\<open>-1\<close> at the end of the data and at an undecodable byte.
\<close>

definition utf8_stream_next ::
  "u8 list \<Rightarrow> st_utf8_stream \<Rightarrow> u32 \<times> nat option \<times> st_utf8_stream" where
  "utf8_stream_next buf self =
     (if st_p self < st_e self then
        (case utf8_decode (stream_rest buf self) of
           None \<Rightarrow> (- 1, None, self)
         | Some (u, c) \<Rightarrow> (u, Some c, self\<lparr>st_p := st_p self + c\<rparr>))
      else (- 1, None, self))"

section \<open>The reference encoding\<close>

definition utf8_bytes :: "u32 \<Rightarrow> u8 list" where
  "utf8_bytes x =
     (let s = (\<lambda>i. ucast (take_bit 6 (drop_bit (6 * i) x)) OR (0x80 :: u8)) in
      if x < 0x80 then [ucast x]
      else if x < 0x800 then [ucast (drop_bit 6 x) OR 0xc0, s 0]
      else if x < 0x10000 then [ucast (drop_bit 12 x) OR 0xe0, s 1, s 0]
      else [ucast (drop_bit 18 x) OR 0xf0, s 2, s 1, s 0])"

definition utf8_scalar :: "u32 \<Rightarrow> bool" where
  "utf8_scalar x \<longleftrightarrow> x < 0x200000"

section \<open>Lead and suffix bytes\<close>

lemma utf8_suffix_test: "drop_bit 6 (ucast (take_bit 6 (y :: u32)) OR 0x80 :: u8) = 2"
  by (simp add: u8_bits)

lemma utf8_suffix_bits:
  "ucast (ucast (take_bit 6 (y :: u32)) OR 0x80 :: u8) AND 0x3f = take_bit 6 y"
  by (rule bit_word_eqI) (auto simp: bit_cases)

lemma utf8_join: "push_bit 6 (drop_bit (k+6) (x :: u32)) OR take_bit 6 (drop_bit k x) = drop_bit k x"
  by (rule bit_word_eqI) (auto simp: bit_simps)

lemma utf8_join_0: "push_bit 6 (drop_bit 6 (x :: u32)) OR take_bit 6 x = x"
  using utf8_join [of 0 x] by simp

lemma utf8_lead1:
  assumes "(y :: u32) < 2 ^ 7"
  shows "drop_bit 7 (ucast y :: u8) = 0" "ucast (ucast y :: u8) = y"
proof -
  have b: "\<forall>i\<ge>7. \<not> bit y i" using assms by (subst (asm) word_less_power_iff) auto
  then show "drop_bit 7 (ucast y :: u8) = 0" by (simp add: u8_bits)
  from b show "ucast (ucast y :: u8) = y" by (intro bit_word_eqI) (auto simp: bit_cases)
qed

lemma utf8_lead2:
  assumes "(y :: u32) < 2 ^ 5"
  shows "drop_bit 7 (ucast y OR 0xc0 :: u8) \<noteq> 0" "drop_bit 5 (ucast y OR 0xc0 :: u8) = 6"
    "ucast ((ucast y OR 0xc0 :: u8) AND 0x1f) = y"
proof -
  have b: "\<forall>i\<ge>5. \<not> bit y i" using assms by (subst (asm) word_less_power_iff) auto
  then show "drop_bit 7 (ucast y OR 0xc0 :: u8) \<noteq> 0" "drop_bit 5 (ucast y OR 0xc0 :: u8) = 6"
    by (simp_all add: u8_bits)
  from b show "ucast ((ucast y OR 0xc0 :: u8) AND 0x1f) = y"
    by (intro bit_word_eqI) (auto simp: bit_cases)
qed

lemma utf8_lead3:
  assumes "(y :: u32) < 2 ^ 4"
  shows "drop_bit 7 (ucast y OR 0xe0 :: u8) \<noteq> 0" "drop_bit 5 (ucast y OR 0xe0 :: u8) \<noteq> 6"
    "drop_bit 4 (ucast y OR 0xe0 :: u8) = 0xe" "ucast ((ucast y OR 0xe0 :: u8) AND 0xf) = y"
proof -
  have b: "\<forall>i\<ge>4. \<not> bit y i" using assms by (subst (asm) word_less_power_iff) auto
  then show "drop_bit 7 (ucast y OR 0xe0 :: u8) \<noteq> 0" "drop_bit 5 (ucast y OR 0xe0 :: u8) \<noteq> 6"
    "drop_bit 4 (ucast y OR 0xe0 :: u8) = 0xe"
    by (simp_all add: u8_bits)
  from b show "ucast ((ucast y OR 0xe0 :: u8) AND 0xf) = y"
    by (intro bit_word_eqI) (auto simp: bit_cases)
qed

lemma utf8_lead4:
  assumes "(y :: u32) < 2 ^ 3"
  shows "drop_bit 7 (ucast y OR 0xf0 :: u8) \<noteq> 0" "drop_bit 5 (ucast y OR 0xf0 :: u8) \<noteq> 6"
    "drop_bit 4 (ucast y OR 0xf0 :: u8) \<noteq> 0xe" "drop_bit 3 (ucast y OR 0xf0 :: u8) = 0x1e"
    "ucast ((ucast y OR 0xf0 :: u8) AND 0x7) = y"
proof -
  have b: "\<forall>i\<ge>3. \<not> bit y i" using assms by (subst (asm) word_less_power_iff) auto
  then show "drop_bit 7 (ucast y OR 0xf0 :: u8) \<noteq> 0" "drop_bit 5 (ucast y OR 0xf0 :: u8) \<noteq> 6"
    "drop_bit 4 (ucast y OR 0xf0 :: u8) \<noteq> 0xe" "drop_bit 3 (ucast y OR 0xf0 :: u8) = 0x1e"
    by (simp_all add: u8_bits)
  from b show "ucast ((ucast y OR 0xf0 :: u8) AND 0x7) = y"
    by (intro bit_word_eqI) (auto simp: bit_cases)
qed

section \<open>Decoding\<close>

lemma utf8_scalar_cases:
  assumes "utf8_scalar x"
  obtains (one) "x < 0x80" | (two) "\<not> x < 0x80" "x < 0x800"
    | (three) "\<not> x < 0x80" "\<not> x < 0x800" "x < 0x10000"
    | (four) "\<not> x < 0x80" "\<not> x < 0x800" "\<not> x < 0x10000" "x < 0x200000"
  using assms unfolding utf8_scalar_def by blast

lemma utf8_get_suffix_numeral [simp]:
  "utf8_get_suffix (numeral k) (b # p) u =
     (if drop_bit 6 b = 2 then utf8_get_suffix (pred_numeral k) p (push_bit 6 u OR (ucast b AND 0x3f)) else None)"
  by (simp add: numeral_eq_Suc)

lemmas utf8_roundtrip_simps = utf8_decode_def utf8_bytes_def utf8_suffix_test utf8_suffix_bits utf8_join_0

lemma utf8_decode_bytes:
  assumes "utf8_scalar x"
  shows "utf8_decode (utf8_bytes x @ rest) = Some (x, length (utf8_bytes x))"
  using assms
proof (cases rule: utf8_scalar_cases)
  case one
  then show ?thesis
    using utf8_lead1 [of x] by (simp add: utf8_decode_def utf8_bytes_def)
next
  case two
  then have "drop_bit 6 x < 2 ^ 5" by (intro drop_bit_less_power) simp_all
  from utf8_lead2 [OF this] two show ?thesis
    by (simp add: utf8_roundtrip_simps del: drop_bit_or)
next
  case three
  then have "drop_bit 12 x < 2 ^ 4" by (intro drop_bit_less_power) simp_all
  from utf8_lead3 [OF this] three show ?thesis
    using utf8_join [of 6 x] 
    by (simp add: utf8_roundtrip_simps del: drop_bit_or)
next
  case four
  then have "drop_bit 18 x < 2 ^ 3" by (intro drop_bit_less_power) simp_all
  from utf8_lead4 [OF this] four show ?thesis
    using utf8_join [of 6 x] utf8_join [of 12 x]
    by (simp add: utf8_roundtrip_simps del: drop_bit_or)
qed

section \<open>Encoding\<close>

lemma utf8_byte_forms:
  "ucast (y AND 0xff) = (ucast (y :: u32) :: u8)"
  "ucast (y AND 0xff OR 0xc0) = (ucast y OR 0xc0 :: u8)"
  "ucast (y AND 0xff OR 0xe0) = (ucast y OR 0xe0 :: u8)"
  "ucast (y AND 0xff OR 0xf0) = (ucast y OR 0xf0 :: u8)"
  "ucast (y AND 0x3f OR 0x80) = (ucast (take_bit 6 y) OR 0x80 :: u8)"
  by (simp_all add: u8_bits)

lemma utf8_put_suffix_numeral [simp]:
  "utf8_put_suffix (numeral k) x buf p = do {
     buf \<leftarrow> wr buf (Suc p) (ucast ((drop_bit (pred_numeral k * 6) x AND 0x3f) OR 0x80));
     utf8_put_suffix (pred_numeral k) x buf (Suc p)
   }"
  by (simp add: numeral_eq_Suc)

lemma utf8_encode_spec:
  assumes "utf8_scalar x" "x \<noteq> 0"
  shows "utf8_encode (b # p) x =
     (let s = utf8_bytes x; k = length s in
      if k \<le> Suc (length p) then Some (k, s @ drop k (b # p)) else Some (0, hd s # p))"
proof -
  obtain z where z: "clz x = Some z" using assms by (simp add: clz_def)
  note lt = clz_32 [OF z, of 7] clz_32 [OF z, of 11] clz_32 [OF z, of 16] clz_32 [OF z, of 21]
  show ?thesis
    using assms(1)
  proof (cases rule: utf8_scalar_cases)
    case one
    with lt z show ?thesis by (simp add: utf8_encode_def utf8_bytes_def utf8_byte_forms)
  next
    case two
    with lt z show ?thesis
      by (cases p) (simp_all add: utf8_encode_def utf8_bytes_def utf8_byte_forms)
  next
    case three
    with lt z show ?thesis
      by (cases p; cases "tl p") (simp_all add: utf8_encode_def utf8_bytes_def utf8_byte_forms)
  next
    case four
    with lt z show ?thesis
      by (cases p; cases "tl p"; cases "tl (tl p)")
        (simp_all add: utf8_encode_def utf8_bytes_def utf8_byte_forms)
  qed
qed

section \<open>What the decoder accepts\<close>

lemma utf8_get_suffix_Suc:
  "utf8_get_suffix (Suc c) p u = Some v \<longleftrightarrow>
     (\<exists>s q. p = s # q \<and> drop_bit 6 s = 2 \<and> utf8_get_suffix c q (push_bit 6 u OR (ucast s AND 0x3f)) = Some v)"
  by (cases p) auto

lemma and_0x3f: "(y :: u32) AND 0x3f = take_bit 6 y"
  by (simp add: take_bit_eq_mask mask_eq_exp_minus_1)

lemma and_low_u8:
  "(b :: u8) AND 0x1f = take_bit 5 b" "b AND 0xf = take_bit 4 b" "b AND 0x7 = take_bit 3 b"
  by (simp_all add: take_bit_eq_mask mask_eq_exp_minus_1)

lemma utf8_snoc:
  fixes u :: u32 and s :: u8
  defines "v \<equiv> push_bit 6 u OR (ucast s AND 0x3f)"
  assumes "u < 2 ^ k" "k + 6 < 32"
  shows "v < 2 ^ (k + 6)" "drop_bit 6 v = u"
    "drop_bit 6 s = 2 \<Longrightarrow> ucast (take_bit 6 v) OR (0x80 :: u8) = s"
proof -
  have b: "\<forall>i\<ge>k. \<not> bit u i" using assms by (simp add: word_less_power_iff)
  then show "v < 2 ^ (k + 6)"
    using assms(3) by (auto simp: v_def and_0x3f word_less_power_iff bit_simps)
  show "drop_bit 6 v = u"
  proof (rule bit_word_eqI)
    fix n
    show "bit (drop_bit 6 v) n = bit u n"
      using b assms(3) by (cases "n < k") (auto simp: v_def and_0x3f bit_simps)
  qed
  show "drop_bit 6 s = 2 \<Longrightarrow> ucast (take_bit 6 v) OR (0x80 :: u8) = s"
    by (simp add: v_def u8_bits)
qed

lemma utf8_lead_inv:
  "drop_bit 5 (b :: u8) = 6 \<Longrightarrow> ucast (ucast (b AND 0x1f) :: u32) OR (0xc0 :: u8) = b"
  "drop_bit 4 b = 0xe \<Longrightarrow> ucast (ucast (b AND 0xf) :: u32) OR (0xe0 :: u8) = b"
  "drop_bit 3 b = 0x1e \<Longrightarrow> ucast (ucast (b AND 0x7) :: u32) OR (0xf0 :: u8) = b"
  by (simp_all add: u8_bits)

lemma utf8_lead_bound:
  "drop_bit 7 (b :: u8) = 0 \<Longrightarrow> (ucast b :: u32) < 2 ^ 7"
  "(ucast (b AND 0x1f) :: u32) < 2 ^ 5"
  "(ucast (b AND 0xf) :: u32) < 2 ^ 4"
  "(ucast (b AND 0x7) :: u32) < 2 ^ 3"
proof -
  assume "drop_bit 7 b = 0"
  then have "\<forall>i\<ge>7. \<not> bit b i"
    by (rule drop_bit_eq_0_bits)
  then show "(ucast b :: u32) < 2 ^ 7"
    by (subst word_less_power_iff) (auto simp: bit_simps)
qed (subst word_less_power_iff; simp add: and_low_u8 bit_simps)+


lemma utf8_decode_cases:
  assumes "utf8_decode p = Some (u, k)"
  obtains (l1) b q where "p = b # q" "drop_bit 7 b = 0" "u = ucast b" "k = 1"
  | (l2) b s q where "p = b # s # q" "drop_bit 5 b = 6" "drop_bit 6 s = 2" "k = 2"
      "u = push_bit 6 (ucast (b AND 0x1f)) OR (ucast s AND 0x3f)"
  | (l3) b s t q where "p = b # s # t # q" "drop_bit 4 b = 0xe" "drop_bit 6 s = 2" "drop_bit 6 t = 2"
      "k = 3" "u = push_bit 6 (push_bit 6 (ucast (b AND 0xf)) OR (ucast s AND 0x3f)) OR (ucast t AND 0x3f)"
  | (l4) b s t w q where "p = b # s # t # w # q" "drop_bit 3 b = 0x1e" "drop_bit 6 s = 2"
      "drop_bit 6 t = 2" "drop_bit 6 w = 2" "k = 4"
      "u = push_bit 6 (push_bit 6 (push_bit 6 (ucast (b AND 0x7)) OR (ucast s AND 0x3f))
             OR (ucast t AND 0x3f)) OR (ucast w AND 0x3f)"
proof -
  from assms obtain b q where p: "p = b # q" by (cases p) (auto simp: utf8_decode_def)
  have n: "(2::nat) = Suc (Suc 0)" "(3::nat) = Suc (Suc (Suc 0))" by simp_all
  note suffixes = utf8_get_suffix_Suc
  consider "drop_bit 7 b = 0" | "drop_bit 5 b = 6" "drop_bit 7 b \<noteq> 0"
    | "drop_bit 4 b = 0xe" "drop_bit 7 b \<noteq> 0" "drop_bit 5 b \<noteq> 6"
    | "drop_bit 3 b = 0x1e" "drop_bit 7 b \<noteq> 0" "drop_bit 5 b \<noteq> 6" "drop_bit 4 b \<noteq> 0xe"
    using assms p by (auto simp: utf8_decode_def split: if_splits)
  then show thesis
  proof cases
    case 1
    with assms p have "u = ucast b" "k = 1" by (auto simp: utf8_decode_def)
    with p 1 show thesis by (rule l1)
  next
    case 2
    with assms p obtain v where "utf8_get_suffix (Suc 0) q (ucast (b AND 0x1f)) = Some v" "u = v" "k = 2"
      by (auto simp: utf8_decode_def Option.bind_eq_Some_conv split: if_splits)
    then show thesis
      using l2 [of b] p 2(1) by (simp only: suffixes utf8_get_suffix.simps option.inject) blast
  next
    case 3
    with assms p obtain v where "utf8_get_suffix (Suc (Suc 0)) q (ucast (b AND 0xf)) = Some v" "u = v" "k = 3"
      by (auto simp: utf8_decode_def Option.bind_eq_Some_conv n(1) split: if_splits)
    then show thesis
      using l3 [of b] p 3(1) by (simp only: suffixes utf8_get_suffix.simps option.inject) blast
  next
    case 4
    with assms p obtain v where "utf8_get_suffix (Suc (Suc (Suc 0))) q (ucast (b AND 0x7)) = Some v" "u = v" "k = 4"
      by (auto simp: utf8_decode_def Option.bind_eq_Some_conv n(2) split: if_splits)
    then show thesis
      using l4 [of b] p 4(1) by (simp only: suffixes utf8_get_suffix.simps option.inject) blast
  qed
qed

lemma utf8_decode_sound:
  assumes "utf8_decode p = Some (u, k)"
  shows "0 < k \<and> k \<le> length p \<and> utf8_scalar u \<and> length (utf8_bytes u) \<le> k
     \<and> (length (utf8_bytes u) = k \<longrightarrow> take k p = utf8_bytes u)"
  using assms
proof (cases rule: utf8_decode_cases)
  case (l1 b q)
  have "u < 0x80" using utf8_lead_bound(1) [of b] l1 by simp
  then have "u < 0x200000" by (rule less_trans) simp
  moreover have "ucast (ucast b :: u32) = b" by (simp add: u8_bits)
  ultimately show ?thesis using l1 \<open>u < 0x80\<close>
    by (simp add: utf8_bytes_def utf8_scalar_def)
next
  case (l2 b s q)
  note s1 = utf8_snoc [of "ucast (b AND 0x1f)" 5 s]
  from s1 l2 utf8_lead_bound(2) [of b] have u: "u < 0x800" "drop_bit 6 u = ucast (b AND 0x1f)" "ucast (take_bit 6 u) OR (0x80 :: u8) = s" by simp_all
  then have "u < 0x200000" by (intro less_trans [OF u(1)]) simp
  with u l2(1-4) utf8_lead_inv(1) [of b] show ?thesis
    by (simp add: utf8_bytes_def utf8_scalar_def)
next
  case (l3 b s t q)
  define v where "v = push_bit 6 (ucast (b AND 0xf)) OR (ucast s AND 0x3f :: u32)"
  note s1 = utf8_snoc [of "ucast (b AND 0xf)" 4 s, folded v_def]
  note s2 = utf8_snoc [of v 10 t]
  from s1 s2 l3 utf8_lead_bound(3) [of b] have u: "u < 0x10000" "drop_bit 6 u = v" "ucast (take_bit 6 u) OR (0x80 :: u8) = t"
    "drop_bit 6 v = ucast (b AND 0xf)" "ucast (take_bit 6 v) OR (0x80 :: u8) = s"
    by (simp_all add: v_def)
  have "drop_bit 12 u = drop_bit 6 (drop_bit 6 u)" by (simp add: drop_bit_drop_bit)
  then have "drop_bit 12 u = ucast (b AND 0xf)" using u by simp
  moreover have "u < 0x200000" by (intro less_trans [OF u(1)]) simp
  ultimately show ?thesis using u l3(1-5) utf8_lead_inv(2) [of b]
    by (simp add: utf8_bytes_def utf8_scalar_def)
next
  case (l4 b s t w q)
  define v where "v = push_bit 6 (ucast (b AND 0x7)) OR (ucast s AND 0x3f :: u32)"
  define v' where "v' = push_bit 6 v OR (ucast t AND 0x3f :: u32)"
  note s1 = utf8_snoc [of "ucast (b AND 0x7)" 3 s, folded v_def]
  note s2 = utf8_snoc [of v 9 t, folded v'_def]
  note s3 = utf8_snoc [of v' 15 w]
  from s1 s2 s3 l4 utf8_lead_bound(4) [of b] have u: "u < 0x200000" "drop_bit 6 u = v'" "ucast (take_bit 6 u) OR (0x80 :: u8) = w"
    "drop_bit 6 v' = v" "ucast (take_bit 6 v') OR (0x80 :: u8) = t"
    "drop_bit 6 v = ucast (b AND 0x7)" "ucast (take_bit 6 v) OR (0x80 :: u8) = s"
    by (simp_all add: v_def v'_def)
  have "drop_bit 12 u = drop_bit 6 (drop_bit 6 u)" "drop_bit 18 u = drop_bit 6 (drop_bit 6 (drop_bit 6 u))"
    by (simp_all add: drop_bit_drop_bit)
  then have "drop_bit 12 u = v" "drop_bit 18 u = ucast (b AND 0x7)" using u by simp_all
  then show ?thesis using u l4(1-6) utf8_lead_inv(3) [of b] 
    by (simp add: utf8_bytes_def utf8_scalar_def)
qed

section \<open>The stream\<close>

lemma utf8_decode_size: "utf8_decode p = Some (u, k) \<Longrightarrow> 0 < k \<and> k \<le> length p"
  using utf8_decode_sound by blast

lemma utf8_decode_not_eof: "utf8_decode p = Some (u, k) \<Longrightarrow> u \<noteq> - 1"
  using utf8_decode_sound [of p u k] by (auto simp: utf8_scalar_def)

lemma utf8_stream_next_progress:
  "utf8_stream_next buf self = (u, sz, self') \<Longrightarrow> u \<noteq> - 1 \<Longrightarrow>
     st_p self < st_p self' \<and> st_p self' \<le> st_e self' \<and> st_e self' = st_e self"
  using utf8_decode_size [of "stream_rest buf self"]
  by (fastforce simp: utf8_stream_next_def stream_rest_def split: if_splits option.splits)

text \<open>
  The loop \<^verbatim>\<open>while ((u = utf8_stream_next(&stream, ...)) != -1)\<close> of \<^verbatim>\<open>utf8_encode_test\<close>: the code points it
  visits, with their sizes.
\<close>

function utf8_stream_collect :: "u8 list \<Rightarrow> st_utf8_stream \<Rightarrow> u32 list" where
  "utf8_stream_collect buf self =
     (case utf8_stream_next buf self of
        (u, sz, self') \<Rightarrow> if u = - 1 then [] else u # utf8_stream_collect buf self')"
  by pat_completeness auto
termination
  by (relation "measure (\<lambda>(buf, self). st_e self - st_p self)")
    (auto dest!: utf8_stream_next_progress [OF sym])

declare utf8_stream_collect.simps [simp del]

lemma utf8_stream_collect_None:
  "utf8_decode (stream_rest buf self) = None \<Longrightarrow> utf8_stream_collect buf self = []"
  by (subst utf8_stream_collect.simps) (simp add: utf8_stream_next_def)

lemma utf8_stream_collect_Some:
  assumes "utf8_decode (stream_rest buf self) = Some (u, k)"
  shows "utf8_stream_collect buf self = u # utf8_stream_collect buf (self\<lparr>st_p := st_p self + k\<rparr>)"
proof -
  have "st_p self < st_e self"
    using utf8_decode_size [OF assms] by (auto simp: stream_rest_def)
  with assms utf8_decode_not_eof [OF assms] show ?thesis
    by (subst utf8_stream_collect.simps) (simp add: utf8_stream_next_def)
qed

lemma stream_rest_advance: "stream_rest buf (self\<lparr>st_p := st_p self + k\<rparr>) = drop k (stream_rest buf self)"
  by (simp add: stream_rest_def drop_take add.commute)

text \<open>Only the bytes between the cursor and the end matter.\<close>

lemma utf8_stream_collect_cong:
  "stream_rest buf self = stream_rest buf' self' \<Longrightarrow>
     utf8_stream_collect buf self = utf8_stream_collect buf' self'"
proof (induction buf self arbitrary: buf' self' rule: utf8_stream_collect.induct)
  case (1 buf self)
  show ?case
  proof (cases "utf8_decode (stream_rest buf self)")
    case None
    with 1 show ?thesis by (simp add: utf8_stream_collect_None)
  next
    case (Some uk)
    then obtain u k where uk: "utf8_decode (stream_rest buf self) = Some (u, k)" by (cases uk) auto
    have "st_p self < st_e self" using utf8_decode_size [OF uk] by (auto simp: stream_rest_def)
    then have "utf8_stream_next buf self = (u, Some k, self\<lparr>st_p := st_p self + k\<rparr>)"
      using uk by (simp add: utf8_stream_next_def)
    from 1(1) [OF this [symmetric]] 1(2) utf8_decode_not_eof [OF uk]
    have "utf8_stream_collect buf (self\<lparr>st_p := st_p self + k\<rparr>)
        = utf8_stream_collect buf' (self'\<lparr>st_p := st_p self' + k\<rparr>)"
      by (simp add: stream_rest_advance)
    with uk 1(2) show ?thesis by (simp add: utf8_stream_collect_Some)
  qed
qed

definition utf8_code_points :: "u8 list \<Rightarrow> u32 list" where
  "utf8_code_points buf = utf8_stream_collect buf (utf8_stream_init 0 (length buf))"

lemma stream_rest_init [simp]: "stream_rest buf (utf8_stream_init 0 (length buf)) = buf"
  by (simp add: stream_rest_def utf8_stream_init_def)

interpretation utf8: codec_loop utf8_bytes utf8_decode utf8_scalar utf8_code_points
proof
  show "utf8_decode [] = None" by (simp add: utf8_decode_def)
  show "utf8_decode (utf8_bytes x @ rest) = Some (x, length (utf8_bytes x))" if "utf8_scalar x" for x rest
    using that by (rule utf8_decode_bytes)
  show "utf8_code_points bs = []" if "utf8_decode bs = None" for bs
    using that by (simp add: utf8_code_points_def utf8_stream_collect_None)
  show "utf8_code_points bs = x # utf8_code_points (drop n bs)" if "utf8_decode bs = Some (x, n)" for bs x n
  proof -
    have "utf8_code_points bs = x # utf8_stream_collect bs ((utf8_stream_init 0 (length bs))\<lparr>st_p := n\<rparr>)"
      using that utf8_stream_collect_Some [of bs "utf8_stream_init 0 (length bs)" x n]
      by (simp add: utf8_code_points_def utf8_stream_init_def stream_rest_def)
    moreover have "utf8_stream_collect bs ((utf8_stream_init 0 (length bs))\<lparr>st_p := n\<rparr>)
       = utf8_code_points (drop n bs)"
      unfolding utf8_code_points_def
      by (rule utf8_stream_collect_cong) (simp add: stream_rest_def utf8_stream_init_def)
    ultimately show ?thesis by simp
  qed
qed

text \<open>
  \<^verbatim>\<open>utf8_encode_test\<close> and its loop: every code point of the stream is encoded again into the four bytes \<open>t\<close>, the
  sizes are compared by an assertion (\<^term>\<open>None\<close> when it fails) and the bytes are logged.
\<close>

function utf8_encode_test_loop :: "u8 list \<Rightarrow> st_utf8_stream \<Rightarrow> u8 list \<Rightarrow> u8 list list option" where
  "utf8_encode_test_loop a stream t =
     (case utf8_stream_next a stream of
        (u, c1, stream') \<Rightarrow>
          if u = - 1 then Some []
          else (case utf8_encode t u of
                  None \<Rightarrow> None
                | Some (c2, t') \<Rightarrow>
                    if c1 = Some c2 then map_option ((#) (take c2 t')) (utf8_encode_test_loop a stream' t')
                    else None))"
  by pat_completeness auto
termination
  by (relation "measure (\<lambda>(a, stream, t). st_e stream - st_p stream)")
    (auto dest!: utf8_stream_next_progress [OF sym])

declare utf8_encode_test_loop.simps [simp del]

definition utf8_encode_test :: "u8 list \<Rightarrow> u8 list list option" where
  "utf8_encode_test t =
     (let a = [0xe5, 0xad, 0x99, 0xe6, 0x98, 0x8e, 0xe5, 0xbc, 0xba] in
      utf8_encode_test_loop a (utf8_stream_init 0 (length a)) t)"

lemma utf8_encode_test_pass:
  assumes "list_all (\<lambda>x. utf8_scalar x \<and> x \<noteq> 0) us" "length t = 4"
    and "stream_rest a stream = concat (map utf8_bytes us)"
  shows "utf8_encode_test_loop a stream t = Some (map utf8_bytes us)"
  using assms
proof (induction us arbitrary: stream t)
  case Nil
  then show ?case
    by (subst utf8_encode_test_loop.simps) (simp add: utf8_stream_next_def utf8.dec_Nil)
next
  case (Cons x us)
  let ?k = "length (utf8_bytes x)"
  have dec: "utf8_decode (stream_rest a stream) = Some (x, ?k)"
    using Cons.prems by (simp add: utf8.dec_enc)
  have "st_p stream < st_e stream"
    using utf8_decode_size [OF dec] by (cases "utf8_bytes x") (auto simp: stream_rest_def)
  then have nxt: "utf8_stream_next a stream = (x, Some ?k, stream\<lparr>st_p := st_p stream + ?k\<rparr>)"
    using dec by (simp add: utf8_stream_next_def)
  obtain b p where t: "t = b # p" using Cons.prems(2) by (cases t) auto
  have k: "?k \<le> 4" by (simp add: utf8_bytes_def Let_def)
  with t Cons.prems have enc: "utf8_encode t x = Some (?k, utf8_bytes x @ drop ?k t)"
    by (simp add: utf8_encode_spec Let_def)
  have "utf8_encode_test_loop a (stream\<lparr>st_p := st_p stream + ?k\<rparr>) (utf8_bytes x @ drop ?k t)
      = Some (map utf8_bytes us)"
    using Cons.prems k by (intro Cons.IH) (simp_all add: stream_rest_advance)
  with nxt enc utf8_decode_not_eof [OF dec] show ?case
    by (subst utf8_encode_test_loop.simps) simp
qed

section \<open>Properties\<close>

text \<open>C11. Encoding a code point other than 0 below 2^21 into a buffer with room for it writes its bytes
  at the start of the buffer, leaves the rest alone, and decoding the buffer gives the code point
  back with the size the encoder returned.\<close>

theorem utf8_encode_decode:
  assumes "utf8_scalar x" "x \<noteq> 0" "length (utf8_bytes x) \<le> length p"
  shows "\<exists>k p'. utf8_encode p x = Some (k, p') \<and> k = length (utf8_bytes x) \<and> length p' = length p
           \<and> drop k p' = drop k p \<and> utf8_decode p' = Some (x, k)"
proof -
  obtain b q where p: "p = b # q"
    using assms utf8.enc_nonempty [OF assms(1)] by (cases p) auto
  with assms show ?thesis
    by (simp add: utf8_encode_spec utf8.dec_enc Let_def)
qed

theorem utf8_encode_decode_witness:
  "\<exists>k p'. utf8_encode [0, 0, 0, 7] 0x987e = Some (k, p') \<and> k = 3 \<and> length p' = 4
     \<and> drop k p' = [7] \<and> utf8_decode p' = Some (0x987e, k)"
proof -
  have "utf8_scalar 0x987e" "(0x987e :: u32) \<noteq> 0" "length (utf8_bytes 0x987e) = 3"
    by (simp_all add: utf8_scalar_def utf8_bytes_def Let_def)
  with utf8_encode_decode [of "0x987e" "[0, 0, 0, 7]"] show ?thesis by auto
qed

text \<open>C28. Whatever the decoder accepts is a code point below 2^21 of which it has read at least one byte
  and no byte past the end; the bytes it accepted are never shorter than the code point's own
  encoding, and when they are as long they are exactly that encoding (so the only other accepted
  forms are the longer, overlong ones).\<close>

theorem utf8_decode_accepts:
  assumes "utf8_decode p = Some (u, k)"
  shows "0 < k \<and> k \<le> length p \<and> utf8_scalar u \<and> length (utf8_bytes u) \<le> k
     \<and> (length (utf8_bytes u) = k \<longleftrightarrow> take k p = utf8_bytes u)"
  using utf8_decode_sound [OF assms] by (metis length_take min.absorb2)

theorem utf8_decode_accepts_witness:
  "utf8_decode [0xc0, 0x80] = Some (0, 2) \<and> length (utf8_bytes 0) < 2
     \<and> take 2 [0xc0, 0x80] \<noteq> utf8_bytes 0"
proof -
  have "utf8_decode [0xc0, 0x80] = Some (0, 2)" by code_simp
  moreover have "length (utf8_bytes 0) = 1" by (simp add: utf8_bytes_def)
  ultimately show ?thesis
    using utf8_decode_accepts [of "[0xc0, 0x80]" 0 2] by auto
qed

text \<open>C29. Reading a stream that holds the encodings of a list of code points yields exactly that list.\<close>

theorem utf8_stream_roundtrip:
  assumes "list_all utf8_scalar us"
  shows "utf8_code_points (concat (map utf8_bytes us)) = us"
  using assms by (rule utf8.loop_concat)

theorem utf8_stream_roundtrip_witness:
  "utf8_code_points (concat (map utf8_bytes [0x5b59, 0x41, 0x1f600])) = [0x5b59, 0x41, 0x1f600]"
  by (rule utf8_stream_roundtrip) (simp add: utf8_scalar_def)

text \<open>The self-test passes on every string of canonical encodings: encoding each decoded code point
  into a four-byte buffer reports the size the decoder reported, and logs the same bytes.\<close>

theorem utf8_encode_test_passes:
  assumes "list_all (\<lambda>x. utf8_scalar x \<and> x \<noteq> 0) us" "length t = 4"
  shows "utf8_encode_test_loop (concat (map utf8_bytes us))
           (utf8_stream_init 0 (length (concat (map utf8_bytes us)))) t = Some (map utf8_bytes us)"
  using assms by (intro utf8_encode_test_pass) simp_all

theorem utf8_encode_test_passes_witness:
  "utf8_encode_test [0, 0, 0, 0] = Some [[0xe5, 0xad, 0x99], [0xe6, 0x98, 0x8e], [0xe5, 0xbc, 0xba]]"
proof -
  have "list_all (\<lambda>x. utf8_scalar x \<and> x \<noteq> 0) [0x5b59, 0x660e, 0x5f3a]"
    by (simp add: utf8_scalar_def)
  moreover have "map utf8_bytes [0x5b59, 0x660e, 0x5f3a]
      = [[0xe5, 0xad, 0x99], [0xe6, 0x98, 0x8e], [0xe5, 0xbc, 0xba]]"
    by code_simp
  ultimately show ?thesis
    using utf8_encode_test_passes [of "[0x5b59, 0x660e, 0x5f3a]" "[0, 0, 0, 0]"]
    by (simp add: utf8_encode_test_def Let_def)
qed

text \<open>A value of 2^21 or more is not rejected: the encoder returns 1, as it does for an ASCII
  character, and writes nothing.\<close>

theorem utf8_encode_out_of_range:
  assumes "\<not> utf8_scalar x"
  shows "utf8_encode (b # p) x = Some (1, b # p)"
proof -
  from assms have "x \<noteq> 0" by (auto simp: utf8_scalar_def)
  then obtain z where z: "clz x = Some z" by (simp add: clz_def)
  have "\<not> x < 2 ^ 7 \<and> \<not> x < 2 ^ 11 \<and> \<not> x < 2 ^ 16 \<and> \<not> x < 2 ^ 21"
  proof -
    have "0x200000 \<le> x" using assms by (simp add: utf8_scalar_def)
    moreover have "(2::u32) ^ 7 \<le> 0x200000" "(2::u32) ^ 11 \<le> 0x200000"
      "(2::u32) ^ 16 \<le> 0x200000" "(2::u32) ^ 21 \<le> 0x200000" by simp_all
    ultimately show ?thesis by (meson leD order_trans)
  qed
  then have "\<not> 32 - z < 8 \<and> \<not> 32 - z < 12 \<and> \<not> 32 - z < 17 \<and> \<not> 32 - z < 22"
    using clz_32 [OF z, of 7] clz_32 [OF z, of 11] clz_32 [OF z, of 16] clz_32 [OF z, of 21] by simp
  with z show ?thesis by (simp add: utf8_encode_def)
qed

theorem utf8_encode_out_of_range_witness: "utf8_encode [0x2a] 0x200000 = Some (1, [0x2a])"
  by (rule utf8_encode_out_of_range) (simp add: utf8_scalar_def)

end
