(* ===== verification/NameCodec.thy ===== *)
theory NameCodec
  imports Utf8 Libc
begin

text \<open>
  The family-name tool of \<^verbatim>\<open>trivial/name_codec.c\<close>: the two tables between family names and the 73
  characters of an info hash, the constructor \<^verbatim>\<open>initialize\<close> that computes them when the file is built
  without \<^verbatim>\<open>USE_STATICMAPPING\<close>, the debug dumps, and \<^verbatim>\<open>main\<close>, which turns a list of names into a
  magnet link.
\<close>

unbundle bit_operations_syntax

section \<open>Data\<close>

record st_family_name =
  fx :: u32
  fa :: "u8 list"

record st_pair =
  px :: u32
  pc :: u8

text \<open>The designated initialisers: \<^verbatim>\<open>a\<close> has \<^verbatim>\<open>sizeof(long)\<close> bytes, those not given are 0.\<close>

definition no_name :: st_family_name where
  "no_name = \<lparr>fx = 0xffffffff, fa = replicate 8 0\<rparr>"

definition named :: "u32 \<Rightarrow> u8 list \<Rightarrow> st_family_name" where
  "named x bs = \<lparr>fx = x, fa = bs @ replicate (8 - length bs) 0\<rparr>"

definition table :: "st_family_name list" where
  "table =
    [
     no_name, no_name, no_name, no_name, no_name, no_name, no_name, no_name, no_name, no_name, no_name,
     no_name, no_name, no_name, no_name, no_name, no_name, no_name, no_name, no_name, no_name, no_name,
     no_name, no_name, no_name, no_name, no_name, no_name, no_name, no_name, no_name, no_name, no_name,
     no_name, no_name, named 0x987e [0xe9, 0xa1, 0xbe], no_name, named 0x5c39 [0xe5, 0xb0, 0xb9],
     named 0x6c5f [0xe6, 0xb1, 0x9f], no_name, no_name, no_name, named 0x949f [0xe9, 0x92, 0x9f],
     named 0x7c73 [0xe7, 0xb1, 0xb3], no_name, named 0x4f0d [0xe4, 0xbc, 0x8d],
     named 0x859b [0xe8, 0x96, 0x9b], named 0x59da [0xe5, 0xa7, 0x9a], named 0x8d75 [0xe8, 0xb5, 0xb5],
     named 0x94b1 [0xe9, 0x92, 0xb1], named 0x5b59 [0xe5, 0xad, 0x99], named 0x674e [0xe6, 0x9d, 0x8e],
     named 0x5468 [0xe5, 0x91, 0xa8], named 0x5434 [0xe5, 0x90, 0xb4], named 0x90d1 [0xe9, 0x83, 0x91],
     named 0x738b [0xe7, 0x8e, 0x8b], named 0x51af [0xe5, 0x86, 0xaf], named 0x9648 [0xe9, 0x99, 0x88],
     no_name, no_name, no_name, named 0x8d1d [0xe8, 0xb4, 0x9d], no_name,
     named 0x5b5f [0xe5, 0xad, 0x9f], no_name, named 0x798f [0xe7, 0xa6, 0x8f],
     named 0x6c34 [0xe6, 0xb0, 0xb4], named 0x7aa6 [0xe7, 0xaa, 0xa6], named 0x7ae0 [0xe7, 0xab, 0xa0],
     named 0x4e91 [0xe4, 0xba, 0x91], named 0x82cf [0xe8, 0x8b, 0x8f], named 0x6f58 [0xe6, 0xbd, 0x98],
     named 0x845b [0xe8, 0x91, 0x9b], named 0x595a [0xe5, 0xa5, 0x9a], named 0x8303 [0xe8, 0x8c, 0x83],
     named 0x5f6d [0xe5, 0xbd, 0xad], named 0x90ce [0xe9, 0x83, 0x8e], named 0x9c81 [0xe9, 0xb2, 0x81],
     named 0x97e6 [0xe9, 0x9f, 0xa6], named 0x660c [0xe6, 0x98, 0x8c], named 0x9a6c [0xe9, 0xa9, 0xac],
     named 0x82d7 [0xe8, 0x8b, 0x97], named 0x51e4 [0xe5, 0x87, 0xa4], named 0x82b1 [0xe8, 0x8a, 0xb1],
     named 0x65b9 [0xe6, 0x96, 0xb9], named 0x4fde [0xe4, 0xbf, 0x9e], named 0x4efb [0xe4, 0xbb, 0xbb],
     named 0x8881 [0xe8, 0xa2, 0x81], named 0x67f3 [0xe6, 0x9f, 0xb3], named 0x5510 [0xe5, 0x94, 0x90],
     named 0x7f57 [0xe7, 0xbd, 0x97], no_name, no_name, no_name, no_name,
     named 0x4f59 [0xe4, 0xbd, 0x99], no_name, named 0x891a [0xe8, 0xa4, 0x9a],
     named 0x536b [0xe5, 0x8d, 0xab], named 0x848b [0xe8, 0x92, 0x8b], named 0x6c88 [0xe6, 0xb2, 0x88],
     named 0x97e9 [0xe9, 0x9f, 0xa9], named 0x6768 [0xe6, 0x9d, 0xa8], named 0x6731 [0xe6, 0x9c, 0xb1],
     named 0x79e6 [0xe7, 0xa7, 0xa6], named 0x5c24 [0xe5, 0xb0, 0xa4], named 0x8bb8 [0xe8, 0xae, 0xb8],
     named 0x4f55 [0xe4, 0xbd, 0x95], named 0x5415 [0xe5, 0x90, 0x95], named 0x65bd [0xe6, 0x96, 0xbd],
     named 0x5f20 [0xe5, 0xbc, 0xa0], named 0x5b54 [0xe5, 0xad, 0x94], named 0x66f9 [0xe6, 0x9b, 0xb9],
     named 0x4e25 [0xe4, 0xb8, 0xa5], named 0x534e [0xe5, 0x8d, 0x8e], named 0x91d1 [0xe9, 0x87, 0x91],
     named 0x9b4f [0xe9, 0xad, 0x8f], named 0x9676 [0xe9, 0x99, 0xb6], named 0x59dc [0xe5, 0xa7, 0x9c],
     named 0x621a [0xe6, 0x88, 0x9a], named 0x8c22 [0xe8, 0xb0, 0xa2], named 0x90b9 [0xe9, 0x82, 0xb9],
     named 0x55bb [0xe5, 0x96, 0xbb], no_name, no_name, no_name, no_name, no_name]"

definition pairs :: "st_pair list" where
  "pairs = map (\<lambda>(x, c). \<lparr>px = x, pc = char_code c\<rparr>)
    [
     (0x4e25, CHR ''q''), (0x4e91, CHR ''E''), (0x4efb, CHR ''V''), (0x4f0d, CHR ''-''),
     (0x4f55, CHR ''k''), (0x4f59, CHR ''_''), (0x4fde, CHR ''U''), (0x51af, CHR ''8''),
     (0x51e4, CHR ''R''), (0x534e, CHR ''r''), (0x536b, CHR ''b''), (0x5415, CHR ''l''),
     (0x5434, CHR ''5''), (0x5468, CHR ''4''), (0x5510, CHR ''Y''), (0x55bb, CHR ''z''),
     (0x595a, CHR ''I''), (0x59da, CHR ''/''), (0x59dc, CHR ''v''), (0x5b54, CHR ''o''),
     (0x5b59, CHR ''2''), (0x5b5f, CHR ''?''), (0x5c24, CHR ''i''), (0x5c39, CHR ''%''),
     (0x5f20, CHR ''n''), (0x5f6d, CHR ''K''), (0x621a, CHR ''w''), (0x65b9, CHR ''T''),
     (0x65bd, CHR ''m''), (0x660c, CHR ''O''), (0x66f9, CHR ''p''), (0x6731, CHR ''g''),
     (0x674e, CHR ''3''), (0x6768, CHR ''f''), (0x67f3, CHR ''X''), (0x6c34, CHR ''B''),
     (0x6c5f, CHR ''&''), (0x6c88, CHR ''d''), (0x6f58, CHR ''G''), (0x738b, CHR ''7''),
     (0x798f, CHR ''A''), (0x79e6, CHR ''h''), (0x7aa6, CHR ''C''), (0x7ae0, CHR ''D''),
     (0x7c73, CHR ''+''), (0x7f57, CHR ''Z''), (0x82b1, CHR ''S''), (0x82cf, CHR ''F''),
     (0x82d7, CHR ''Q''), (0x8303, CHR ''J''), (0x845b, CHR ''H''), (0x848b, CHR ''c''),
     (0x859b, CHR ''.''), (0x8881, CHR ''W''), (0x891a, CHR ''a''), (0x8bb8, CHR ''j''),
     (0x8c22, CHR ''x''), (0x8d1d, CHR ''=''), (0x8d75, CHR ''0''), (0x90b9, CHR ''y''),
     (0x90ce, CHR ''L''), (0x90d1, CHR ''6''), (0x91d1, CHR ''s''), (0x949f, CHR ''*''),
     (0x94b1, CHR ''1''), (0x9648, CHR ''9''), (0x9676, CHR ''u''), (0x97e6, CHR ''N''),
     (0x97e9, CHR ''e''), (0x987e, CHR ''#''), (0x9a6c, CHR ''P''), (0x9b4f, CHR ''t''),
     (0x9c81, CHR ''M'')]"

text \<open>\<^verbatim>\<open>pair_cmp\<close> subtracts the keys as signed ints.\<close>

definition pair_cmp :: "st_pair \<Rightarrow> st_pair \<Rightarrow> int option" where
  "pair_cmp a b =
     (let d = sint (px a) - sint (px b) in
      if - (2 ^ 31) \<le> d \<and> d < 2 ^ 31 then Some d else None)"

section \<open>The dumps\<close>

text \<open>\<^verbatim>\<open>family_name_dump\<close>: the loop over the bytes of the name up to a NUL, then the closing braces.\<close>

fun family_name_dump_loop :: "u8 list \<Rightarrow> nat \<Rightarrow> u8 list \<Rightarrow> (nat \<times> u8 list) option" where
  "family_name_dump_loop a q [] = None"
| "family_name_dump_loop a q (t # ts) =
     (if t = 0 then Some (q, a)
      else do {
        (n, a) \<leftarrow> sprintf a q (fmt_alt_x (unat t) @ bytes_of_string '','');
        family_name_dump_loop a (q + n) ts
      })"

definition family_name_dump :: "u8 list \<Rightarrow> st_family_name \<Rightarrow> u8 list option" where
  "family_name_dump a self = do {
     (q, a) \<leftarrow> sprintf a 0 (bytes_of_string ''{.x='' @ fmt_alt_x (unat (fx self)) @ bytes_of_string '',.a={'');
     (q, a) \<leftarrow> family_name_dump_loop a q (fa self);
     (n, a) \<leftarrow> sprintf a q (bytes_of_string ''}}'');
     Some a
   }"

definition pair_dump :: "u8 list \<Rightarrow> st_pair \<Rightarrow> u8 list option" where
  "pair_dump a self = do {
     (n, a) \<leftarrow> sprintf a 0 (bytes_of_string ''{.x='' @ fmt_alt_x (unat (px self))
                @ bytes_of_string '',.c='' @ [39, pc self, 39] @ bytes_of_string ''}'');
     Some a
   }"

text \<open>
  \<^verbatim>\<open>dump_list\<close>: \<open>a\<close> is the static text buffer of the dump function, \<open>buf\<close> the local buffer with
  the cursor \<open>p\<close>. The index \<open>i\<close> counts the items for the line breaks.
\<close>

fun dump_list_loop ::
  "(u8 list \<Rightarrow> 'a \<Rightarrow> u8 list option) \<Rightarrow> nat \<Rightarrow> nat \<Rightarrow> 'a list \<Rightarrow> u8 list \<Rightarrow> u8 list \<Rightarrow> nat
     \<Rightarrow> (u8 list \<times> u8 list \<times> nat) option" where
  "dump_list_loop dump_fn itemsperline i [] a buf p = Some (a, buf, p)"
| "dump_list_loop dump_fn itemsperline i (x # xs) a buf p = do {
     a \<leftarrow> dump_fn a x;
     txt \<leftarrow> cstring a;
     (n, buf) \<leftarrow> snprintf buf p (length buf - p) (txt @ bytes_of_string '','');
     if length buf \<le> p + n then Some (a, buf, p)
     else do {
       let p = p + n;
       (buf, p) \<leftarrow> (if (i + 1) mod itemsperline = 0 then map_option (\<lambda>b. (b, p + 1)) (wr buf p (10 :: u8))
                    else Some (buf, p));
       if p = length buf then map_option (\<lambda>b. (a, b, p)) (wr buf (p - 1) 0)
       else dump_list_loop dump_fn itemsperline (i + 1) xs a buf p
     }
   }"

definition dump_list ::
  "(u8 list \<Rightarrow> 'a \<Rightarrow> u8 list option) \<Rightarrow> nat \<Rightarrow> 'a list \<Rightarrow> u8 list \<Rightarrow> u8 list \<Rightarrow> (u8 list \<times> log_line) option" where
  "dump_list dump_fn itemsperline xs a buf = do {
     (a, buf, p) \<leftarrow> dump_list_loop dump_fn itemsperline 0 xs a buf 0;
     buf \<leftarrow> (if p \<noteq> length buf then wr buf p 0 else Some buf);
     txt \<leftarrow> cstring buf;
     Some (a, LOG_INFO txt)
   }"

section \<open>The constructor\<close>

definition family_names :: "u8 list" where
  "family_names =
    [
     0xe8, 0xb5, 0xb5, 0xe9, 0x92, 0xb1, 0xe5, 0xad, 0x99, 0xe6, 0x9d, 0x8e, 0xe5, 0x91, 0xa8, 0xe5,
     0x90, 0xb4, 0xe9, 0x83, 0x91, 0xe7, 0x8e, 0x8b, 0xe5, 0x86, 0xaf, 0xe9, 0x99, 0x88, 0xe8, 0xa4,
     0x9a, 0xe5, 0x8d, 0xab, 0xe8, 0x92, 0x8b, 0xe6, 0xb2, 0x88, 0xe9, 0x9f, 0xa9, 0xe6, 0x9d, 0xa8,
     0xe6, 0x9c, 0xb1, 0xe7, 0xa7, 0xa6, 0xe5, 0xb0, 0xa4, 0xe8, 0xae, 0xb8, 0xe4, 0xbd, 0x95, 0xe5,
     0x90, 0x95, 0xe6, 0x96, 0xbd, 0xe5, 0xbc, 0xa0, 0xe5, 0xad, 0x94, 0xe6, 0x9b, 0xb9, 0xe4, 0xb8,
     0xa5, 0xe5, 0x8d, 0x8e, 0xe9, 0x87, 0x91, 0xe9, 0xad, 0x8f, 0xe9, 0x99, 0xb6, 0xe5, 0xa7, 0x9c,
     0xe6, 0x88, 0x9a, 0xe8, 0xb0, 0xa2, 0xe9, 0x82, 0xb9, 0xe5, 0x96, 0xbb, 0xe7, 0xa6, 0x8f, 0xe6,
     0xb0, 0xb4, 0xe7, 0xaa, 0xa6, 0xe7, 0xab, 0xa0, 0xe4, 0xba, 0x91, 0xe8, 0x8b, 0x8f, 0xe6, 0xbd,
     0x98, 0xe8, 0x91, 0x9b, 0xe5, 0xa5, 0x9a, 0xe8, 0x8c, 0x83, 0xe5, 0xbd, 0xad, 0xe9, 0x83, 0x8e,
     0xe9, 0xb2, 0x81, 0xe9, 0x9f, 0xa6, 0xe6, 0x98, 0x8c, 0xe9, 0xa9, 0xac, 0xe8, 0x8b, 0x97, 0xe5,
     0x87, 0xa4, 0xe8, 0x8a, 0xb1, 0xe6, 0x96, 0xb9, 0xe4, 0xbf, 0x9e, 0xe4, 0xbb, 0xbb, 0xe8, 0xa2,
     0x81, 0xe6, 0x9f, 0xb3, 0xe5, 0x94, 0x90, 0xe7, 0xbd, 0x97, 0xe8, 0x96, 0x9b, 0xe4, 0xbc, 0x8d,
     0xe4, 0xbd, 0x99, 0xe7, 0xb1, 0xb3, 0xe8, 0xb4, 0x9d, 0xe5, 0xa7, 0x9a, 0xe5, 0xad, 0x9f, 0xe9,
     0xa1, 0xbe, 0xe5, 0xb0, 0xb9, 0xe6, 0xb1, 0x9f, 0xe9, 0x92, 0x9f] @ [0]"

definition hash_chars :: "u8 list" where
  "hash_chars = bytes_of_string
     (''0123456789abcdefghijklmnopqrstuvwxyz'' @ ''ABCDEFGHIJKLMNOPQRSTUVWXYZ.-_+=/?#%&*'')"

text \<open>
  The loop of \<^verbatim>\<open>initialize\<close> over the characters of \<^verbatim>\<open>b\<close>: \<^verbatim>\<open>snprintf\<close> copies the bytes just decoded
  (the text that starts \<open>c\<close> bytes before the cursor) into the name.
\<close>

fun initialize_loop ::
  "u8 list \<Rightarrow> u8 list \<Rightarrow> nat \<Rightarrow> st_utf8_stream \<Rightarrow> st_family_name list \<Rightarrow> st_pair list
     \<Rightarrow> (st_family_name list \<times> st_pair list) option" where
  "initialize_loop a [] i stream tb ps = Some (tb, ps)"
| "initialize_loop a (b # bs) i stream tb ps = do {
     p \<leftarrow> rd tb (unat b);
     let (t, sz, stream) = utf8_stream_next a stream;
     if t = - 1 then Some (tb, ps)
     else do {
       c \<leftarrow> sz;
       txt \<leftarrow> cstring (drop (st_p stream - c) a);
       (n, fa') \<leftarrow> snprintf (fa p) 0 (c + 1) txt;
       ps \<leftarrow> wr ps i \<lparr>px = t, pc = b\<rparr>;
       initialize_loop a bs (i + 1) stream (tb[unat b := \<lparr>fx = t, fa = fa'\<rparr>]) ps
     }
   }"

definition initialize_tables :: "(st_family_name list \<times> st_pair list) option" where
  "initialize_tables = do {
     (tb, ps) \<leftarrow> initialize_loop family_names hash_chars 0
                   (utf8_stream_init 0 (length family_names - 1))
                   (replicate 128 \<lparr>fx = - 1, fa = replicate 8 0\<rparr>)
                   (replicate 73 \<lparr>px = 0, pc = 0\<rparr>);
     ps \<leftarrow> qsort pair_cmp ps;
     Some (tb, ps)
   }"

definition initialize :: "u8 list \<Rightarrow> (st_family_name list \<times> st_pair list \<times> log_line list) option" where
  "initialize buf = do {
     (tb, ps) \<leftarrow> initialize_tables;
     (_, l1) \<leftarrow> dump_list family_name_dump 4 tb (replicate 32 0) buf;
     (_, l2) \<leftarrow> dump_list pair_dump 4 ps (replicate 32 0) buf;
     Some (tb, ps, [l1, l2])
   }"

section \<open>The program\<close>

text \<open>
  The loop of \<^verbatim>\<open>main\<close>: \<open>a\<close> is the local array and \<open>p\<close> the write cursor. The inner option is the
  \<^verbatim>\<open>goto err\<close> on a code point that is not in the table.
\<close>

function name_main_loop :: "u8 list \<Rightarrow> st_utf8_stream \<Rightarrow> u8 list \<Rightarrow> nat \<Rightarrow> (u8 list \<times> nat) option option" where
  "name_main_loop arg stream a p =
     (case utf8_stream_next arg stream of
        (t, _, stream') \<Rightarrow>
          if t = - 1 then Some (Some (a, p))
          else (case bsearch pair_cmp \<lparr>px = t, pc = 0\<rparr> pairs 0 (length pairs) of
                  None \<Rightarrow> None
                | Some None \<Rightarrow> Some None
                | Some (Some x) \<Rightarrow>
                    (case wr a p (pc x) of
                       None \<Rightarrow> None
                     | Some a' \<Rightarrow> name_main_loop arg stream' a' (p + 1))))"
  by pat_completeness auto
termination
  by (relation "measure (\<lambda>(arg, stream, a, p). st_e stream - st_p stream)")
    (auto dest!: utf8_stream_next_progress [OF sym])

declare name_main_loop.simps [simp del]

text \<open>
  \<^verbatim>\<open>main\<close> for the argument vector \<open>argv\<close> (C strings, each with its NUL) and the initial content of the
  local array: the log and the exit code.
\<close>

definition MAGNETPREFIX :: "u8 list" where
  "MAGNETPREFIX = bytes_of_string ''magnet:?xt=urn:btih:''"

definition invalid_input :: "u8 list" where
  "invalid_input = bytes_of_string ''invalid input''"

definition name_main :: "u8 list list \<Rightarrow> u8 list \<Rightarrow> (log_line list \<times> int) option" where
  "name_main argv a =
     (if length argv < 2 then do {
        arg0 \<leftarrow> rd argv 0;
        s \<leftarrow> cstring arg0;
        Some ([LOG_ERROR (bytes_of_string ''usage:'' @ s @ bytes_of_string '' name-list'')], 1)
      }
      else do {
        arg \<leftarrow> rd argv 1;
        n \<leftarrow> strlen arg;
        r \<leftarrow> name_main_loop arg (utf8_stream_init 0 n) a 0;
        case r of
          None \<Rightarrow> Some ([LOG_ERROR invalid_input], 2)
        | Some (a, p) \<Rightarrow> do {
            a \<leftarrow> wr a p 0;
            s \<leftarrow> cstring a;
            Some ([LOG_INFO (MAGNETPREFIX @ s)], 0)
          }
      })"

section \<open>The tables and the program\<close>

abbreviation pair_key :: "st_pair \<Rightarrow> int" where
  "pair_key p \<equiv> uint (px p)"

text \<open>What the loop of the constructor leaves in the tables.\<close>

fun names_init ::
  "u32 list \<Rightarrow> u8 list \<Rightarrow> nat \<Rightarrow> st_family_name list \<Rightarrow> st_pair list \<Rightarrow> st_family_name list \<times> st_pair list" where
  "names_init (u # us) (b # bs) i tb ps =
     names_init us bs (i + 1) (tb[unat b := named u (utf8_bytes u)]) (ps[i := \<lparr>px = u, pc = b\<rparr>])"
| "names_init _ _ i tb ps = (tb, ps)"

lemma utf8_bytes_nonzero: "u \<noteq> 0 \<Longrightarrow> 0 \<notin> set (utf8_bytes u)"
proof -
  assume "u \<noteq> 0"
  have or: "x OR y \<noteq> 0" if "y \<noteq> 0" for x y :: u8
    using that by (simp add: or_eq_0_iff)
  have "(ucast u :: u8) \<noteq> 0" if "u < 0x80"
    using utf8_lead1(2) [of u] that \<open>u \<noteq> 0\<close> by (auto simp del: unsigned_ucast_eq)
  then show ?thesis by (auto simp: utf8_bytes_def Let_def or)
qed

lemma utf8_length: "length (utf8_bytes u) \<le> 4" by (simp add: utf8_bytes_def Let_def)

lemma initialize_loop_names:
  assumes "length us = length bs" "list_all (\<lambda>u. utf8_scalar u \<and> u \<noteq> 0) us"
    and "distinct bs" "list_all (\<lambda>b. unat b < length tb \<and> fa (tb ! unat b) = replicate 8 0) bs"
    and "i + length bs \<le> length ps"
    and "a = pre @ concat (map utf8_bytes us) @ [0]"
  shows "initialize_loop a bs i \<lparr>st_p = length pre, st_e = length a - 1\<rparr> tb ps = Some (names_init us bs i tb ps)"
  using assms
proof (induction us bs arbitrary: i pre tb ps rule: list_induct2')
  case (4 u us b bs)
  let ?s = "\<lparr>st_p = length pre, st_e = length a - 1\<rparr>"
  let ?c = "length (utf8_bytes u)"
  let ?rest = "concat (map utf8_bytes us)"
  have u: "utf8_scalar u" "u \<noteq> 0" using 4 by simp_all
  have rest: "stream_rest a ?s = utf8_bytes u @ ?rest"
    using 4 by (simp add: stream_rest_def)
  have dec: "utf8_decode (stream_rest a ?s) = Some (u, ?c)"
    unfolding rest using u(1) by (rule utf8.dec_enc)
  have "0 < ?c" using utf8_decode_size [OF dec] by simp
  then have nxt: "utf8_stream_next a ?s = (u, Some ?c, \<lparr>st_p = length pre + ?c, st_e = length a - 1\<rparr>)"
    using dec 4 by (simp add: utf8_stream_next_def)
  have b: "rd tb (unat b) = Some (tb ! unat b)" "fa (tb ! unat b) = replicate 8 0"
    using 4 by (simp_all add: rd_Some)
  obtain tx where tx: "cstring (drop (length pre) a) = Some tx" "take ?c tx = utf8_bytes u"
    using utf8_bytes_nonzero [OF u(2)] 4 by (simp add: cstring_def cstr_def takeWhile_append)
  have "snprintf (fa (tb ! unat b)) 0 (?c + 1) tx = Some (length tx, fa (named u (utf8_bytes u)))"
    using tx utf8_length [of u] b(2)
    by (simp add: snprintf_def wr_range_def named_def Suc_diff_le flip: replicate_Suc)
  moreover have fresh: "fa (tb[unat b := x] ! unat c) = replicate 8 0" if "c \<in> set bs" for c x
  proof -
    have "unat c \<noteq> unat b" using that 4(4) by (metis distinct.simps(2) word_unat_eq_iff)
    with that 4(5) show ?thesis by (auto simp: list_all_iff)
  qed
  have "initialize_loop a bs (i + 1) \<lparr>st_p = length pre + ?c, st_e = length a - 1\<rparr>
      (tb[unat b := named u (utf8_bytes u)]) (ps[i := \<lparr>px = u, pc = b\<rparr>])
    = Some (names_init us bs (i + 1) (tb[unat b := named u (utf8_bytes u)]) (ps[i := \<lparr>px = u, pc = b\<rparr>]))"
    using 4(1) [of "tb[unat b := named u (utf8_bytes u)]" "i + 1" "ps[i := \<lparr>px = u, pc = b\<rparr>]" "pre @ utf8_bytes u"] 4(2-) fresh
    by (simp add: list_all_iff)
  ultimately show ?case
    using nxt b tx utf8_decode_not_eof [OF dec] 4(2-) by (simp add: wr_Some named_def)
qed simp_all


interpretation pair: key_compare pair_cmp pair_key "\<lambda>p. pair_key p < 2 ^ 31"
proof
  fix a b :: st_pair
  assume ab: "pair_key a < 2 ^ 31" "pair_key b < 2 ^ 31"
  moreover have "0 \<le> pair_key a" "0 \<le> pair_key b" by simp_all
  ultimately have "- (2 ^ 31) \<le> pair_key a - pair_key b" "pair_key a - pair_key b < 2 ^ 31"
    by linarith+
  then show "\<exists>r. pair_cmp a b = Some r \<and> sgn r = sgn (pair_key a - pair_key b)"
    using ab by (simp add: pair_cmp_def sint_small_u32 Let_def)
qed

lemma pairs_sorted: "sorted_wrt (<) (map pair_key pairs)"
  by code_simp

lemma pairs_small: "list_all (\<lambda>p. pair_key p < 2 ^ 31) pairs"
  by code_simp

lemma pairs_chars: "0 \<notin> pc ` set pairs"
  by code_simp

text \<open>The mapping the two tables stand for.\<close>

definition hash_char :: "u32 \<Rightarrow> u8 option" where
  "hash_char u = map_option pc (find (\<lambda>p. px p = u) pairs)"

lemma hash_char_nonzero: "hash_char u = Some c \<Longrightarrow> c \<noteq> 0"
  using pairs_chars by (fastforce simp: hash_char_def find_Some_iff in_set_conv_nth)

lemma bsearch_pairs:
  assumes "u < 0x200000"
  shows "bsearch pair_cmp \<lparr>px = u, pc = 0\<rparr> pairs 0 (length pairs) = Some (find (\<lambda>p. px p = u) pairs)"
proof -
  have "uint u < 2 ^ 31" using assms by (simp add: word_less_def)
  then show ?thesis
    using pair.bsearch_find [OF pairs_sorted pairs_small, of "\<lparr>px = u, pc = 0\<rparr>"]
    by (simp add: word_uint_eq_iff)
qed

fun put_names :: "u32 list \<Rightarrow> u8 list \<Rightarrow> nat \<Rightarrow> (u8 list \<times> nat) option option" where
  "put_names [] a p = Some (Some (a, p))"
| "put_names (u # us) a p =
     (case hash_char u of
        None \<Rightarrow> Some None
      | Some c \<Rightarrow> (case wr a p c of None \<Rightarrow> None | Some a' \<Rightarrow> put_names us a' (p + 1)))"

lemma name_main_loop_put:
  "name_main_loop arg stream a p = put_names (utf8_stream_collect arg stream) a p"
proof (induction arg stream a p rule: name_main_loop.induct)
  case (1 arg stream a p)
  show ?case
  proof (cases "st_p stream < st_e stream \<and> utf8_decode (stream_rest arg stream) \<noteq> None")
    case False
    then have "utf8_decode (stream_rest arg stream) = None"
      by (cases "st_p stream < st_e stream") (auto simp: stream_rest_def utf8.dec_Nil intro: ccontr)
    then show ?thesis
      by (subst name_main_loop.simps) (simp add: utf8_stream_next_def utf8_stream_collect_None)
  next
    case True
    then obtain u c where dec: "utf8_decode (stream_rest arg stream) = Some (u, c)" by auto
    then have nxt: "utf8_stream_next arg stream = (u, Some c, stream\<lparr>st_p := st_p stream + c\<rparr>)"
      using True by (simp add: utf8_stream_next_def)
    have "u < 0x200000" using utf8_decode_sound [OF dec] by (simp add: utf8_scalar_def)
    note look = bsearch_pairs [OF this]
    show ?thesis
      using 1 [OF nxt [symmetric]] nxt look utf8_decode_not_eof [OF dec]
      by (subst name_main_loop.simps)
        (auto simp: utf8_stream_collect_Some [OF dec] hash_char_def split: option.splits)
  qed
qed

lemma put_names_append:
  "list_all (\<lambda>u. hash_char u \<noteq> None) us \<Longrightarrow> p \<le> length a \<Longrightarrow>
   put_names (us @ vs) a p =
    (if p + length us \<le> length a
     then put_names vs (take p a @ map (the \<circ> hash_char) us @ drop (p + length us) a) (p + length us)
     else None)"
proof (induction us arbitrary: a p)
  case (Cons u us)
  then obtain c where c: "hash_char u = Some c" by auto
  show ?case
  proof (cases "p < length a")
    case True
    with Cons c show ?thesis
      by (simp add: wr_Some take_Suc_conv_app_nth)
  qed (use Cons c in \<open>simp add: wr_def\<close>)
qed simp

lemma put_names_cases:
  assumes "p \<le> length a" and known_def: "known = takeWhile (\<lambda>u. hash_char u \<noteq> None) us"
  shows "put_names us a p =
    (if length a < p + length known then None
     else if known \<noteq> us then Some None
     else Some (Some (take p a @ map (the \<circ> hash_char) us @ drop (p + length us) a, p + length us)))"
proof -
  let ?rest = "dropWhile (\<lambda>u. hash_char u \<noteq> None) us"
  have us: "known @ ?rest = us" and all: "list_all (\<lambda>u. hash_char u \<noteq> None) known"
    by (auto simp: known_def list_all_iff dest: set_takeWhileD)
  have "put_names us a p = put_names (known @ ?rest) a p" by (simp only: us)
  also have "\<dots> = (if p + length known \<le> length a
     then put_names ?rest (take p a @ map (the \<circ> hash_char) known @ drop (p + length known) a) (p + length known)
     else None)"
    by (rule put_names_append [OF all assms(1)])
  finally have eq: "put_names us a p = \<dots>" .
  show ?thesis
  proof (cases ?rest)
    case (Cons v vs)
    then have "hash_char v = None"
      using hd_dropWhile [of "\<lambda>u. hash_char u \<noteq> None" us] by auto
    with Cons us eq show ?thesis by auto
  next
    case Nil
    then have "known = us" using us by (metis append_Nil2)
    with eq [unfolded Nil] show ?thesis by (auto simp del: not_None_eq)
  qed
qed


lemma utf8_stream_collect_cstring:
  "utf8_stream_collect (s @ 0 # t) (utf8_stream_init 0 (length s)) = utf8_code_points s"
  unfolding utf8_code_points_def
  by (rule utf8_stream_collect_cong) (simp add: stream_rest_def utf8_stream_init_def)

lemma name_main_put:
  assumes "2 \<le> length argv" "argv ! 1 = s @ 0 # t" "0 \<notin> set s"
  shows "name_main argv a = do {
     r \<leftarrow> put_names (utf8_code_points s) a 0;
     case r of
       None \<Rightarrow> Some ([LOG_ERROR invalid_input], 2)
     | Some (a, p) \<Rightarrow> do {
         a \<leftarrow> wr a p 0;
         s \<leftarrow> cstring a;
         Some ([LOG_INFO (MAGNETPREFIX @ s)], 0)
       }
   }"
  using assms
  by (simp add: name_main_def rd_Some name_main_loop_put utf8_stream_collect_cstring cong: bind_option_cong) 

lemma known_chars:
  assumes "known = takeWhile (\<lambda>u. hash_char u \<noteq> None) us" "known = us"
  shows "0 \<notin> set (map (the \<circ> hash_char) us)"
proof -
  have "\<exists>c. hash_char u = Some c" if "u \<in> set us" for u
    using set_takeWhileD [of u "\<lambda>u. hash_char u \<noteq> None" us] assms that by simp
  then show ?thesis using hash_char_nonzero by fastforce
qed

lemma name_main_eq:
  assumes "2 \<le> length argv" "argv ! 1 = s @ 0 # t" "0 \<notin> set s"
    and us: "us = utf8_code_points s"
    and known: "known = takeWhile (\<lambda>u. hash_char u \<noteq> None) us"
  shows "name_main argv a =
    (if length a < length known then None
     else if known \<noteq> us then Some ([LOG_ERROR invalid_input], 2)
     else if length a = length us then None
     else Some ([LOG_INFO (MAGNETPREFIX @ map (the \<circ> hash_char) us)], 0))"
proof -
  note main = name_main_put [OF assms(1-3), of a, folded us]
  note put = put_names_cases [OF le0 known, of a, unfolded add_0 take0 append_Nil]
  consider "length a < length known" | "length known \<le> length a" "known \<noteq> us"
    | "known = us" "length a = length us" | "known = us" "length us < length a"
    by fastforce
  then show ?thesis
  proof cases
    case 4
    obtain b bs where b: "drop (length us) a = b # bs"
      using Cons_nth_drop_Suc [OF 4(2)] by metis
    have "put_names us a 0 = Some (Some (map (the \<circ> hash_char) us @ b # bs, length us))"
      using put 4 b by simp
    moreover have "wr (map (the \<circ> hash_char) us @ b # bs) (length us) 0 = Some (map (the \<circ> hash_char) us @ 0 # bs)"
      using wr_append_mid [of "map (the \<circ> hash_char) us"] by simp
    ultimately show ?thesis
      using main 4 known_chars [OF known 4(1)] by simp
  qed (simp_all add: main put wr_def)
qed


section \<open>The constructor computes the tables\<close>

lemma family_names_eq:
  "family_names = concat (map utf8_bytes (map (\<lambda>b. fx (table ! unat b)) hash_chars)) @ [0]"
  by code_simp

lemma names_init_tables:
  "names_init (map (\<lambda>b. fx (table ! unat b)) hash_chars) hash_chars 0 (replicate 128 no_name)
     (replicate 73 \<lparr>px = 0, pc = 0\<rparr>) =
   (table, map (\<lambda>b. \<lparr>px = fx (table ! unat b), pc = b\<rparr>) hash_chars)"
  by code_simp

lemma sort_pairs:
  "sort_key pair_key (map (\<lambda>b. \<lparr>px = fx (table ! unat b), pc = b\<rparr>) hash_chars) = pairs"
  by code_simp

lemma hash_chars_facts:
  "distinct hash_chars" "length hash_chars = 73"
  "list_all (\<lambda>b. unat b < 128) hash_chars"
  by code_simp+

lemma table_names:
  "list_all (\<lambda>b. hash_char (fx (table ! unat b)) = Some b \<and> utf8_scalar (fx (table ! unat b))
     \<and> fx (table ! unat b) \<noteq> 0 \<and> cstr (fa (table ! unat b)) = utf8_bytes (fx (table ! unat b))) hash_chars"
  by code_simp

lemma initialize_tables_eq: "initialize_tables = Some (table, pairs)"
proof -
  let ?us = "map (\<lambda>b. fx (table ! unat b)) hash_chars"
  let ?ps = "map (\<lambda>b. \<lparr>px = fx (table ! unat b), pc = b\<rparr>) hash_chars"
  have us: "list_all (\<lambda>u. utf8_scalar u \<and> u \<noteq> 0) ?us"
    using table_names by (auto simp: list_all_iff)
  have "initialize_loop family_names hash_chars 0 \<lparr>st_p = length ([] :: u8 list), st_e = length family_names - 1\<rparr>
      (replicate 128 no_name) (replicate 73 \<lparr>px = 0, pc = 0\<rparr>)
    = Some (names_init ?us hash_chars 0 (replicate 128 no_name) (replicate 73 \<lparr>px = 0, pc = 0\<rparr>))"
    by (rule initialize_loop_names)
      (use us hash_chars_facts in \<open>auto simp: list_all_iff no_name_def family_names_eq\<close>)
  moreover have "list_all (\<lambda>p. pair_key p < 2 ^ 31) ?ps"
    using table_names by (auto simp: list_all_iff utf8_scalar_def word_less_def)
  moreover have "no_name = \<lparr>fx = - 1, fa = replicate 8 0\<rparr>"
    by (simp add: no_name_def)
  ultimately show ?thesis
    by (simp add: initialize_tables_def utf8_stream_init_def names_init_tables pair.qsort_sort_key sort_pairs)
qed

section \<open>The dumps\<close>

lemma length_fmt_x:
  "n < 16 \<Longrightarrow> length (fmt_x n) = 1"
  "16 \<le> n \<Longrightarrow> length (fmt_x n) = Suc (length (fmt_x (n div 16)))"
  by (subst fmt_x.simps, simp)+

lemma length_fmt_alt_x:
  "16 \<le> n \<Longrightarrow> n < 256 \<Longrightarrow> length (fmt_alt_x n) = 4"
  "4096 \<le> n \<Longrightarrow> n < 65536 \<Longrightarrow> length (fmt_alt_x n) = 6"
  by (simp_all add: fmt_alt_x_def length_fmt_x)

lemma hex_digit_nonzero: "d < 16 \<Longrightarrow> hex_digit d \<noteq> 0"
proof -
  assume "d < 16"
  then have "unat (hex_digit d) \<noteq> 0" by (simp add: hex_digit_def unsigned_of_nat take_bit_eq_mod)
  then show ?thesis by auto
qed

lemma fmt_alt_x_no_NUL: "0 \<notin> set (fmt_alt_x n)"
proof -
  have "0 \<notin> set (fmt_x n)"
    by (induction n rule: fmt_x.induct) (subst fmt_x.simps, use hex_digit_nonzero in auto)
  then show ?thesis by (simp add: fmt_alt_x_def)
qed

lemma sprintf_None: "length buf \<le> p + length t \<Longrightarrow> sprintf buf p t = None"
  by (simp add: sprintf_def wr_range_def)

lemma sprintf_Some:
  "p + length t < length buf \<Longrightarrow>
   sprintf buf p t = Some (length t, take p buf @ t @ 0 # drop (Suc (p + length t)) buf)"
  by (simp add: sprintf_def wr_range_def)

lemma family_name_dump_loop_end:
  "0 < n \<Longrightarrow> family_name_dump_loop b q (replicate n 0) = Some (q, b)"
  by (cases n) simp_all

lemma family_name_dump_overflow:
  assumes "length a = 32" "4096 \<le> unat x" "unat x < 65536"
    and "16 \<le> unat b1" "16 \<le> unat b2" "16 \<le> unat b3"
  shows "family_name_dump a (named x [b1, b2, b3]) = None"
proof -
  have nz: "b1 \<noteq> 0" "b2 \<noteq> 0" "b3 \<noteq> 0" using assms(4-6) by auto
  have lt: "unat b < 256" for b :: u8 using unsigned_less [of b] by simp
  show ?thesis
    using assms nz
    by (simp add: family_name_dump_def named_def sprintf_Some sprintf_None length_fmt_alt_x lt family_name_dump_loop_end)
qed

lemma family_name_dump_no_name:
  assumes "length a = 32"
  shows "\<exists>a' t. family_name_dump a no_name = Some a' \<and> length a' = 32 \<and> cstring a' = Some t \<and> length t = 21"
proof -
  let ?t = "bytes_of_string ''{.x='' @ fmt_alt_x 4294967295 @ bytes_of_string '',.a={''"
  have l: "length (fmt_alt_x 4294967295) = 10" by (simp add: fmt_alt_x_def length_fmt_x)
  have "family_name_dump a no_name = Some ((?t @ bytes_of_string ''}}'') @ 0 # drop 22 a)"
    using assms l by (simp add: family_name_dump_def no_name_def sprintf_Some family_name_dump_loop_end)
  moreover have "cstring ((?t @ bytes_of_string ''}}'') @ 0 # drop 22 a) = Some (?t @ bytes_of_string ''}}'')"
    by (rule cstring_append_NUL) (use fmt_alt_x_no_NUL in simp)
  ultimately show ?thesis using assms l by (intro exI conjI) (assumption | simp)+
qed

lemma dump_list_loop_stuck:
  assumes x: "\<And>a. length a = 32 \<Longrightarrow> \<exists>a' t. dump_fn a x = Some a' \<and> length a' = 32 \<and> cstring a' = Some t \<and> length t = 21"
    and y: "\<And>a. length a = 32 \<Longrightarrow> dump_fn a y = None"
  shows "length a = 32 \<Longrightarrow> p + 23 * n < length buf \<Longrightarrow> dump_list_loop dump_fn k i (replicate n x @ y # ys) a buf p = None"
proof (induction n arbitrary: a buf p i)
  case (Suc n)
  obtain a' t where a: "dump_fn a x = Some a'" "length a' = 32" "cstring a' = Some t" "length t = 21"
    using x [OF Suc.prems(1)] by blast
  have "snprintf buf p (length buf - p) (t @ bytes_of_string '','') =
      Some (22, take p buf @ (t @ bytes_of_string '','') @ 0 # drop (p + 23) buf)"
    using Suc.prems a(4) by (simp add: snprintf_def wr_range_def)
  with a Suc show ?case by (auto simp: wr_def Let_def)
qed (simp add: y)

lemma table_split:
  "\<exists>ys. table = replicate 35 no_name @ named 0x987e [0xe9, 0xa1, 0xbe] # ys"
proof -
  have "take 36 table = replicate 35 no_name @ [named 0x987e [0xe9, 0xa1, 0xbe]]" by code_simp
  then have "table = replicate 35 no_name @ named 0x987e [0xe9, 0xa1, 0xbe] # drop 36 table"
    using append_take_drop_id [of 36 table] by simp
  then show ?thesis by blast
qed

section \<open>Properties\<close>

text \<open>C30. The complete behaviour of the program on one argument string: with the code points of the
  argument up to the first undecodable byte, it prints the magnet link made of their characters and
  exits 0 when all of them are in the table and fewer than 512; it exits 2 at the first one that is
  not in the table; and it writes outside its local array exactly when more than 512 known names
  come first, or exactly 512 and nothing else.\<close>

theorem name_main_behaviour:
  assumes "2 \<le> length argv" "argv ! 1 = s @ 0 # t" "0 \<notin> set s" "length a = 512"
    and "us = utf8_code_points s"
    and "known = takeWhile (\<lambda>u. hash_char u \<noteq> None) us"
  shows "name_main argv a =
    (if 512 < length known \<or> known = us \<and> length us = 512 then None
     else if known \<noteq> us then Some ([LOG_ERROR invalid_input], 2)
     else Some ([LOG_INFO (MAGNETPREFIX @ map (the \<circ> hash_char) us)], 0))"
  using name_main_eq [OF assms(1-3,5,6), of a] assms(4) by auto

theorem name_main_behaviour_witness:
  "name_main [[0], [0xe5, 0xad, 0x99, 0x41, 0]] (replicate 512 0) = Some ([LOG_ERROR invalid_input], 2)"
proof -
  have us: "utf8_code_points [0xe5, 0xad, 0x99, 0x41] = [0x5b59, 0x41]" by code_simp
  have known: "takeWhile (\<lambda>u. hash_char u \<noteq> None) [0x5b59, 0x41] = [0x5b59]" by code_simp
  show ?thesis
    using name_main_behaviour [of "[[0], [0xe5, 0xad, 0x99, 0x41, 0]]" "[0xe5, 0xad, 0x99, 0x41]" "[]"
      "replicate 512 0" "[0x5b59, 0x41]" "[0x5b59]"] us known
    by simp
qed

text \<open>The tables invert each other through the program: writing each character of a hash as the
  family name the table has for it and running the program on the result prints exactly that hash,
  for every hash of at most 511 characters of the alphabet.\<close>

theorem name_main_inverts_table:
  assumes "list_all (\<lambda>c. c \<in> set hash_chars) cs" "length cs < 512" "length a = 512"
  shows "name_main [prog, concat (map (\<lambda>c. cstr (fa (table ! unat c))) cs) @ [0]] a
    = Some ([LOG_INFO (MAGNETPREFIX @ cs)], 0)"
proof -
  let ?us = "map (\<lambda>c. fx (table ! unat c)) cs"
  let ?s = "concat (map utf8_bytes ?us)"
  have c: "hash_char (fx (table ! unat c)) = Some c" "utf8_scalar (fx (table ! unat c))"
    "fx (table ! unat c) \<noteq> 0" "cstr (fa (table ! unat c)) = utf8_bytes (fx (table ! unat c))"
    if "c \<in> set cs" for c
    using assms(1) table_names that by (auto simp: list_all_iff)
  have s: "concat (map (\<lambda>c. cstr (fa (table ! unat c))) cs) = ?s"
    using c(4) by (auto intro!: arg_cong [where f = concat])
  have us: "?us = utf8_code_points ?s"
    using c(2) by (intro utf8.loop_concat [symmetric]) (simp add: list_all_iff)
  have known: "?us = takeWhile (\<lambda>u. hash_char u \<noteq> None) ?us"
    using c(1) by (intro takeWhile_eq_all_conv [THEN iffD2, symmetric]) auto
  have "map (the \<circ> hash_char) ?us = cs" using c(1) by (simp add: map_idI)
  moreover have "0 \<notin> set ?s" using c(3) utf8_bytes_nonzero by fastforce
  ultimately show ?thesis
    using name_main_eq [of "[prog, ?s @ [0]]" ?s "[]", OF _ _ _ us known, of a] assms(2,3) s
    by simp
qed

theorem name_main_inverts_table_witness:
  "name_main [[0], concat (map (\<lambda>c. cstr (fa (table ! unat c))) (bytes_of_string ''c4fun*'')) @ [0]]
     (replicate 512 0) = Some ([LOG_INFO (MAGNETPREFIX @ bytes_of_string ''c4fun*'')], 0)"
proof (rule name_main_inverts_table)
  show "list_all (\<lambda>c. c \<in> set hash_chars) (bytes_of_string ''c4fun*'')" by code_simp
qed simp_all

text \<open>The constructor of the build without static tables computes exactly the static tables, and
  then writes one byte past the 32-byte buffer of the dump function while logging the first name.\<close>

theorem initialize_overflow:
  assumes "length buf = 4096"
  shows "initialize_tables = Some (table, pairs) \<and> initialize buf = None"
proof -
  obtain ys where t: "table = replicate 35 no_name @ named 0x987e [0xe9, 0xa1, 0xbe] # ys"
    using table_split by blast
  have "dump_list_loop family_name_dump 4 0 table (replicate 32 0) buf 0 = None"
    unfolding t
    by (rule dump_list_loop_stuck, erule family_name_dump_no_name)
      (use assms in \<open>auto intro!: family_name_dump_overflow\<close>)
  then show ?thesis by (simp add: initialize_def initialize_tables_eq dump_list_def)
qed

theorem initialize_overflow_witness:
  "initialize_tables = Some (table, pairs) \<and> initialize (replicate 4096 0) = None"
  by (rule initialize_overflow) simp

end
