(* ===== verification/Base64.thy ===== *)
theory Base64
  imports Libc
begin

text \<open>
  The coder of \<^verbatim>\<open>codec/base64.c\<close>: the tables filled by the constructor, the byte views of a group of
  three bytes (shift version and bit-field version), \<^verbatim>\<open>base64_encode\<close>, \<^verbatim>\<open>base64_decode\<close> and \<^verbatim>\<open>main\<close>.
  The reference is \<open>base64_ref\<close>, which cuts the bit string of the input into sextets.

  \<^verbatim>\<open>malloc\<close> is a parameter: a function from the size to the block it returns, with its arbitrary
  content, or \<^term>\<open>None\<close> for \<^verbatim>\<open>NULL\<close>.
\<close>

unbundle bit_operations_syntax

section \<open>The tables\<close>

definition ASSIGN :: "nat \<Rightarrow> u8 \<Rightarrow> u8 list \<times> u8 list \<Rightarrow> u8 list \<times> u8 list" where
  "ASSIGN x y tabs = ((fst tabs)[x := y], (snd tabs)[unat y := of_nat x])"

definition base64_table_init :: "u8 list \<times> u8 list" where
  "base64_table_init =
     (let tabs = (replicate 256 0, replicate 256 0);
          tabs = fold (\<lambda>i tabs. ASSIGN (i + 26) (char_code CHR ''a'' + of_nat i)
                                 (ASSIGN i (char_code CHR ''A'' + of_nat i) tabs)) [0..<26] tabs;
          tabs = fold (\<lambda>i. ASSIGN (i + 52) (char_code CHR ''0'' + of_nat i)) [0..<10] tabs;
          tabs = ASSIGN 62 (char_code CHR ''+'') tabs;
          tabs = ASSIGN 63 (char_code CHR ''/'') tabs
      in (fst tabs, (snd tabs)[unat (char_code CHR ''='') := 0]))"

definition base64_table :: "u8 list" where
  "base64_table = fst base64_table_init"

definition base64_rtable :: "u8 list" where
  "base64_rtable = snd base64_table_init"

section \<open>A group\<close>

text \<open>The union is its four bytes; \<^verbatim>\<open>group.i = 0\<close> resets all of them.\<close>

type_synonym base64_group_u = "u8 list"

definition base64_group_reset :: base64_group_u where
  "base64_group_reset = [0, 0, 0, 0]"

definition base64_group_b0 :: "base64_group_u \<Rightarrow> u8" where
  "base64_group_b0 self = drop_bit 2 (self ! 0)"

definition base64_group_b1 :: "base64_group_u \<Rightarrow> u8" where
  "base64_group_b1 self = push_bit 4 (self ! 0 AND 0x3) + drop_bit 4 (self ! 1)"

definition base64_group_b2 :: "base64_group_u \<Rightarrow> u8" where
  "base64_group_b2 self = push_bit 2 (self ! 1 AND 0xf) + drop_bit 6 (self ! 2)"

definition base64_group_b3 :: "base64_group_u \<Rightarrow> u8" where
  "base64_group_b3 self = self ! 2 AND 0x3f"

text \<open>
  The bit-field variants: a little-endian compiler allocates the fields of a byte from its low end,
  so \<open>bitfield off width\<close> reads a field that starts after \<open>off\<close> bits.
\<close>

definition bitfield :: "nat \<Rightarrow> nat \<Rightarrow> u8 \<Rightarrow> u8" where
  "bitfield off width b = take_bit width (drop_bit off b)"

record base64_bits =
  f0h :: u8
  f0l :: u8
  f1h :: u8
  f1l :: u8
  f2h :: u8
  f2l :: u8

definition base64_group_u_RIGHT :: "base64_group_u \<Rightarrow> base64_bits" where
  "base64_group_u_RIGHT self =
     \<lparr>f0h = bitfield 2 6 (self ! 0), f0l = bitfield 0 2 (self ! 0),
      f1h = bitfield 4 4 (self ! 1), f1l = bitfield 0 4 (self ! 1),
      f2h = bitfield 6 2 (self ! 2), f2l = bitfield 0 6 (self ! 2)\<rparr>"

definition base64_group_u_BAD :: "base64_group_u \<Rightarrow> base64_bits" where
  "base64_group_u_BAD self =
     \<lparr>f0h = bitfield 0 6 (self ! 0), f0l = bitfield 6 2 (self ! 0),
      f1h = bitfield 0 4 (self ! 1), f1l = bitfield 4 4 (self ! 1),
      f2h = bitfield 0 2 (self ! 2), f2l = bitfield 2 6 (self ! 2)\<rparr>"

definition base64_group_u_BAD_print :: "base64_group_u \<Rightarrow> log_line" where
  "base64_group_u_BAD_print self =
     (let b = base64_group_u_BAD self;
          fs = map (\<lambda>f. fmt_alt_x (unat f)) [f0h b, f0l b, f1h b, f1l b, f2h b, f2l b, self ! 3]
      in LOG_INFO (foldr (\<lambda>f r. if r = [] then f else f @ bytes_of_string '','' @ r) fs []))"

definition base64_group_RIGHT_b0 :: "base64_group_u \<Rightarrow> u8" where
  "base64_group_RIGHT_b0 self = f0h (base64_group_u_RIGHT self)"

definition base64_group_RIGHT_b1 :: "base64_group_u \<Rightarrow> u8" where
  "base64_group_RIGHT_b1 self = push_bit 4 (f0l (base64_group_u_RIGHT self)) + f1h (base64_group_u_RIGHT self)"

definition base64_group_RIGHT_b2 :: "base64_group_u \<Rightarrow> u8" where
  "base64_group_RIGHT_b2 self = push_bit 2 (f1l (base64_group_u_RIGHT self)) + f2h (base64_group_u_RIGHT self)"

definition base64_group_RIGHT_b3 :: "base64_group_u \<Rightarrow> u8" where
  "base64_group_RIGHT_b3 self = f2l (base64_group_u_RIGHT self)"

section \<open>Encoder\<close>

text \<open>The inner loop: the group, \<open>n\<close>, \<^verbatim>\<open>done\<close> and the advanced source.\<close>

function base64_fill :: "nat \<Rightarrow> base64_group_u \<Rightarrow> u8 list \<Rightarrow> (base64_group_u \<times> nat \<times> bool \<times> u8 list) option" where
  "base64_fill n grp src =
     (if n < 3 then
        (case src of
           [] \<Rightarrow> None
         | c # src' \<Rightarrow> if c = 0 then Some (grp, n, True, src)
                      else base64_fill (n + 1) (grp[n := c]) src')
      else Some (grp, n, False, src))"
  by pat_completeness auto
termination
  by (relation "measure (\<lambda>(n, grp, src). 3 - n)") auto

declare base64_fill.simps [simp del]

definition base64_put :: "base64_group_u \<Rightarrow> nat \<Rightarrow> u8 list \<Rightarrow> nat \<Rightarrow> (u8 list \<times> nat) option" where
  "base64_put grp n dst p = do {
     c0 \<leftarrow> rd base64_table (unat (base64_group_b0 grp));
     dst \<leftarrow> wr dst p c0;
     c1 \<leftarrow> rd base64_table (unat (base64_group_b1 grp));
     dst \<leftarrow> wr dst (p + 1) c1;
     c2 \<leftarrow> (if n < 2 then Some (char_code CHR ''='') else rd base64_table (unat (base64_group_b2 grp)));
     dst \<leftarrow> wr dst (p + 2) c2;
     c3 \<leftarrow> (if n < 3 then Some (char_code CHR ''='') else rd base64_table (unat (base64_group_b3 grp)));
     dst \<leftarrow> wr dst (p + 3) c3;
     Some (dst, p + 4)
   }"

lemma base64_fill_shrinks:
  "base64_fill n grp src = Some (g, m, fin, src') \<Longrightarrow> n \<le> 3 \<Longrightarrow>
     (fin \<longleftrightarrow> m < 3) \<and> n \<le> m \<and> m \<le> 3 \<and> length src = length src' + (m - n)"
proof (induction n grp src rule: base64_fill.induct)
  case (1 n grp src)
  show ?case
  proof (cases "n < 3")
    case True
    with 1 show ?thesis
      by (subst (asm) base64_fill.simps) (auto split: list.splits if_splits)
  next
    case False
    with 1(2,3) show ?thesis by (subst (asm) base64_fill.simps) simp
  qed
qed

function base64_encode_loop :: "u8 list \<Rightarrow> u8 list \<Rightarrow> nat \<Rightarrow> (u8 list \<times> nat) option" where
  "base64_encode_loop src dst p =
     (case base64_fill 0 base64_group_reset src of
        None \<Rightarrow> None
      | Some (grp, n, fin, src') \<Rightarrow>
          (case (if 0 < n then base64_put grp n dst p else Some (dst, p)) of
             None \<Rightarrow> None
           | Some (dst', p') \<Rightarrow>
               if fin then Some (dst', p') else base64_encode_loop src' dst' p'))"
  by pat_completeness auto
termination
  by (relation "measure (\<lambda>(src, dst, p). length src)") (auto dest: base64_fill_shrinks)

declare base64_encode_loop.simps [simp del]

text \<open>A failed allocation is not checked: the first write then goes through a null pointer.\<close>

definition base64_encode :: "(nat \<Rightarrow> u8 list option) \<Rightarrow> u8 list \<Rightarrow> u8 list option" where
  "base64_encode malloc src = do {
     n \<leftarrow> strlen src;
     dst \<leftarrow> malloc ((n + 2) div 3 * 4 + 1);
     (dst, p) \<leftarrow> base64_encode_loop src dst 0;
     wr dst p 0
   }"

section \<open>Decoder\<close>

definition base64_decode_group :: "u8 list \<Rightarrow> nat \<Rightarrow> base64_group_u option" where
  "base64_decode_group src q = do {
     q0 \<leftarrow> rd src q;
     x \<leftarrow> rd base64_rtable (unat q0);
     let grp = base64_group_reset;
     let grp = grp[0 := grp ! 0 OR push_bit 2 x];
     q1 \<leftarrow> rd src (q + 1);
     x \<leftarrow> rd base64_rtable (unat q1);
     let grp = grp[0 := grp ! 0 OR drop_bit 4 x];
     let grp = grp[1 := grp ! 1 OR push_bit 4 (x AND 0xf)];
     q2 \<leftarrow> rd src (q + 2);
     x \<leftarrow> rd base64_rtable (unat q2);
     let grp = grp[1 := grp ! 1 OR drop_bit 2 x];
     let grp = grp[2 := grp ! 2 OR push_bit 6 (x AND 0x3)];
     q3 \<leftarrow> rd src (q + 3);
     x \<leftarrow> rd base64_rtable (unat q3);
     let grp = grp[2 := grp ! 2 OR x];
     Some grp
   }"

function base64_decode_loop :: "u8 list \<Rightarrow> nat \<Rightarrow> u8 list \<Rightarrow> nat \<Rightarrow> (u8 list \<times> nat) option" where
  "base64_decode_loop src q dst p =
     (case rd src q of
        None \<Rightarrow> None
      | Some c \<Rightarrow>
          if c = 0 then Some (dst, p)
          else (case base64_decode_group src q of
                  None \<Rightarrow> None
                | Some grp \<Rightarrow>
                    (case wr_range dst p (take 3 grp) of
                       None \<Rightarrow> None
                     | Some dst' \<Rightarrow> base64_decode_loop src (q + 4) dst' (p + 3))))"
  by pat_completeness auto
termination
  by (relation "measure (\<lambda>(src, q, dst, p). length src - q)") (auto simp: rd_eq_Some_iff)

declare base64_decode_loop.simps [simp del]

text \<open>
  The argument is \<^term>\<open>None\<close> for a null pointer; the inner option of the result is \<^verbatim>\<open>NULL\<close>. The
  length is cast to \<^verbatim>\<open>int\<close>, and the size to allocate back to \<^verbatim>\<open>size_t\<close>.
\<close>

definition base64_decode :: "(nat \<Rightarrow> u8 list option) \<Rightarrow> u8 list option \<Rightarrow> u8 list option option" where
  "base64_decode malloc src =
     (case src of
        None \<Rightarrow> Some None
      | Some src \<Rightarrow> do {
          c \<leftarrow> rd src 0;
          if c = 0 then Some None
          else do {
            n \<leftarrow> strlen src;
            let sz = sint (of_nat n :: u32);
            if sz AND 0x3 \<noteq> 0 then Some None
            else (case malloc (unat (of_int (sz div 4 * 3 + 1) :: u64)) of
                    None \<Rightarrow> Some None
                  | Some dst \<Rightarrow> do {
                      (dst, p) \<leftarrow> base64_decode_loop src 0 dst 0;
                      dst \<leftarrow> wr dst p 0;
                      Some (Some dst)
                    })
          }
        })"

text \<open>\<^verbatim>\<open>main\<close> without the \<^verbatim>\<open>TEST\<close> parts; \<^verbatim>\<open>%s\<close> of a null pointer is undefined.\<close>

definition base64_main :: "(nat \<Rightarrow> u8 list option) \<Rightarrow> u8 list list \<Rightarrow> (log_line list \<times> int) option" where
  "base64_main malloc argv =
     (let l0 = LOG_INFO (bytes_of_string ''sizeof(union base64_group_u)=4,4'') in
      if 1 < length argv then do {
        s1 \<leftarrow> base64_encode malloc (argv ! 1);
        r \<leftarrow> base64_decode malloc (Some s1);
        s2 \<leftarrow> r;
        t0 \<leftarrow> cstring (argv ! 1);
        t1 \<leftarrow> cstring s1;
        t2 \<leftarrow> cstring s2;
        Some ([l0, LOG_INFO ([39] @ t0 @ [39, 44, 39] @ t1 @ [39, 44, 39] @ t2 @ [39])], 0)
      }
      else Some ([l0], if length argv = 1 then 1 else 0))"

section \<open>Reference\<close>

definition base64_alphabet :: string where
  "base64_alphabet =
     ''ABCDEFGHIJKLMNOPQRSTUVWXYZabcdefghijklmnopqrstuvwxyz0123456789+/''"

fun sextets :: "bool list \<Rightarrow> nat list" where
  "sextets [] = []"
| "sextets (b # bs) =
     (let w = take 6 ((b # bs) @ replicate 5 False)
      in horner_sum of_bool 2 (rev w) # sextets (drop 5 bs))"

definition base64_ref :: "u8 list \<Rightarrow> u8 list" where
  "base64_ref s =
     bytes_of_string (map ((!) base64_alphabet) (sextets (concat (map (\<lambda>b. map (bit b) (rev [0..<8])) s))))
     @ replicate ((3 - length s mod 3) mod 3) (char_code CHR ''='')"

section \<open>Table facts\<close>

lemma base64_table_eq: "base64_table = bytes_of_string base64_alphabet @ replicate 192 0"
  by code_simp

lemma base64_rtable_inverts: "list_all (\<lambda>v. rd base64_rtable (unat (base64_table ! v)) = Some (of_nat v)) [0..<64]"
  by code_simp

lemma base64_rtable_pad: "rd base64_rtable 61 = Some 0"
  by code_simp

lemma base64_alphabet_facts:
  "length base64_alphabet = 64" "0 \<notin> set (bytes_of_string base64_alphabet)"
  by code_simp+

declare u8_bit_high [simp]

lemma u8_less_64: "(w :: u8) < 64 \<longleftrightarrow> \<not> bit w 6 \<and> \<not> bit w 7"
proof -
  have "i = 6 \<or> i = 7 \<or> 8 \<le> i" if "6 \<le> i" for i :: nat using that by linarith
  then have "(\<forall>i\<ge>6. \<not> bit w i) \<longleftrightarrow> \<not> bit w 6 \<and> \<not> bit w 7"
    by (metis order_refl u8_bit_high numeral_le_iff semiring_norm(68-79))
  then show ?thesis using word_less_power_iff [of 6 w] by simp
qed

lemma base64_group_or:
  "base64_group_b1 g = push_bit 4 (g ! 0 AND 0x3) OR drop_bit 4 (g ! 1)"
  "base64_group_b2 g = push_bit 2 (g ! 1 AND 0xf) OR drop_bit 6 (g ! 2)"
  unfolding base64_group_b1_def base64_group_b2_def
  by (rule disjunctive_add_eq_or; simp add: u8_bits)+

lemmas base64_group_simps =
  base64_group_b0_def base64_group_or base64_group_b3_def

lemma base64_group_less:
  "base64_group_b0 g < 64" "base64_group_b1 g < 64" "base64_group_b2 g < 64" "base64_group_b3 g < 64"
  by (simp_all add: base64_group_simps u8_less_64 bit_simps)

lemma base64_join:
  fixes a b c :: u8
  defines "x0 \<equiv> base64_group_b0 [a, b, c, 0]" and "x1 \<equiv> base64_group_b1 [a, b, c, 0]"
    and "x2 \<equiv> base64_group_b2 [a, b, c, 0]" and "x3 \<equiv> base64_group_b3 [a, b, c, 0]"
  shows "push_bit 2 x0 OR drop_bit 4 x1 = a"
    "push_bit 4 (x1 AND 0xf) OR drop_bit 2 x2 = b"
    "push_bit 6 (x2 AND 0x3) OR x3 = c"
  by (simp_all add: assms base64_group_simps u8_bits) (simp add: numeral_eq_Suc)

lemma unat_sextet: "(w :: u8) < 64 \<Longrightarrow> unat w = horner_sum of_bool 2 (map (bit w) [0..<6])"
proof -
  assume "w < 64"
  then have "unat w < 2 ^ 6" by (simp add: word_less_nat_alt)
  then have "unat w = take_bit 6 (unat w)" by (simp add: take_bit_nat_eq_self)
  also have "\<dots> = horner_sum of_bool 2 (map (bit (unat w)) [0..<6])"
    by (rule horner_sum_bit_eq_take_bit [symmetric])
  also have "map (bit (unat w)) [0..<6] = map (bit w) [0..<6]"
    by (simp add: bit_unsigned_iff)
  finally show ?thesis .
qed

section \<open>Blocks\<close>

text \<open>The four characters of a group of which \<open>n\<close> bytes are present, and of a whole text.\<close>

definition base64_chars :: "u8 list \<Rightarrow> nat \<Rightarrow> u8 list" where
  "base64_chars g n =
     [base64_table ! unat (base64_group_b0 g), base64_table ! unat (base64_group_b1 g),
      if n < 2 then char_code CHR ''='' else base64_table ! unat (base64_group_b2 g),
      if n < 3 then char_code CHR ''='' else base64_table ! unat (base64_group_b3 g)]"

fun base64_blocks :: "u8 list \<Rightarrow> u8 list" where
  "base64_blocks [] = []"
| "base64_blocks [a] = base64_chars [a, 0, 0, 0] 1"
| "base64_blocks [a, b] = base64_chars [a, b, 0, 0] 2"
| "base64_blocks (a # b # c # s) = base64_chars [a, b, c, 0] 3 @ base64_blocks s"

lemma length_base64_table [simp]: "length base64_table = 256"
  by (simp add: base64_table_eq base64_alphabet_facts)

lemma base64_char:
  assumes "w < (64 :: u8)"
  shows "base64_table ! unat w = char_code (base64_alphabet ! unat w)"
    "base64_table ! unat w \<noteq> 0" "rd base64_rtable (unat (base64_table ! unat w)) = Some w"
    "rd base64_table (unat w) = Some (base64_table ! unat w)"
proof -
  have w: "unat w < 64" using assms by (simp add: word_less_nat_alt)
  show eq: "base64_table ! unat w = char_code (base64_alphabet ! unat w)"
    using w by (simp add: base64_table_eq nth_append base64_alphabet_facts)
  have "char_code (base64_alphabet ! unat w) \<in> set (bytes_of_string base64_alphabet)"
    using w base64_alphabet_facts(1) by simp
  then show "base64_table ! unat w \<noteq> 0" using eq base64_alphabet_facts(2) by metis
  show "rd base64_rtable (unat (base64_table ! unat w)) = Some w"
    using base64_rtable_inverts w by (simp add: list_all_iff)
  show "rd base64_table (unat w) = Some (base64_table ! unat w)" using w by (simp add: rd_Some)
qed

lemmas base64_group_chars = base64_group_less [THEN base64_char(1)]
  base64_group_less [THEN base64_char(2)] base64_group_less [THEN base64_char(3)]

lemma length_base64_chars [simp]: "length (base64_chars g n) = 4"
  by (simp add: base64_chars_def)

lemma length_base64_blocks: "length (base64_blocks s) = (length s + 2) div 3 * 4"
proof (induction s rule: base64_blocks.induct)
  case (4 a b c s)
  have "(length (a # b # c # s) + 2) div 3 = Suc ((length s + 2) div 3)" by simp
  then show ?case using 4 by (simp add: length_base64_chars)
qed (simp_all add: length_base64_chars)

lemma base64_blocks_no_NUL: "0 \<notin> set (base64_blocks s)"
proof -
  have "0 \<notin> set (base64_chars g n)" for g n
    using base64_group_less [THEN base64_char(2), of g] by (auto simp: base64_chars_def)
  then show ?thesis by (induction s rule: base64_blocks.induct) simp_all
qed

lemma split4:
  assumes "p + 4 \<le> length xs"
  shows "\<exists>a b c d. xs = take p xs @ a # b # c # d # drop (p + 4) xs"
proof -
  have "drop p xs = xs ! p # xs ! (p + 1) # xs ! (p + 2) # xs ! (p + 3) # drop (p + 4) xs"
    using assms by (simp add: Cons_nth_drop_Suc numeral_eq_Suc)
  then show ?thesis by (metis append_take_drop_id)
qed

lemma base64_put_chars:
  assumes "p + 4 \<le> length dst"
  shows "base64_put g n dst p = Some (take p dst @ base64_chars g n @ drop (p + 4) dst, p + 4)"
proof -
  obtain d0 d1 d2 d3 where d: "dst = take p dst @ d0 # d1 # d2 # d3 # drop (p + 4) dst"
    using split4 [OF assms] by metis
  define xs ys where xy: "xs = take p dst" "ys = drop (p + 4) dst"
  have p: "length xs = p" using assms by (simp add: xy)
  have "base64_put g n (xs @ d0 # d1 # d2 # d3 # ys) (length xs)
      = Some (xs @ base64_chars g n @ ys, length xs + 4)"
    by (simp add: base64_put_def base64_chars_def base64_char(4) base64_group_less wr_def
        list_update_append numeral_eq_Suc)
  then show ?thesis using d unfolding xy p by (metis p xy)
qed

lemma base64_fill_cases:
  "base64_fill 0 base64_group_reset (0 # t) = Some ([0, 0, 0, 0], 0, True, 0 # t)"
  "a \<noteq> 0 \<Longrightarrow> base64_fill 0 base64_group_reset (a # 0 # t) = Some ([a, 0, 0, 0], 1, True, 0 # t)"
  "a \<noteq> 0 \<Longrightarrow> b \<noteq> 0 \<Longrightarrow> base64_fill 0 base64_group_reset (a # b # 0 # t) = Some ([a, b, 0, 0], 2, True, 0 # t)"
  "a \<noteq> 0 \<Longrightarrow> b \<noteq> 0 \<Longrightarrow> c \<noteq> 0 \<Longrightarrow>
     base64_fill 0 base64_group_reset (a # b # c # s) = Some ([a, b, c, 0], 3, False, s)"
  by (simp_all add: base64_fill.simps base64_group_reset_def)

lemma base64_encode_loop_blocks:
  "0 \<notin> set s \<Longrightarrow> p + length (base64_blocks s) \<le> length dst \<Longrightarrow>
   base64_encode_loop (s @ 0 # t) dst p =
     Some (take p dst @ base64_blocks s @ drop (p + length (base64_blocks s)) dst, p + length (base64_blocks s))"
proof (induction s arbitrary: dst p rule: base64_blocks.induct)
  case (4 a b c s)
  have "base64_encode_loop ((a # b # c # s) @ 0 # t) dst p =
     base64_encode_loop (s @ 0 # t) (take p dst @ base64_chars [a, b, c, 0] 3 @ drop (p + 4) dst) (p + 4)"
    using 4(2-) by (subst base64_encode_loop.simps) (simp add: base64_fill_cases base64_put_chars)
  with 4 show ?case by (simp add: add.commute add.left_commute)
qed (subst base64_encode_loop.simps, simp add: base64_fill_cases base64_put_chars)+


section \<open>Decoding blocks\<close>

fun base64_pad :: "u8 list \<Rightarrow> u8 list" where
  "base64_pad [] = []"
| "base64_pad [a] = [a, 0, 0]"
| "base64_pad [a, b] = [a, b, 0]"
| "base64_pad (a # b # c # s) = a # b # c # base64_pad s"

lemma length_base64_pad: "length (base64_pad s) = (length s + 2) div 3 * 3"
proof (induction s rule: base64_pad.induct)
  case (4 a b c s)
  have "(length (a # b # c # s) + 2) div 3 = Suc ((length s + 2) div 3)" by simp
  then show ?case using 4 by simp
qed simp_all

lemma base64_pad_NULs: "\<exists>k. base64_pad s = s @ replicate k 0"
  by (induction s rule: base64_pad.induct) (auto intro: exI [of _ 0] exI [of _ 1] exI [of _ 2] simp: numeral_2_eq_2)

lemma cstring_base64_pad: "0 \<notin> set s \<Longrightarrow> cstring (base64_pad s @ 0 # t) = Some s"
proof -
  assume s: "0 \<notin> set s"
  obtain k where "base64_pad s = s @ replicate k 0" using base64_pad_NULs by metis
  with s show ?thesis by (cases k) simp_all
qed

lemma rd_append4:
  "rd (xs @ a # b # c # d # ys) (length xs) = Some a"
  "rd (xs @ a # b # c # d # ys) (length xs + 1) = Some b"
  "rd (xs @ a # b # c # d # ys) (length xs + 2) = Some c"
  "rd (xs @ a # b # c # d # ys) (length xs + 3) = Some d"
  by (simp_all add: rd_def nth_append)

lemma base64_decode_group_chars:
  assumes "n < 3 \<longrightarrow> c = 0" "n < 2 \<longrightarrow> b = 0"
  shows "base64_decode_group (xs @ base64_chars [a, b, c, 0] n @ ys) (length xs) = Some [a, b, c, 0]"
proof -
  let ?g = "[a, b, c, 0]"
  have c2: "rd base64_rtable (unat (if n < 2 then char_code CHR ''='' else base64_table ! unat (base64_group_b2 ?g)))
      = Some (base64_group_b2 ?g)"
    using assms base64_rtable_pad base64_group_less(3) [THEN base64_char(3), of ?g]
    by (auto simp: base64_group_b2_def)
  have c3: "rd base64_rtable (unat (if n < 3 then char_code CHR ''='' else base64_table ! unat (base64_group_b3 ?g)))
      = Some (base64_group_b3 ?g)"
    using assms base64_rtable_pad base64_group_less(4) [THEN base64_char(3), of ?g]
    by (auto simp: base64_group_b3_def)
  show ?thesis
    unfolding base64_chars_def base64_decode_group_def base64_group_reset_def append.simps rd_append4
      Option.bind.simps(2) c2 c3
    using base64_group_less [THEN base64_char(3), of ?g] base64_join [of a b c]
    by (simp add: Let_def)
qed

lemma base64_decode_loop_step:
  assumes "n < 3 \<longrightarrow> c = 0" "n < 2 \<longrightarrow> b = 0" "p + 3 \<le> length dst"
  shows "base64_decode_loop (xs @ base64_chars [a, b, c, 0] n @ ys) (length xs) dst p =
    base64_decode_loop ((xs @ base64_chars [a, b, c, 0] n) @ ys) (length (xs @ base64_chars [a, b, c, 0] n))
      (take p dst @ [a, b, c] @ drop (p + 3) dst) (p + 3)"
proof -
  let ?s = "xs @ base64_chars [a, b, c, 0] n @ ys"
  have "rd ?s (length xs) = Some (base64_table ! unat (base64_group_b0 [a, b, c, 0]))"
    by (simp add: base64_chars_def rd_append_mid)
  moreover have "wr_range dst p (take 3 [a, b, c, 0]) = Some (take p dst @ [a, b, c] @ drop (p + 3) dst)"
    using assms(3) by (simp add: wr_range_def numeral_3_eq_3)
  ultimately show ?thesis
    using base64_decode_group_chars [OF assms(1,2), of xs a ys]
      base64_group_less(1) [THEN base64_char(2), of "[a, b, c, 0]"]
    by (subst base64_decode_loop.simps) simp
qed

lemma base64_decode_loop_end:
  "base64_decode_loop (xs @ 0 # t) (length xs) dst p = Some (dst, p)"
  by (subst base64_decode_loop.simps) (simp add: rd_append_mid)

lemma base64_decode_loop_blocks:
  "p + length (base64_pad s) \<le> length dst \<Longrightarrow>
   base64_decode_loop (xs @ base64_blocks s @ 0 # t) (length xs) dst p =
     Some (take p dst @ base64_pad s @ drop (p + length (base64_pad s)) dst, p + length (base64_pad s))"
proof (induction s arbitrary: xs dst p rule: base64_blocks.induct)
  case (4 a b c s)
  then show ?case
    using base64_decode_loop_step [of 3 c b p dst xs a "base64_blocks s @ 0 # t"]
      "4.IH" [of "p + 3" "take p dst @ [a, b, c] @ drop (p + 3) dst" "xs @ base64_chars [a, b, c, 0] 3"]
    by (simp add: numeral_3_eq_3 add.commute)
qed (use base64_decode_loop_step base64_decode_loop_end in
      \<open>simp_all del: length_append append_assoc
        add: base64_decode_loop_end append_assoc [symmetric] numeral_3_eq_3\<close>)


lemma base64_encode_blocks:
  assumes "0 \<notin> set s" "malloc ((length s + 2) div 3 * 4 + 1) = Some dst"
    and "length dst = (length s + 2) div 3 * 4 + 1"
  shows "base64_encode malloc (s @ 0 # t) = Some (base64_blocks s @ [0])"
proof -
  have len: "length dst = length (base64_blocks s) + 1"
    using assms(3) by (simp add: length_base64_blocks)
  then obtain d where "drop (length (base64_blocks s)) dst = [d]"
    by (cases "drop (length (base64_blocks s)) dst") (auto dest: arg_cong [where f = length])
  then have "base64_encode_loop (s @ 0 # t) dst 0 = Some (base64_blocks s @ [d], length (base64_blocks s))"
    using base64_encode_loop_blocks [OF assms(1), of 0 dst t] len by simp
  then show ?thesis
    using assms(1,2) by (simp add: base64_encode_def wr_append_mid)
qed

lemma int_and_3: "int n AND 0x3 = int (n mod 4)"
proof -
  have "int n AND 0x3 = take_bit 2 (int n)" by (simp add: take_bit_eq_mask mask_eq_exp_minus_1)
  then show ?thesis by (simp add: take_bit_eq_mod zmod_int)
qed

lemma base64_decode_unfold:
  assumes "rd src 0 = Some c" "c \<noteq> 0" "strlen src = Some n" "n < 2 ^ 31"
  shows "base64_decode malloc (Some src) =
     (if n mod 4 \<noteq> 0 then Some None
      else (case malloc (n div 4 * 3 + 1) of
              None \<Rightarrow> Some None
            | Some dst \<Rightarrow> do {
                (dst, p) \<leftarrow> base64_decode_loop src 0 dst 0;
                dst \<leftarrow> wr dst p 0;
                Some (Some dst)
              }))"
proof -
  have "int n div 4 * 3 + 1 = int (n div 4 * 3 + 1)" by (simp add: zdiv_int)
  then have "of_int (int n div 4 * 3 + 1) = (of_nat (n div 4 * 3 + 1) :: u64)"
    by (simp only: of_int_of_nat_eq)
  moreover have "unat (of_nat (n div 4 * 3 + 1) :: u64) = n div 4 * 3 + 1"
    using assms(4) by (intro unat_of_nat_small) simp
  ultimately have "unat (of_int (int n div 4 * 3 + 1) :: u64) = n div 4 * 3 + 1"
    by (simp only:)
  with assms show ?thesis
    by (simp add: base64_decode_def Let_def sint_of_nat_u32 int_and_3)
qed

lemma base64_decode_blocks:
  assumes "s \<noteq> []" "(length s + 2) div 3 * 4 < 2 ^ 31"
    and "malloc ((length s + 2) div 3 * 3 + 1) = Some dst" "length dst = (length s + 2) div 3 * 3 + 1"
  shows "base64_decode malloc (Some (base64_blocks s @ 0 # t)) = Some (Some (base64_pad s @ [0]))"
proof -
  let ?src = "base64_blocks s @ 0 # t"
  define m where m: "m = (length s + 2) div 3"
  have len: "strlen ?src = Some (m * 4)"
    using base64_blocks_no_NUL [of s] by (simp add: length_base64_blocks m)
  have "0 < m" using assms(1) m by (cases s) auto
  then have "base64_blocks s \<noteq> []" using length_base64_blocks [of s] m by auto
  then obtain c0 where c0: "rd ?src 0 = Some c0" "c0 \<noteq> 0"
    using base64_blocks_no_NUL [of s] by (cases "base64_blocks s") (auto simp: rd_def)
  have dst: "length dst = length (base64_pad s) + 1"
    using assms(4) by (simp add: length_base64_pad)
  then obtain d where "drop (length (base64_pad s)) dst = [d]"
    by (cases "drop (length (base64_pad s)) dst") (auto dest: arg_cong [where f = length])
  then have loop: "base64_decode_loop ?src 0 dst 0 = Some (base64_pad s @ [d], length (base64_pad s))"
    using base64_decode_loop_blocks [of 0 s dst "[]" t] dst by simp
  show ?thesis
    using assms(2,3) base64_decode_unfold [OF c0 len] m by (simp add: loop wr_append_mid)
qed

section \<open>The reference\<close>

lemma base64_table_sextet:
  assumes "(w :: u8) < 64"
  shows "base64_table ! unat w = char_code (base64_alphabet ! horner_sum of_bool 2 (map (bit w) [0..<6]))"
  unfolding unat_sextet [OF assms, symmetric] by (rule base64_char(1) [OF assms])

lemma upt_6_8: "[0..<6] = [0, 1, 2, 3, 4, 5]" "[0..<8] = [0, 1, 2, 3, 4, 5, 6, 7]"
  by code_simp+

lemma base64_bits8: "map (bit b) (rev [0..<8]) = [bit b 7, bit b 6, bit b 5, bit b 4, bit b 3, bit b 2, bit b 1, bit b 0]"
  unfolding upt_6_8 by simp

lemma base64_sextet_bits:
  "map (bit (base64_group_b0 [a, b, c, d])) [0..<6] = [bit a 2, bit a 3, bit a 4, bit a 5, bit a 6, bit a 7]"
  "map (bit (base64_group_b1 [a, b, c, d])) [0..<6] = [bit b 4, bit b 5, bit b 6, bit b 7, bit a 0, bit a 1]"
  "map (bit (base64_group_b2 [a, b, c, d])) [0..<6] = [bit c 6, bit c 7, bit b 0, bit b 1, bit b 2, bit b 3]"
  "map (bit (base64_group_b3 [a, b, c, d])) [0..<6] = [bit c 0, bit c 1, bit c 2, bit c 3, bit c 4, bit c 5]"
  unfolding upt_6_8 by (simp_all add: base64_group_simps bit_simps)

lemma sextets_6:
  "sextets (a # b # c # d # e # f # ys) = horner_sum of_bool 2 [f, e, d, c, b, a] # sextets ys"
  "sextets [a, b] = [horner_sum of_bool 2 [False, False, False, False, b, a]]"
  "sextets [a, b, c, d] = [horner_sum of_bool 2 [False, False, d, c, b, a]]"
  by (simp_all add: numeral_eq_Suc)

lemmas base64_table_bits = base64_group_less [of "[a, b, c, d]" for a b c d, THEN base64_table_sextet, unfolded base64_sextet_bits]

lemma base64_ref_blocks: "base64_ref s = base64_blocks s"
proof (induction s rule: base64_blocks.induct)
  case (4 a b c s)
  have "base64_ref (a # b # c # s) = base64_chars [a, b, c, 0] 3 @ base64_ref s"
    unfolding base64_ref_def base64_chars_def base64_table_bits base64_bits8 list.map concat.simps append.simps sextets_6
    by simp
  with 4 show ?case by simp
next
  case (2 a) show ?case 
    unfolding base64_ref_def base64_blocks.simps base64_chars_def base64_table_bits base64_bits8 list.map concat.simps append.simps sextets_6
    by (simp add: numeral_2_eq_2)
next 
  case (3 a b) show ?case
    unfolding base64_ref_def base64_blocks.simps base64_chars_def base64_table_bits base64_bits8 list.map concat.simps append.simps sextets_6
    by simp
qed (simp add: base64_ref_def)

section \<open>Memory safety of the decoder on arbitrary text\<close>

lemma length_base64_rtable: "length base64_rtable = 256"
  by code_simp

lemma rd_rtable: "rd base64_rtable (unat (c :: u8)) = Some (base64_rtable ! unat c)"
proof -
  have "unat c < 256" using unsigned_less [of c] by simp
  then show ?thesis by (simp add: rd_def length_base64_rtable)
qed

lemma base64_decode_group_total:
  "q + 4 \<le> length src \<Longrightarrow> \<exists>g. base64_decode_group src q = Some g \<and> length g = 4"
  by (simp add: base64_decode_group_def rd_Some rd_rtable base64_group_reset_def Let_def)

lemma base64_decode_loop_total:
  assumes "0 \<notin> set s" "length s = 4 * m" "i \<le> m" "p + 3 * (m - i) \<le> length dst"
  shows "\<exists>dst'. base64_decode_loop (s @ 0 # t) (4 * i) dst p = Some (dst', p + 3 * (m - i))
           \<and> length dst' = length dst"
  using assms(3,4)
proof (induction "m - i" arbitrary: i dst p)
  case 0
  then show ?case
    using assms(2) by (subst base64_decode_loop.simps) (auto simp: rd_def nth_append)
next
  case (Suc k)
  then have i: "4 * i + 4 \<le> length s" using assms(2) by simp
  then obtain g where g: "base64_decode_group (s @ 0 # t) (4 * i) = Some g" "length g = 4"
    using base64_decode_group_total [of "4 * i" "s @ 0 # t"] by auto
  have c: "rd (s @ 0 # t) (4 * i) = Some (s ! (4 * i))" "s ! (4 * i) \<noteq> 0"
    using i assms(1) by (auto simp: rd_def nth_append in_set_conv_nth)
  have "p + 3 \<le> length dst" using Suc by linarith
  then have w: "wr_range dst p (take 3 g) = Some (take p dst @ take 3 g @ drop (p + 3) dst)"
    using g by (simp add: wr_range_def)
  have "\<exists>dst'. base64_decode_loop (s @ 0 # t) (4 * Suc i) (take p dst @ take 3 g @ drop (p + 3) dst) (p + 3)
      = Some (dst', p + 3 + 3 * (m - Suc i)) \<and> length dst' = length (take p dst @ take 3 g @ drop (p + 3) dst)"
    by (rule Suc.hyps) (use Suc.hyps(2) Suc.prems g in auto)
  then show ?case
    using g c w Suc.hyps(2) \<open>p + 3 \<le> length dst\<close>
    by (subst base64_decode_loop.simps) (auto simp: algebra_simps)
qed

lemma base64_decode_total:
  assumes "0 \<notin> set s" "s \<noteq> []" "length s = 4 * m" "length s < 2 ^ 31"
    and "malloc (3 * m + 1) = Some dst" "length dst = 3 * m + 1"
  shows "\<exists>r. base64_decode malloc (Some (s @ 0 # t)) = Some (Some r)"
proof -
  obtain c where c: "rd (s @ 0 # t) 0 = Some c" "c \<noteq> 0"
    using assms(1,2) by (cases s) auto
  obtain dst' where "base64_decode_loop (s @ 0 # t) 0 dst 0 = Some (dst', 3 * m)" "length dst' = length dst"
    using base64_decode_loop_total [OF assms(1,3), of 0 0 dst t] assms(6) by auto
  then show ?thesis
    using base64_decode_unfold [OF c, of "length s" malloc] assms by (simp add: wr_def mult.commute)
qed

section \<open>Properties\<close>

text \<open>C27. The encoder computes the Base64 text of its argument: the bit string of the input cut into
  sextets, each mapped to the alphabet, padded with \<^verbatim>\<open>=\<close> to a multiple of four characters and
  NUL-terminated, without leaving the block it allocated.\<close>

theorem base64_encode_correct:
  assumes "0 \<notin> set s" "malloc ((length s + 2) div 3 * 4 + 1) = Some dst"
    and "length dst = (length s + 2) div 3 * 4 + 1"
  shows "base64_encode malloc (s @ 0 # t) = Some (base64_ref s @ [0])"
  unfolding base64_ref_blocks using assms by (rule base64_encode_blocks)

theorem base64_encode_correct_witness:
  "base64_encode (\<lambda>n. Some (replicate n 0xcc)) (bytes_of_string ''Man!'' @ [0])
     = Some (bytes_of_string ''TWFuIQ=='' @ [0])"
proof -
  have "base64_ref (bytes_of_string ''Man!'') = bytes_of_string ''TWFuIQ==''" by code_simp
  then show ?thesis
    using base64_encode_correct [of "bytes_of_string ''Man!''" "\<lambda>n. Some (replicate n 0xcc)"
        "replicate 9 0xcc" "[]"] by simp
qed

text \<open>C10. Decoding what the encoder produced gives the text back, for every nonempty string whose
  encoding is shorter than 2^31 and an allocator that delivers blocks of the size asked for.\<close>

theorem base64_roundtrip:
  assumes "0 \<notin> set s" "s \<noteq> []" "(length s + 2) div 3 * 4 < 2 ^ 31"
    and "\<And>n. \<exists>d. malloc n = Some d \<and> length d = n"
  shows "\<exists>e d. base64_encode malloc (s @ 0 # t) = Some e \<and> base64_decode malloc (Some e) = Some (Some d)
           \<and> cstring d = Some s"
proof -
  obtain d1 where d1: "malloc ((length s + 2) div 3 * 4 + 1) = Some d1" "length d1 = (length s + 2) div 3 * 4 + 1"
    using assms(4) by blast
  obtain d2 where d2: "malloc ((length s + 2) div 3 * 3 + 1) = Some d2" "length d2 = (length s + 2) div 3 * 3 + 1"
    using assms(4) by blast
  show ?thesis
    using base64_encode_blocks [of s malloc d1 t, OF assms(1) d1] base64_decode_blocks [of s malloc d2 "[]", OF assms(2,3) d2]
      cstring_base64_pad [OF assms(1), of "[]"]
    by auto
qed

theorem base64_roundtrip_witness:
  "\<exists>e d. base64_encode (\<lambda>n. Some (replicate n 0xcc)) [0xff, 0xfe, 0x41, 0x42, 0] = Some e
     \<and> base64_decode (\<lambda>n. Some (replicate n 0xcc)) (Some e) = Some (Some d)
     \<and> cstring d = Some [0xff, 0xfe, 0x41, 0x42]"
  using base64_roundtrip [of "[0xff, 0xfe, 0x41, 0x42]" "\<lambda>n. Some (replicate n 0xcc)" "[]"] by simp

text \<open>The decoder never reads or writes outside its buffers, whatever characters the text has; it
  returns a null pointer exactly for the empty text and for a text whose length is not a multiple of
  four. So a character outside the alphabet is not an error.\<close>

theorem base64_decode_null_iff:
  assumes "0 \<notin> set s" "length s < 2 ^ 31" "\<And>n. \<exists>d. malloc n = Some d \<and> length d = n"
  shows "\<exists>r. base64_decode malloc (Some (s @ 0 # t)) = Some r \<and> (r = None \<longleftrightarrow> s = [] \<or> length s mod 4 \<noteq> 0)"
proof (cases "s = [] \<or> length s mod 4 \<noteq> 0")
  case True
  show ?thesis
  proof (cases s)
    case Nil
    then show ?thesis by (simp add: base64_decode_def)
  next
    case (Cons c s')
    then have "rd (s @ 0 # t) 0 = Some c" "c \<noteq> 0" using assms(1) by auto
    from base64_decode_unfold [OF this strlen_append_NUL [OF assms(1)] assms(2), of malloc] True Cons show ?thesis by simp
  qed
next
  case False
  define m where "m = length s div 4"
  have m: "length s = 4 * m" using False by (auto simp: m_def)
  obtain dst where "malloc (3 * m + 1) = Some dst" "length dst = 3 * m + 1"
    using assms(3) by blast
  with base64_decode_total [of s m malloc dst t] False assms(1,2) m show ?thesis by auto
qed

theorem base64_decode_null_iff_witness:
  "\<exists>r. base64_decode (\<lambda>n. Some (replicate n 0xcc)) (Some (bytes_of_string ''!?[]'' @ [0])) = Some (Some r)"
  using base64_decode_null_iff [of "bytes_of_string ''!?[]''" "\<lambda>n. Some (replicate n 0xcc)" "[]"] by auto

text \<open>The bit-field reading of a group that the test build uses is the shift-and-mask reading of the
  normal build, for every group.\<close>

theorem base64_group_RIGHT_eq:
  "base64_group_RIGHT_b0 g = base64_group_b0 g \<and> base64_group_RIGHT_b1 g = base64_group_b1 g
   \<and> base64_group_RIGHT_b2 g = base64_group_b2 g \<and> base64_group_RIGHT_b3 g = base64_group_b3 g"
proof -
  have mask: "take_bit 2 x = x AND 0x3" "take_bit 4 x = x AND 0xf" "take_bit 6 x = x AND 0x3f"
    for x :: u8
    by (simp_all add: take_bit_eq_mask mask_eq_exp_minus_1)
  have top: "drop_bit 2 x AND 0x3f = drop_bit 2 x" "drop_bit 4 x AND 0xf = drop_bit 4 x"
    "drop_bit 6 x AND 0x3 = drop_bit 6 x" for x :: u8
    by (simp_all add: u8_bits)
  show ?thesis
    by (simp only: base64_group_RIGHT_b0_def base64_group_RIGHT_b1_def base64_group_RIGHT_b2_def
        base64_group_RIGHT_b3_def base64_group_u_RIGHT_def bitfield_def base64_bits.simps mask top
        base64_group_b0_def base64_group_b1_def base64_group_b2_def base64_group_b3_def drop_bit_0 id_apply)
qed

end
