(* ===== verification/Buffers.thy ===== *)
theory Buffers
  imports Libc
begin

text \<open>
  The two ring buffers of \<^verbatim>\<open>trivial/\<close>: the block ring and the weight window built on it
  (\<^verbatim>\<open>ring_buffer.c\<close>), and the command buffer (\<^verbatim>\<open>cmd-buffer.c\<close>). The block ring keeps its blocks in one
  heap block: pointers are offsets into its bytes, so that blocks may overlap. Signed sums that leave
  the range of \<^verbatim>\<open>int\<close> are undefined.
\<close>

section \<open>ring_buffer.c\<close>

record ring_buffer_t =
  rdata :: "nat list"
  rsize :: nat
  rcapacity :: nat
  rblob :: "u8 list"

text \<open>
  \<^verbatim>\<open>ALIGN(x)\<close> is \<^verbatim>\<open>(((x)&~7U)+((x)&7U)?8U:0)\<close>: the conditional binds weaker than the sum, and
  \<^verbatim>\<open>~7U\<close> is a 32-bit value that is zero-extended.
\<close>

unbundle bit_operations_syntax

definition ALIGN :: "u64 \<Rightarrow> u64" where
  "ALIGN x = (if (x AND 0xfffffff8) + (x AND 7) \<noteq> 0 then 8 else 0)"

text \<open>The loop that fills the pointer array; storing \<^verbatim>\<open>data[i]\<close> needs the bytes \<open>8 * i..<8 * i + 8\<close>.\<close>

fun ring_buffer_fill :: "nat \<Rightarrow> u64 \<Rightarrow> nat \<Rightarrow> nat \<Rightarrow> nat \<Rightarrow> nat list option" where
  "ring_buffer_fill 0 block bytes i p = Some []"
| "ring_buffer_fill (Suc k) block bytes i p =
     (if 8 * i + 8 \<le> bytes
      then map_option ((#) p) (ring_buffer_fill k block bytes (i + 1) (p + unat (ALIGN block)))
      else None)"

definition ring_buffer_init :: "(nat \<Rightarrow> u8 list option) \<Rightarrow> u64 \<Rightarrow> u64 \<Rightarrow> ring_buffer_t option" where
  "ring_buffer_init malloc capacity block = do {
     let blob = (case malloc (unat (capacity * (8 + ALIGN block))) of None \<Rightarrow> [] | Some b \<Rightarrow> b);
     data \<leftarrow> ring_buffer_fill (unat capacity) block (length blob) 0 (unat capacity * 8);
     Some \<lparr>rdata = data, rsize = 0, rcapacity = unat capacity, rblob = blob\<rparr>
   }"

definition ring_buffer_rls :: "ring_buffer_t \<Rightarrow> ring_buffer_t" where
  "ring_buffer_rls self = \<lparr>rdata = [], rsize = 0, rcapacity = 0, rblob = []\<rparr>"

definition ring_advance :: "nat \<Rightarrow> nat \<Rightarrow> nat" where
  "ring_advance capacity i = (if i + 1 = capacity then 0 else i + 1)"

definition ring_buffer_get :: "ring_buffer_t \<Rightarrow> (nat \<times> ring_buffer_t) option" where
  "ring_buffer_get self = do {
     p \<leftarrow> rd (rdata self) (rsize self);
     Some (p, self\<lparr>rsize := ring_advance (rcapacity self) (rsize self)\<rparr>)
   }"

record weight_window_t =
  wsum :: int
  is_full :: bool
  wlength :: nat
  wbuffer :: ring_buffer_t

text \<open>The \<^verbatim>\<open>int\<close> object at a pointer, and the range check of a signed result.\<close>

definition load_int :: "u8 list \<Rightarrow> nat \<Rightarrow> int option" where
  "load_int blob p = map_option (\<lambda>bs. sint (of_le_bytes bs :: u32)) (rd_range blob p 4)"

definition store_int :: "u8 list \<Rightarrow> nat \<Rightarrow> int \<Rightarrow> u8 list option" where
  "store_int blob p v = wr_range blob p (le_bytes 4 (of_int v :: u32))"

definition int_ok :: "int \<Rightarrow> bool" where
  "int_ok v \<longleftrightarrow> - (2 ^ 31) \<le> v \<and> v < 2 ^ 31"

definition as_int :: "int \<Rightarrow> int option" where
  "as_int v = (if int_ok v then Some v else None)"

definition weight_window_init :: "(nat \<Rightarrow> u8 list option) \<Rightarrow> u64 \<Rightarrow> weight_window_t option" where
  "weight_window_init malloc len = do {
     b \<leftarrow> ring_buffer_init malloc len 4;
     Some \<lparr>wsum = 0, is_full = False, wlength = unat len, wbuffer = b\<rparr>
   }"

definition weight_window_rls :: "weight_window_t \<Rightarrow> weight_window_t" where
  "weight_window_rls self =
     \<lparr>wsum = 0, is_full = False, wlength = 0, wbuffer = ring_buffer_rls (wbuffer self)\<rparr>"

definition weight_window_is_full :: "weight_window_t \<Rightarrow> bool" where
  "weight_window_is_full self = is_full self"

definition weight_window_add_weight :: "weight_window_t \<Rightarrow> int \<Rightarrow> weight_window_t option" where
  "weight_window_add_weight self weight = do {
     (p, b) \<leftarrow> ring_buffer_get (wbuffer self);
     s \<leftarrow> as_int (wsum self + weight);
     self \<leftarrow>
       (if is_full self then do {
          old \<leftarrow> load_int (rblob b) p;
          s \<leftarrow> as_int (s - old);
          Some (self\<lparr>wsum := s, wbuffer := b\<rparr>)
        }
        else Some (self\<lparr>wsum := s, is_full := (rsize b = 0), wbuffer := b\<rparr>));
     blob \<leftarrow> store_int (rblob b) p weight;
     Some (self\<lparr>wbuffer := b\<lparr>rblob := blob\<rparr>\<rparr>)
   }"

text \<open>C division truncates towards zero; a zero divisor and the overflowing quotient are undefined.\<close>

definition cdiv :: "int \<Rightarrow> int \<Rightarrow> int option" where
  "cdiv a b = (if b = 0 then None else as_int (sgn a * sgn b * (\<bar>a\<bar> div \<bar>b\<bar>)))"

definition weight_window_average :: "weight_window_t \<Rightarrow> int option" where
  "weight_window_average self = cdiv (wsum self) (sint (of_nat (wlength self) :: u32))"

text \<open>\<^verbatim>\<open>main\<close>: the pairs it logs.\<close>

fun window_log :: "weight_window_t \<Rightarrow> int list \<Rightarrow> (int \<times> int) list option" where
  "window_log win [] = Some []"
| "window_log win (x # xs) = do {
     win \<leftarrow> weight_window_add_weight win x;
     avg \<leftarrow> (if is_full win then weight_window_average win else Some 0);
     rest \<leftarrow> window_log win xs;
     Some ((if weight_window_is_full win then 1 else 0, avg) # rest)
   }"

definition ring_buffer_main :: "(nat \<Rightarrow> u8 list option) \<Rightarrow> (int \<times> int) list option" where
  "ring_buffer_main malloc = do {
     win \<leftarrow> weight_window_init malloc 3;
     window_log win [-2055, -2065, -2070, -2070, -2070, -2070, -2070, -2070, -2070, -2070, -2070]
   }"

section \<open>cmd-buffer.c\<close>

text \<open>A command is a pointer; \<^term>\<open>None\<close> in a cell is the null pointer.\<close>

record 'a cmd_buffer_t =
  cmds :: "'a option list"
  nr :: nat
  nw :: nat

definition CMD_BUFFER_MAX_LEN :: nat where
  "CMD_BUFFER_MAX_LEN = 2"

definition cmd_buffer_new :: "nat \<Rightarrow> 'a cmd_buffer_t" where
  "cmd_buffer_new N = \<lparr>cmds = replicate N None, nr = 0, nw = 0\<rparr>"

definition MOVE_FORWARD :: "nat \<Rightarrow> nat \<Rightarrow> nat" where
  "MOVE_FORWARD N x = (if x + 1 = N then 0 else x + 1)"

text \<open>
  The result carries the command handed to \<^verbatim>\<open>destroy\<close>, if any; \<open>destroy\<close> tells whether the caller
  passed a destructor. The length \<open>N\<close> of the array is the compile-time constant of the source.
\<close>

definition cmd_buffer_offer :: "nat \<Rightarrow> 'a cmd_buffer_t \<Rightarrow> 'a \<Rightarrow> bool \<Rightarrow> ('a option \<times> 'a cmd_buffer_t) option" where
  "cmd_buffer_offer N self cmd destroy = do {
     old \<leftarrow> rd (cmds self) (nw self);
     cells \<leftarrow> wr (cmds self) (nw self) (Some cmd);
     let w = MOVE_FORWARD N (nw self);
     let r = (if nr self = w then MOVE_FORWARD N (nr self) else nr self);
     Some (if destroy then old else None, \<lparr>cmds = cells, nr = r, nw = w\<rparr>)
   }"

definition cmd_buffer_poll :: "nat \<Rightarrow> 'a cmd_buffer_t \<Rightarrow> ('a option \<times> 'a cmd_buffer_t) option" where
  "cmd_buffer_poll N self = do {
     c \<leftarrow> rd (cmds self) (nr self);
     case c of
       None \<Rightarrow> Some (None, self)
     | Some cmd \<Rightarrow> do {
         cells \<leftarrow> wr (cmds self) (nr self) None;
         Some (Some cmd, self\<lparr>cmds := cells, nr := MOVE_FORWARD N (nr self)\<rparr>)
       }
   }"

definition cmd_buffer_destroy :: "'a cmd_buffer_t \<Rightarrow> 'a cmd_buffer_t" where
  "cmd_buffer_destroy self = \<lparr>cmds = replicate (length (cmds self)) None, nr = 0, nw = 0\<rparr>"

fun cmd_offer_all :: "nat \<Rightarrow> 'a cmd_buffer_t \<Rightarrow> 'a list \<Rightarrow> 'a cmd_buffer_t option" where
  "cmd_offer_all N b [] = Some b"
| "cmd_offer_all N b (x # xs) = do {
     (_, b) \<leftarrow> cmd_buffer_offer N b x False;
     cmd_offer_all N b xs
   }"

text \<open>
  The polling loop ends because every successful poll clears a cell; the number of occupied cells
  is its measure.
\<close>

definition cmd_occupied :: "'a cmd_buffer_t \<Rightarrow> nat" where
  "cmd_occupied b = length (filter (\<lambda>c. c \<noteq> None) (cmds b))"

lemma filter_clear_shrinks:
  "i < length xs \<Longrightarrow> xs ! i \<noteq> None \<Longrightarrow>
     length (filter (\<lambda>c. c \<noteq> None) (xs[i := None])) < length (filter (\<lambda>c. c \<noteq> None) xs)"
  by (induction xs arbitrary: i) (auto simp: nth_Cons split: nat.splits)

lemma cmd_buffer_poll_shrinks:
  assumes "cmd_buffer_poll N b = Some (Some c, b')"
  shows "cmd_occupied b' < cmd_occupied b"
  using assms filter_clear_shrinks [of "nr b" "cmds b"]
  by (auto simp: cmd_buffer_poll_def cmd_occupied_def Option.bind_eq_Some_conv rd_eq_Some_iff
      wr_eq_Some_iff split: option.splits)

function cmd_poll_all :: "nat \<Rightarrow> 'a cmd_buffer_t \<Rightarrow> 'a list option" where
  "cmd_poll_all N b =
     (case cmd_buffer_poll N b of
        None \<Rightarrow> None
      | Some (None, _) \<Rightarrow> Some []
      | Some (Some c, b') \<Rightarrow> map_option ((#) c) (cmd_poll_all N b'))"
  by pat_completeness auto
termination
  by (relation "measure (\<lambda>(N, b). cmd_occupied b)") (auto dest: cmd_buffer_poll_shrinks)

declare cmd_poll_all.simps [simp del]

definition cmd_buffer_main :: "int list option" where
  "cmd_buffer_main = do {
     b \<leftarrow> cmd_offer_all CMD_BUFFER_MAX_LEN (cmd_buffer_new CMD_BUFFER_MAX_LEN) [1, 2, 3, 4, 5];
     cmd_poll_all CMD_BUFFER_MAX_LEN b
   }"

section \<open>The ring\<close>

interpretation ring: ring_index "ring_advance N" N for N
  by unfold_locales (simp_all add: ring_advance_def)

lemma ALIGN_eq: "ALIGN x = (if take_bit 32 x = 0 then 0 else 8)"
proof -
  have "(x AND 0xfffffff8) + (x AND 7) = (x AND 0xfffffff8) OR (x AND 7)"
    by (rule disjunctive_add_eq_or) (simp add: and.assoc and.left_commute)
  also have "\<dots> = x AND 0xffffffff"
    by (simp flip: bit.conj_disj_distrib)
  also have "\<dots> = take_bit 32 x"
    by (simp add: take_bit_eq_mask mask_eq_exp_minus_1)
  finally show ?thesis by (simp add: ALIGN_def)
qed

lemma ring_buffer_fill_eq:
  "8 * (i + k) \<le> bytes \<Longrightarrow>
   ring_buffer_fill k block bytes i p = Some (map (\<lambda>j. p + unat (ALIGN block) * j) [0..<k])"
proof (induction k arbitrary: i p)
  case (Suc k)
  have "map (\<lambda>j. p + unat (ALIGN block) * j) [0..<Suc k]
      = p # map (\<lambda>j. p + unat (ALIGN block) + unat (ALIGN block) * j) [0..<k]"
    by (simp add: upt_conv_Cons map_Suc_upt [symmetric] add.assoc del: upt_Suc)
  with Suc show ?case by (simp add: add.assoc)
qed simp

lemma ring_buffer_init_eq:
  assumes "take_bit 32 block \<noteq> 0" "16 * unat capacity < 2 ^ 64"
    and "malloc (16 * unat capacity) = Some blob" "length blob = 16 * unat capacity"
  shows "ring_buffer_init malloc capacity block =
    Some \<lparr>rdata = map (\<lambda>j. 8 * unat capacity + 8 * j) [0..<unat capacity], rsize = 0,
          rcapacity = unat capacity, rblob = blob\<rparr>"
proof -
  have "unat (capacity * (8 + ALIGN block)) = 16 * unat capacity"
    using assms(1,2) by (simp add: ALIGN_eq unat_word_ariths mult.commute)
  then show ?thesis
    using assms ring_buffer_fill_eq [of 0 "unat capacity" "length blob" block "unat capacity * 8"]
    by (simp add: ring_buffer_init_def ALIGN_eq Let_def mult.commute)
qed

lemma load_store_same:
  assumes "store_int blob p v = Some blob'" "int_ok v"
  shows "load_int blob' p = Some v"
proof -
  have "sint (of_int v :: u32) = v"
    using assms(2) by (simp add: int_ok_def signed_of_int signed_take_bit_int_eq_self)
  then show ?thesis
    using rd_range_wr_range [OF assms(1) [unfolded store_int_def]] by (simp add: load_int_def)
qed

lemma load_store_other:
  assumes "store_int blob p v = Some blob'" "p + 4 \<le> q \<or> q + 4 \<le> p"
  shows "load_int blob' q = load_int blob q"
  using rd_range_wr_range_other [OF assms(1) [unfolded store_int_def], of q 4] assms(2)
  by (auto simp: load_int_def)

section \<open>The weight window keeps the last weights\<close>

definition win_inv :: "nat \<Rightarrow> weight_window_t \<Rightarrow> int list \<Rightarrow> bool" where
  "win_inv n win ws \<longleftrightarrow>
     0 < n \<and> wlength win = n \<and> rcapacity (wbuffer win) = n
     \<and> rdata (wbuffer win) = map (\<lambda>j. 8 * n + 8 * j) [0..<n]
     \<and> length (rblob (wbuffer win)) = 16 * n
     \<and> rsize (wbuffer win) = length ws mod n
     \<and> (is_full win \<longleftrightarrow> n \<le> length ws)
     \<and> wsum win = sum_list (drop (length ws - n) ws)
     \<and> (\<forall>j < length ws. length ws \<le> j + n \<longrightarrow>
          load_int (rblob (wbuffer win)) (8 * n + 8 * (j mod n)) = Some (ws ! j))"

lemma win_inv_add:
  assumes inv: "win_inv n win ws" and w: "int_ok w" "int_ok (wsum win + w)"
    and s: "int_ok (sum_list (drop (length (ws @ [w]) - n) (ws @ [w])))"
  shows "\<exists>win'. weight_window_add_weight win w = Some win' \<and> win_inv n win' (ws @ [w])"
proof -
  let ?b = "wbuffer win" and ?i = "length ws mod n"
  have n: "0 < n" and i: "?i < n" using inv by (auto simp: win_inv_def)
  have get: "ring_buffer_get ?b = Some (8 * n + 8 * ?i, ?b\<lparr>rsize := length (ws @ [w]) mod n\<rparr>)"
    using inv i ring.adv_mod [OF i] by (simp add: ring_buffer_get_def win_inv_def rd_Some mod_Suc_eq)
  have "8 * n + 8 * ?i + 4 \<le> length (rblob ?b)" using inv i by (simp add: win_inv_def)
  then obtain blob where st: "store_int (rblob ?b) (8 * n + 8 * ?i) w = Some blob"
    by (simp add: store_int_def wr_range_def)
  have len: "length blob = 16 * n"
    using length_wr_range [OF st [unfolded store_int_def]] inv by (simp add: win_inv_def)
  have full: "(Suc (length ws) mod n = 0) = (n \<le> Suc (length ws))" if "length ws < n"
    using that by (cases "Suc (length ws) = n") auto
  have cells: "load_int blob (8 * n + 8 * (j mod n)) = Some ((ws @ [w]) ! j)"
    if "j < length (ws @ [w])" "length (ws @ [w]) \<le> j + n" for j
  proof (cases "j = length ws")
    case True
    with load_store_same [OF st w(1)] show ?thesis by simp
  next
    case False
    then have j: "j < length ws" "length ws < j + n" using that by auto
    then have "\<not> n dvd length ws - j" by (auto dest: dvd_imp_le)
    then have "j mod n \<noteq> ?i" using j by (metis less_imp_le mod_eq_dvd_iff_nat)
    then have "8 * n + 8 * ?i + 4 \<le> 8 * n + 8 * (j mod n) \<or> 8 * n + 8 * (j mod n) + 4 \<le> 8 * n + 8 * ?i"
      by linarith
    from load_store_other [OF st this] j inv show ?thesis by (simp add: win_inv_def nth_append)
  qed
  show ?thesis
  proof (cases "length ws < n")
    case True
    let ?win = "win\<lparr>wsum := wsum win + w, is_full := (Suc (length ws) mod n = 0),
       wbuffer := ?b\<lparr>rsize := length (ws @ [w]) mod n, rblob := blob\<rparr>\<rparr>"
    have "weight_window_add_weight win w = Some ?win"
      using get st w True inv by (simp add: weight_window_add_weight_def as_int_def win_inv_def)
    moreover have "win_inv n ?win (ws @ [w])"
      using inv True full len cells by (simp add: win_inv_def)
    ultimately show ?thesis by blast
  next
    case False
    let ?old = "ws ! (length ws - n)"
    have old: "load_int (rblob ?b) (8 * n + 8 * ?i) = Some ?old"
      using inv False n by (auto simp: win_inv_def le_mod_geq dest!: spec [of _ "length ws - n"])
    have "drop (length ws - n) ws = ?old # drop (Suc (length ws - n)) ws"
      using False n by (intro Cons_nth_drop_Suc [symmetric]) linarith
    then have sum: "wsum win + w - ?old = sum_list (drop (length (ws @ [w]) - n) (ws @ [w]))"
      using inv False n by (simp add: win_inv_def Suc_diff_le)
    let ?win = "win\<lparr>wsum := wsum win + w - ?old,
       wbuffer := ?b\<lparr>rsize := length (ws @ [w]) mod n, rblob := blob\<rparr>\<rparr>"
    have "weight_window_add_weight win w = Some ?win"
    proof -
      have "is_full win" "int_ok (wsum win + w - ?old)"
        using inv False s sum by (simp_all only: win_inv_def not_less)
      with get st w(2) old show ?thesis by (simp add: weight_window_add_weight_def as_int_def)
    qed
    moreover have "win_inv n ?win (ws @ [w])"
      using inv False len cells sum by (simp add: win_inv_def)
    ultimately show ?thesis by blast
  qed
qed


fun weight_window_adds :: "weight_window_t \<Rightarrow> int list \<Rightarrow> weight_window_t option" where
  "weight_window_adds win [] = Some win"
| "weight_window_adds win (w # ws) = do {
     win \<leftarrow> weight_window_add_weight win w;
     weight_window_adds win ws
   }"

lemma sum_list_bound:
  fixes xs :: "int list"
  assumes "\<forall>x\<in>set xs. \<bar>x\<bar> \<le> B" "length xs \<le> n" "0 \<le> B"
  shows "\<bar>sum_list xs\<bar> \<le> int n * B"
proof -
  have "\<bar>sum_list xs\<bar> \<le> int (length xs) * B"
    using assms(1) by (induction xs) (auto simp: algebra_simps)
  also have "\<dots> \<le> int n * B" using assms(2,3) by (simp add: mult_right_mono)
  finally show ?thesis .
qed

lemma win_inv_adds:
  assumes "win_inv n win ws" "\<forall>x\<in>set (ws @ vs). \<bar>x\<bar> \<le> B" "int (n + 1) * B < 2 ^ 31" "0 \<le> B"
  shows "\<exists>win'. weight_window_adds win vs = Some win' \<and> win_inv n win' (ws @ vs)"
  using assms(1,2)
proof (induction vs arbitrary: win ws)
  case (Cons v vs)
  have small: "int_ok s" if "\<bar>s\<bar> \<le> int (n + 1) * B" for s
    using that assms(3) by (auto simp: int_ok_def)
  have last: "\<bar>sum_list (drop (length xs - n) xs)\<bar> \<le> int n * B" if "\<forall>x\<in>set xs. \<bar>x\<bar> \<le> B" for xs
    using that assms(4) by (intro sum_list_bound) (auto dest: in_set_dropD)
  have v: "\<bar>v\<bar> \<le> B" and n: "0 \<le> int n * B" using Cons.prems assms(4) by auto
  have "wsum win = sum_list (drop (length ws - n) ws)" using Cons.prems(1) by (simp add: win_inv_def)
  then have "\<bar>wsum win\<bar> \<le> int n * B" using last [of ws] Cons.prems(2) by simp
  then have "int_ok (wsum win + v)" "int_ok v" using v n by (intro small, simp add: algebra_simps)+
  moreover have "int_ok (sum_list (drop (length (ws @ [v]) - n) (ws @ [v])))"
    using last [of "ws @ [v]"] Cons.prems(2) assms(4) by (intro small) (simp add: algebra_simps)
  ultimately obtain win1 where win1: "weight_window_add_weight win v = Some win1" "win_inv n win1 (ws @ [v])"
    using win_inv_add [OF Cons.prems(1)] by blast
  with Cons.IH [OF win1(2)] Cons.prems(2) show ?case by simp
qed simp

lemma cdiv_trunc:
  assumes "0 < n" "\<bar>s\<bar> < 2 ^ 31"
  shows "cdiv s (int n) = Some (sgn s * (\<bar>s\<bar> div int n))"
proof -
  have "\<bar>s\<bar> div int n \<le> \<bar>s\<bar>" "0 \<le> \<bar>s\<bar> div int n"
    using assms(1) zdiv_mono2 [of "\<bar>s\<bar>" 1 "int n"] by (simp_all add: pos_imp_zdiv_nonneg_iff)
  then have "int_ok (sgn s * (\<bar>s\<bar> div int n))"
    using assms(2) by (cases "0 < s"; cases "s = 0") (auto simp: int_ok_def)
  then show ?thesis using assms(1) by (simp add: cdiv_def as_int_def)
qed

section \<open>The command buffer is a lossy queue\<close>

interpretation fwd: ring_index "MOVE_FORWARD N" N for N
  by unfold_locales (simp_all add: MOVE_FORWARD_def)

text \<open>
  \<open>q\<close> are the commands between the read and the write index; \<open>s\<close> is what is left in the cell at the
  write index: a command that was skipped by an overflow.
\<close>

definition cmd_inv :: "nat \<Rightarrow> 'a cmd_buffer_t \<Rightarrow> 'a list \<Rightarrow> 'a option \<Rightarrow> bool" where
  "cmd_inv N b q s \<longleftrightarrow>
     2 \<le> N \<and> length q < N \<and> nr b < N \<and> nw b = (nr b + length q) mod N \<and> length (cmds b) = N
     \<and> (\<forall>i < N. cmds b ! ((nr b + i) mod N) =
          (if i < length q then Some (q ! i) else if i = length q then s else None))"

lemma cmd_inv_new: "2 \<le> N \<Longrightarrow> cmd_inv N (cmd_buffer_new N) [] None"
  by (simp add: cmd_inv_def cmd_buffer_new_def)

lemma ring_pos_eq_iff:
  assumes "i < N" "j < N"
  shows "(r + i) mod N = (r + j) mod N \<longleftrightarrow> i = (j :: nat)"
proof
  assume "(r + i) mod N = (r + j) mod N"
  then have "i mod N = j mod N" by (simp add: mod_add_cong nat_mod_eq_iff)
  then show "i = j" using assms by simp
qed simp

lemma ring_wrap: "Suc i = N \<Longrightarrow> Suc (r + i) mod N = r mod N" "Suc i = N \<Longrightarrow> Suc (i + r) mod N = r mod N"
  by (metis add_Suc_right mod_add_self2) (metis add_Suc mod_add_self1)

lemma cmd_inv_cells:
  assumes "cmd_inv N b q s" "i < N"
  shows "cmds b ! ((nr b + i) mod N) =
    (if i < length q then Some (q ! i) else if i = length q then s else None)"
  using assms by (simp add: cmd_inv_def)

lemma cmd_offer_step:
  assumes inv: "cmd_inv N b q s"
  defines "w \<equiv> (nr b + length q) mod N"
  shows "cmd_buffer_offer N b c d = Some (if d then s else None,
           \<lparr>cmds = (cmds b)[w := Some c],
            nr = (if length q + 1 < N then nr b else (nr b + 1) mod N), nw = (nr b + length q + 1) mod N\<rparr>)"
proof -
  have N: "0 < N" "nr b < N" "length q < N" using inv by (auto simp: cmd_inv_def)
  then have w: "w < N" "MOVE_FORWARD N w = (nr b + length q + 1) mod N" "MOVE_FORWARD N (nr b) = (nr b + 1) mod N"
    by (simp_all add: w_def fwd.adv_mod mod_Suc_eq)
  have "nr b = (nr b + length q + 1) mod N \<longleftrightarrow> \<not> length q + 1 < N"
  proof (cases "length q + 1 < N")
    case True
    then show ?thesis using ring_pos_eq_iff [of 0 N "length q + 1" "nr b"] N by (simp add: add.assoc)
  next
    case False
    then have "length q + 1 = N" using N by simp
    then show ?thesis using N by (simp add: ring_wrap)
  qed
  moreover have "rd (cmds b) w = Some s"
    using cmd_inv_cells [OF inv N(3)] inv w(1) by (simp add: cmd_inv_def rd_def w_def)
  ultimately show ?thesis
    using inv w by (simp add: cmd_buffer_offer_def cmd_inv_def wr_def Let_def w_def)
qed

lemma cmd_buffer_offer_room:
  assumes inv: "cmd_inv N b q s" and room: "length q + 1 < N"
  shows "\<exists>b'. cmd_buffer_offer N b c d = Some (if d then s else None, b') \<and> cmd_inv N b' (q @ [c]) None"
proof -
  let ?b = "\<lparr>cmds = (cmds b)[(nr b + length q) mod N := Some c], nr = nr b, nw = (nr b + length q + 1) mod N\<rparr>"
  have "cmds ?b ! ((nr b + i) mod N) = (if i < length (q @ [c]) then Some ((q @ [c]) ! i) else None)" if i: "i < N" for i
    using cmd_inv_cells [OF inv i] ring_pos_eq_iff [of i N "length q" "nr b"] i room inv
    by (auto simp: nth_list_update nth_append cmd_inv_def)
  then have "cmd_inv N ?b (q @ [c]) None"
    using inv room by (simp add: cmd_inv_def add.assoc)
  then show ?thesis using cmd_offer_step [OF inv, of c d] room by auto
qed

lemma cmd_buffer_offer_full:
  assumes inv: "cmd_inv N b (x # q) s" and full: "length (x # q) + 1 = N"
  shows "\<exists>b'. cmd_buffer_offer N b c d = Some (if d then s else None, b') \<and> cmd_inv N b' (q @ [c]) (Some x)"
proof -
  let ?b = "\<lparr>cmds = (cmds b)[(nr b + length (x # q)) mod N := Some c], nr = (nr b + 1) mod N,
    nw = (nr b + length (x # q) + 1) mod N\<rparr>"
  have "cmds ?b ! (((nr b + 1) mod N + i) mod N) =
      (if i < length (q @ [c]) then Some ((q @ [c]) ! i) else if i = length (q @ [c]) then Some x else None)"
    if i: "i < N" for i
  proof (cases "i + 1 < N")
    case True
    have "((nr b + 1) mod N + i) mod N = (nr b + (i + 1)) mod N" by (simp add: mod_simps ac_simps)
    with cmd_inv_cells [OF inv True] ring_pos_eq_iff [of "i + 1" N "length (x # q)" "nr b"] True full inv
    show ?thesis by (auto simp: nth_list_update nth_append cmd_inv_def)
  next
    case False
    with i have "i + 1 = N" by simp
    then have "((nr b + 1) mod N + i) mod N = (nr b + 0) mod N" by (simp add: mod_simps ring_wrap)
    with cmd_inv_cells [OF inv, of 0] ring_pos_eq_iff [of 0 N "length (x # q)" "nr b"] \<open>i + 1 = N\<close> full inv
    show ?thesis by (auto simp: nth_list_update nth_append cmd_inv_def)
  qed
  moreover have "nw ?b = (nr ?b + length (q @ [c])) mod N"
    using mod_add_left_eq [of "nr b + 1" N "length q + 1"] by simp
  ultimately have "cmd_inv N ?b (q @ [c]) (Some x)"
    using inv full by (simp add: cmd_inv_def)
  then show ?thesis using cmd_offer_step [OF inv, of c d] full by auto
qed

lemma cmd_buffer_poll_Cons:
  assumes inv: "cmd_inv N b (x # q) s"
  shows "\<exists>b'. cmd_buffer_poll N b = Some (Some x, b') \<and> cmd_inv N b' q s"
proof -
  have N: "0 < N" "nr b < N" using inv by (auto simp: cmd_inv_def)
  let ?b = "b\<lparr>cmds := (cmds b)[nr b := None], nr := (nr b + 1) mod N\<rparr>"
  have c0: "cmds b ! nr b = Some x" using cmd_inv_cells [OF inv N(1)] N by simp
  have "cmds ?b ! (((nr b + 1) mod N + i) mod N) = (if i < length q then Some (q ! i) else if i = length q then s else None)"
    if i: "i < N" for i
  proof (cases "i + 1 < N")
    case True
    have "((nr b + 1) mod N + i) mod N = (nr b + (i + 1)) mod N" by (simp add: mod_simps ac_simps)
    with cmd_inv_cells [OF inv True] ring_pos_eq_iff [of "i + 1" N 0 "nr b"] True inv
    show ?thesis by (auto simp: nth_list_update cmd_inv_def)
  next
    case False
    with i have "i + 1 = N" by simp
    then have "((nr b + 1) mod N + i) mod N = nr b" using N by (simp add: mod_simps ring_wrap)
    with \<open>i + 1 = N\<close> inv show ?thesis by (auto simp: cmd_inv_def)
  qed
  moreover have "nw ?b = (nr ?b + length q) mod N"
    using inv mod_add_left_eq [of "nr b + 1" N "length q"] by (simp add: cmd_inv_def)
  ultimately have "cmd_inv N ?b q s" using inv by (simp add: cmd_inv_def)
  moreover have "cmd_buffer_poll N b = Some (Some x, ?b)"
    using c0 inv N by (simp add: cmd_buffer_poll_def rd_def wr_def cmd_inv_def fwd.adv_mod)
  ultimately show ?thesis by blast
qed


lemma cmd_buffer_poll_stale:
  assumes inv: "cmd_inv N b [] (Some x)"
  shows "\<exists>b' b''. cmd_buffer_poll N b = Some (Some x, b') \<and> cmd_buffer_poll N b' = Some (None, b'')"
proof -
  have N: "1 < N" "nr b < N" using inv by (auto simp: cmd_inv_def)
  have "cmds b ! nr b = Some x" using cmd_inv_cells [OF inv, of 0] N by simp
  moreover have "cmds b ! ((nr b + 1) mod N) = None" using cmd_inv_cells [OF inv N(1)] by simp
  moreover have "(nr b + 1) mod N \<noteq> nr b" using ring_pos_eq_iff [of 1 N 0 "nr b"] N by simp
  ultimately show ?thesis
    using inv N by (simp add: cmd_buffer_poll_def rd_def wr_def cmd_inv_def fwd.adv_mod)
qed

lemma cmd_poll_all_inv:
  "cmd_inv N b q s \<Longrightarrow> cmd_poll_all N b = Some (q @ (case s of None \<Rightarrow> [] | Some x \<Rightarrow> [x]))"
proof (induction q arbitrary: b)
  case Nil
  show ?case
  proof (cases s)
    case None
    with cmd_inv_cells [OF Nil, of 0] Nil have "cmd_buffer_poll N b = Some (None, b)"
      by (simp add: cmd_buffer_poll_def rd_def cmd_inv_def)
    with None show ?thesis by (subst cmd_poll_all.simps) simp
  next
    case (Some x)
    then obtain b' b'' where p: "cmd_buffer_poll N b = Some (Some x, b')" "cmd_buffer_poll N b' = Some (None, b'')"
      using cmd_buffer_poll_stale [of N b x] Nil by blast
    then have "cmd_poll_all N b' = Some []" by (subst cmd_poll_all.simps) simp
    with p Some show ?thesis by (subst cmd_poll_all.simps) simp
  qed
next
  case (Cons x q)
  obtain b' where "cmd_buffer_poll N b = Some (Some x, b')" "cmd_inv N b' q s"
    using cmd_buffer_poll_Cons [OF Cons.prems] by blast
  with Cons.IH show ?case by (subst cmd_poll_all.simps) simp
qed

lemma cmd_offer_all_snoc:
  "cmd_offer_all N b (xs @ [x]) = do {
     b \<leftarrow> cmd_offer_all N b xs;
     (_, b) \<leftarrow> cmd_buffer_offer N b x False;
     Some b
   }"
  by (induction xs arbitrary: b) (auto simp: Option.bind_assoc split_def)

lemma cmd_offer_all_inv:
  assumes "2 \<le> N"
  shows "\<exists>b. cmd_offer_all N (cmd_buffer_new N) xs = Some b
     \<and> cmd_inv N b (drop (length xs - (N - 1)) xs) (if N \<le> length xs then Some (xs ! (length xs - N)) else None)"
proof (induction xs rule: rev_induct)
  case Nil
  then show ?case using assms by (simp add: cmd_inv_new)
next
  case (snoc x xs)
  let ?q = "drop (length xs - (N - 1)) xs"
  obtain b s where b: "cmd_offer_all N (cmd_buffer_new N) xs = Some b" "cmd_inv N b ?q s"
    using snoc.IH by blast
  show ?case
  proof (cases "length xs + 1 < N")
    case True
    with cmd_buffer_offer_room [OF b(2), of x False] b(1) assms show ?thesis
      by (auto simp: cmd_offer_all_snoc)
  next
    case False
    then have pos: "length xs - (N - 1) < length xs" "length xs - (N - 1) = length xs + 1 - N"
      using assms by linarith+
    then have q: "?q = xs ! (length xs + 1 - N) # drop (Suc (length xs + 1 - N)) xs"
      using Cons_nth_drop_Suc by metis
    have "Suc (length xs + 1 - N) = length (xs @ [x]) - (N - 1)" using False assms by simp
    moreover have "length ?q + 1 = N" using False assms by simp
    then obtain b' where "cmd_buffer_offer N b x False = Some (None, b')"
      "cmd_inv N b' (drop (Suc (length xs + 1 - N)) xs @ [x]) (Some (xs ! (length xs + 1 - N)))"
      using cmd_buffer_offer_full [OF b(2) [unfolded q], of x False] unfolding q by auto
    ultimately show ?thesis
      using False b(1) assms pos by (simp add: cmd_offer_all_snoc nth_append)
  qed
qed


section \<open>Interface: a queue with limited room\<close>

text \<open>
  What a client of a queue relies on: within \<open>room\<close> elements an offer appends, a poll takes from the
  front, and polling the empty queue delivers nothing.
\<close>

datatype 'a queue_op = Offer 'a | Poll

fun queue_run :: "'a list \<Rightarrow> 'a queue_op list \<Rightarrow> 'a option list" where
  "queue_run q [] = []"
| "queue_run q (Offer x # ops) = queue_run (q @ [x]) ops"
| "queue_run [] (Poll # ops) = None # queue_run [] ops"
| "queue_run (x # q) (Poll # ops) = Some x # queue_run q ops"

fun queue_fits :: "nat \<Rightarrow> nat \<Rightarrow> 'a queue_op list \<Rightarrow> bool" where
  "queue_fits room k [] = True"
| "queue_fits room k (Offer x # ops) = (k < room \<and> queue_fits room (k + 1) ops)"
| "queue_fits room k (Poll # ops) = queue_fits room (k - 1) ops"

fun run_ops ::
  "('s \<Rightarrow> 'a \<Rightarrow> 's option) \<Rightarrow> ('s \<Rightarrow> ('a option \<times> 's) option) \<Rightarrow> 's \<Rightarrow> 'a queue_op list \<Rightarrow> 'a option list option" where
  "run_ops offer poll s [] = Some []"
| "run_ops offer poll s (Offer x # ops) = do {
     s \<leftarrow> offer s x;
     run_ops offer poll s ops
   }"
| "run_ops offer poll s (Poll # ops) = do {
     (r, s) \<leftarrow> poll s;
     rs \<leftarrow> run_ops offer poll s ops;
     Some (r # rs)
   }"

locale fifo_queue =
  fixes inv :: "'s \<Rightarrow> 'a list \<Rightarrow> bool"
    and offer :: "'s \<Rightarrow> 'a \<Rightarrow> 's option"
    and poll :: "'s \<Rightarrow> ('a option \<times> 's) option"
    and room :: nat
  assumes offer_room: "inv s q \<Longrightarrow> length q < room \<Longrightarrow> \<exists>s'. offer s x = Some s' \<and> inv s' (q @ [x])"
    and poll_front: "inv s (x # q) \<Longrightarrow> \<exists>s'. poll s = Some (Some x, s') \<and> inv s' q"
    and poll_nothing: "inv s [] \<Longrightarrow> \<exists>s'. poll s = Some (None, s') \<and> inv s' []"
begin

text \<open>However offers and polls are interleaved, elements come out in the order they went in.\<close>

lemma run_refines:
  "inv s q \<Longrightarrow> queue_fits room (length q) ops \<Longrightarrow> run_ops offer poll s ops = Some (queue_run q ops)"
proof (induction q ops arbitrary: s rule: queue_run.induct)
  case (2 q x ops)
  then obtain s' where "offer s x = Some s'" "inv s' (q @ [x])" using offer_room by fastforce
  with 2 show ?case by simp
next
  case (3 ops)
  with poll_nothing [OF 3(2)] show ?case by auto
next
  case (4 x q ops)
  with poll_front [OF 4(2)] show ?case by auto
qed simp

end

lemma cmd_poll_nothing: "cmd_inv N b [] None \<Longrightarrow> cmd_buffer_poll N b = Some (None, b)"
  using cmd_inv_cells [of N b "[]" None 0] by (simp add: cmd_buffer_poll_def rd_def cmd_inv_def)

interpretation cmdq: fifo_queue "\<lambda>b q. cmd_inv N b q None" "\<lambda>b x. map_option snd (cmd_buffer_offer N b x d)"
  "cmd_buffer_poll N" "N - 1" for N d
proof
  show "\<exists>s'. map_option snd (cmd_buffer_offer N s x d) = Some s' \<and> cmd_inv N s' (q @ [x]) None"
    if "cmd_inv N s q None" "length q < N - 1" for s q x
    using cmd_buffer_offer_room [OF that(1), of x d] that(2) by fastforce
  show "\<exists>s'. cmd_buffer_poll N s = Some (Some x, s') \<and> cmd_inv N s' q None"
    if "cmd_inv N s (x # q) None" for s x q
    using cmd_buffer_poll_Cons [OF that] .
  show "\<exists>s'. cmd_buffer_poll N s = Some (None, s') \<and> cmd_inv N s' [] None" if "cmd_inv N s [] None" for s
    using cmd_poll_nothing [OF that] that by blast
qed

section \<open>Properties\<close>

text \<open>C26. After any sequence of weights the window holds the sum of the last \<open>len\<close> of them, reports
  itself full exactly when it has seen that many, and the average is the quotient rounded towards
  zero; no access leaves the heap block and no sum overflows, for weights bounded by \<open>B\<close> with
  \<open>(len + 1) * B < 2^31\<close>.\<close>

theorem weight_window_correct:
  assumes "0 < unat len" "unat len < 2 ^ 31"
    and "malloc (16 * unat len) = Some blob" "length blob = 16 * unat len"
    and "\<forall>x\<in>set ws. \<bar>x\<bar> \<le> B" "int (unat len + 1) * B < 2 ^ 31" "0 \<le> B"
    and "s = sum_list (drop (length ws - unat len) ws)"
  shows "\<exists>w0 win. weight_window_init malloc len = Some w0 \<and> weight_window_adds w0 ws = Some win
     \<and> wsum win = s \<and> (weight_window_is_full win \<longleftrightarrow> unat len \<le> length ws)
     \<and> weight_window_average win = Some (sgn s * (\<bar>s\<bar> div int (unat len)))"
proof -
  let ?n = "unat len"
  let ?w0 = "\<lparr>wsum = 0, is_full = False, wlength = ?n, wbuffer =
      \<lparr>rdata = map (\<lambda>j. 8 * ?n + 8 * j) [0..<?n], rsize = 0, rcapacity = ?n, rblob = blob\<rparr>\<rparr>"
  have "take_bit 32 (4 :: u64) \<noteq> 0" by simp
  from ring_buffer_init_eq [of 4 len malloc blob, OF this] assms(2-4)
  have w0: "weight_window_init malloc len = Some ?w0" by (simp add: weight_window_init_def)
  have "win_inv ?n ?w0 []" using assms(1,4) by (simp add: win_inv_def)
  from win_inv_adds [OF this _ assms(6,7), of ws] assms(5) obtain win where
    win: "weight_window_adds ?w0 ws = Some win" "win_inv ?n win ws" by auto
  have "\<bar>s\<bar> \<le> int ?n * B"
    unfolding assms(8) using assms(5,7) by (intro sum_list_bound) (auto dest: in_set_dropD)
  also have "\<dots> \<le> int (?n + 1) * B" using assms(7) by (simp add: algebra_simps)
  finally have "\<bar>s\<bar> < 2 ^ 31" using assms(6) by linarith
  from cdiv_trunc [OF assms(1) this] have "cdiv s (int ?n) = Some (sgn s * (\<bar>s\<bar> div int ?n))" .
  with win assms(8) w0 sint_of_nat_u32 [OF assms(2)] show ?thesis
    by (auto simp: win_inv_def weight_window_is_full_def weight_window_average_def)
qed

theorem weight_window_correct_witness:
  "\<exists>w0 win. weight_window_init (\<lambda>n. Some (replicate n 0)) 3 = Some w0
     \<and> weight_window_adds w0 [-2055, -2065, -2070, -2071] = Some win \<and> wsum win = -6206
     \<and> (weight_window_is_full win \<longleftrightarrow> 3 \<le> length [-2055, -2065, -2070, -2071 :: int])
     \<and> weight_window_average win = Some (sgn (-6206) * (\<bar>-6206\<bar> div 3))"
  using weight_window_correct [of 3 "\<lambda>n. Some (replicate n 0)" "replicate 48 0" "[-2055, -2065, -2070, -2071]" 3000 "-6206"]
  by simp

text \<open>The macro that should round a block size up to a multiple of eight yields 8 for every size
  that is not a multiple of 2^32, so neighbouring blocks of a ring of blocks larger than 8 bytes
  overlap.\<close>

theorem ring_blocks_overlap:
  assumes "ring_buffer_init malloc capacity block = Some r" "1 < unat capacity" "8 < block" "block < 2 ^ 32"
    and "16 * unat capacity < 2 ^ 64" "malloc (16 * unat capacity) = Some blob" "length blob = 16 * unat capacity"
  shows "rdata r ! 1 = rdata r ! 0 + 8 \<and> rdata r ! 1 < rdata r ! 0 + unat block"
proof -
  have "\<forall>i\<ge>32. \<not> bit block i"
    using assms(4) word_less_power_iff [of 32 block] by simp
  then have "take_bit 32 block \<noteq> 0" using assms(3) by (auto simp flip: take_bit_self_iff_bits)
  from ring_buffer_init_eq [of block capacity malloc blob, OF this assms(5-7)] assms(1-3) show ?thesis
    by (auto simp: word_less_nat_alt)
qed

text \<open>Offering any sequence of commands to a fresh buffer of \<open>N\<close> cells and polling until nothing is
  left delivers all of them in order when they are fewer than \<open>N\<close>. Otherwise it delivers the last
  \<open>N - 1\<close> in order, followed by the one before them, which the overflow should have dropped.\<close>

theorem cmd_buffer_delivers:
  assumes "2 \<le> N"
  shows "\<exists>b. cmd_offer_all N (cmd_buffer_new N) xs = Some b
     \<and> cmd_poll_all N b = Some (if length xs < N then xs
                                else drop (length xs - (N - 1)) xs @ [xs ! (length xs - N)])"
  using cmd_offer_all_inv [OF assms, of xs] by (auto dest!: cmd_poll_all_inv)

theorem cmd_buffer_delivers_witness:
  "\<exists>b. cmd_offer_all 2 (cmd_buffer_new 2) [1, 2, 3, 4, 5 :: int] = Some b \<and> cmd_poll_all 2 b = Some [5, 4]"
  using cmd_buffer_delivers [of 2 "[1, 2, 3, 4, 5 :: int]"] by simp

theorem ring_blocks_overlap_witness:
  "\<exists>r. ring_buffer_init (\<lambda>n. Some (replicate n 0)) 2 24 = Some r
     \<and> rdata r ! 1 = rdata r ! 0 + 8 \<and> rdata r ! 1 < rdata r ! 0 + unat (24 :: u64)"
proof -
  let ?m = "\<lambda>n. Some (replicate n 0)"
  have "take_bit 32 (24 :: u64) \<noteq> 0" by simp
  from ring_buffer_init_eq [of 24 2 ?m "replicate 32 0", OF this] obtain r where
    r: "ring_buffer_init ?m 2 24 = Some r" by simp
  with ring_blocks_overlap [of ?m 2 24 r "replicate 32 0"] show ?thesis by simp
qed

text \<open>C9. As long as at most \<open>N - 1\<close> commands are outstanding the buffer refines a queue: every
  interleaving of offers and polls on a fresh buffer answers exactly like the queue.\<close>

theorem cmd_buffer_refines_queue:
  assumes "2 \<le> N" "queue_fits (N - 1) 0 ops"
  shows "run_ops (\<lambda>b x. map_option snd (cmd_buffer_offer N b x d)) (cmd_buffer_poll N) (cmd_buffer_new N) ops
    = Some (queue_run [] ops)"
  using cmdq.run_refines [OF cmd_inv_new [OF assms(1)], of ops d] assms(2) by simp

theorem cmd_buffer_refines_queue_witness:
  "run_ops (\<lambda>b x. map_option snd (cmd_buffer_offer 3 b x True)) (cmd_buffer_poll 3) (cmd_buffer_new 3)
     [Offer 7, Offer 8, Poll, Offer 9, Poll, Poll, Poll :: nat queue_op] = Some [Some 7, Some 8, Some 9, None]"
  using cmd_buffer_refines_queue [of 3 "[Offer 7, Offer 8, Poll, Offer 9, Poll, Poll, Poll :: nat queue_op]" True]
  by simp

end
