(* ===== verification/Bits.thy ===== *)
theory Bits
  imports Libc
begin

text \<open>
  Bit-level routines: trailing zeros (\<^verbatim>\<open>builtin/ctz.c\<close>), population count (\<^verbatim>\<open>builtin/popcount.c\<close>), the
  zero-byte tests (\<^verbatim>\<open>trivial/zero-byte.c\<close>), the binary printers of \<^verbatim>\<open>builtin/ctz.c\<close> and
  \<^verbatim>\<open>num/ieee754-float.c\<close>, the hexadecimal printer \<^verbatim>\<open>trivial/itos.c\<close> and the bin index of
  \<^verbatim>\<open>trivial/bitmap.cpp\<close>. Machine words wrap; table reads are bounds-checked.
\<close>

unbundle bit_operations_syntax

section \<open>builtin/ctz.c\<close>

definition ctz_lowest :: "u32 \<Rightarrow> u32" where
  "ctz_lowest x =
     (let c = 31;
          c = (if x AND 0x0000ffff \<noteq> 0 then c - 16 else c);
          c = (if x AND 0x00ff00ff \<noteq> 0 then c - 8 else c);
          c = (if x AND 0x0f0f0f0f \<noteq> 0 then c - 4 else c);
          c = (if x AND 0x33333333 \<noteq> 0 then c - 2 else c);
          c = (if x AND 0x55555555 \<noteq> 0 then c - 1 else c)
      in c)"

definition ctz :: "u32 \<Rightarrow> u32" where
  "ctz x = (if x \<noteq> 0 then ctz_lowest (x AND - x) else - 1)"

definition ctz2_stages :: "u32 \<Rightarrow> u32 list" where
  "ctz2_stages x =
     (let x1 = x - 1;
          x2 = x1 - (drop_bit 1 x1 AND 0x55555555);
          x3 = (x2 AND 0x33333333) + (drop_bit 2 x2 AND 0x33333333);
          x4 = (x3 + drop_bit 4 x3) AND 0x0f0f0f0f;
          x5 = x4 + drop_bit 8 x4;
          x6 = x5 + drop_bit 16 x5
      in [x1, x2, x3, x4, x5, x6])"

definition ctz2 :: "u32 \<Rightarrow> u32" where
  "ctz2 x = (if x \<noteq> 0 then last (ctz2_stages x) AND 0x1f else - 1)"

definition g_bin_table :: "string list" where
  "g_bin_table =
     [''0000'', ''0001'', ''0010'', ''0011'', ''0100'', ''0101'', ''0110'', ''0111'',
      ''1000'', ''1001'', ''1010'', ''1011'', ''1100'', ''1101'', ''1110'', ''1111'']"

text \<open>\<open>int_to_bin_loop x i\<close> runs the loop from the nibble \<open>i\<close> (the shift \<open>4 * i\<close>) down to 0.\<close>

fun int_to_bin_loop :: "u32 \<Rightarrow> nat \<Rightarrow> u8 list \<Rightarrow> nat \<Rightarrow> u8 list option" where
  "int_to_bin_loop x i buf p = do {
     s \<leftarrow> rd g_bin_table (unat (drop_bit (4 * i) x AND 0xf));
     (n, buf) \<leftarrow> sprintf buf p (bytes_of_string s @ (if i \<noteq> 0 then [39] else []));
     case i of 0 \<Rightarrow> Some buf | Suc j \<Rightarrow> int_to_bin_loop x j buf (p + n)
   }"

declare int_to_bin_loop.simps [simp del]

definition int_to_bin :: "u32 \<Rightarrow> u8 list \<Rightarrow> u8 list option" where
  "int_to_bin x buf = int_to_bin_loop x 7 buf 0"

section \<open>builtin/popcount.c\<close>

function count_set_bits_loop :: "u32 \<Rightarrow> nat \<Rightarrow> nat" where
  "count_set_bits_loop u count =
     (if u \<noteq> 0 then count_set_bits_loop (drop_bit 1 u) (count + unat (u AND 1)) else count)"
  by pat_completeness auto
termination
proof (relation "measure (\<lambda>(u, count). unat u)", goal_cases)
  case (2 u count)
  then have "unat u div 2 < unat u" by (metis div_less_dividend one_less_numeral_iff semiring_norm(76) unat_gt_0)
  then show ?case by (simp add: drop_bit_eq_div unat_div_distrib)
qed simp

declare count_set_bits_loop.simps [simp del]

definition count_set_bits :: "u32 \<Rightarrow> nat" where
  "count_set_bits n = count_set_bits_loop n 0"

section \<open>trivial/zero-byte.c\<close>

text \<open>The first macro reads the four bytes of the object in memory.\<close>

definition HAS_ZERO_BYTE1 :: "u32 \<Rightarrow> bool" where
  "HAS_ZERO_BYTE1 x =
     (let p = le_bytes 4 x in \<not> (p ! 0 \<noteq> 0 \<and> p ! 1 \<noteq> 0 \<and> p ! 2 \<noteq> 0 \<and> p ! 3 \<noteq> 0))"

definition HAS_ZERO_BYTE2 :: "u32 \<Rightarrow> bool" where
  "HAS_ZERO_BYTE2 x =
     (\<not> (x AND 0xff \<noteq> 0 \<and> x AND 0xff00 \<noteq> 0 \<and> x AND 0xff0000 \<noteq> 0 \<and> x AND 0xff000000 \<noteq> 0))"

definition HAS_ZERO_BYTE3 :: "u32 \<Rightarrow> bool" where
  "HAS_ZERO_BYTE3 x = (NOT (((x AND 0x7f7f7f7f) + 0x7f7f7f7f) OR 0x7f7f7f7f) \<noteq> 0)"

section \<open>num/ieee754-float.c\<close>

text \<open>\<open>char2bin_loop c n\<close> stores the digits \<open>0..<n\<close> of \<open>c\<close>, the lowest one last.\<close>

fun char2bin_loop :: "u8 \<Rightarrow> nat \<Rightarrow> u8 list \<Rightarrow> u8 list option" where
  "char2bin_loop c 0 p = Some p"
| "char2bin_loop c (Suc i) p = do {
     p \<leftarrow> char2bin_loop c i p;
     wr p (8 - 1 - i) (48 + (if c AND push_bit i 1 \<noteq> 0 then 1 else 0))
   }"

definition char2bin :: "u8 \<Rightarrow> u8 list \<Rightarrow> u8 list option" where
  "char2bin c p = do {
     p \<leftarrow> char2bin_loop c 8 p;
     wr p 8 0
   }"

definition binary_table :: "string list" where
  "binary_table =
    [
     ''00000000'', ''00000001'', ''00000010'', ''00000011'', ''00000100'', ''00000101'', ''00000110'', ''00000111'',
     ''00001000'', ''00001001'', ''00001010'', ''00001011'', ''00001100'', ''00001101'', ''00001110'', ''00001111'',
     ''00010000'', ''00010001'', ''00010010'', ''00010011'', ''00010100'', ''00010101'', ''00010110'', ''00010111'',
     ''00011000'', ''00011001'', ''00011010'', ''00011011'', ''00011100'', ''00011101'', ''00011110'', ''00011111'',
     ''00100000'', ''00100001'', ''00100010'', ''00100011'', ''00100100'', ''00100101'', ''00100110'', ''00100111'',
     ''00101000'', ''00101001'', ''00101010'', ''00101011'', ''00101100'', ''00101101'', ''00101110'', ''00101111'',
     ''00110000'', ''00110001'', ''00110010'', ''00110011'', ''00110100'', ''00110101'', ''00110110'', ''00110111'',
     ''00111000'', ''00111001'', ''00111010'', ''00111011'', ''00111100'', ''00111101'', ''00111110'', ''00111111'',
     ''01000000'', ''01000001'', ''01000010'', ''01000011'', ''01000100'', ''01000101'', ''01000110'', ''01000111'',
     ''01001000'', ''01001001'', ''01001010'', ''01001011'', ''01001100'', ''01001101'', ''01001110'', ''01001111'',
     ''01010000'', ''01010001'', ''01010010'', ''01010011'', ''01010100'', ''01010101'', ''01010110'', ''01010111'',
     ''01011000'', ''01011001'', ''01011010'', ''01011011'', ''01011100'', ''01011101'', ''01011110'', ''01011111'',
     ''01100000'', ''01100001'', ''01100010'', ''01100011'', ''01100100'', ''01100101'', ''01100110'', ''01100111'',
     ''01101000'', ''01101001'', ''01101010'', ''01101011'', ''01101100'', ''01101101'', ''01101110'', ''01101111'',
     ''01110000'', ''01110001'', ''01110010'', ''01110011'', ''01110100'', ''01110101'', ''01110110'', ''01110111'',
     ''01111000'', ''01111001'', ''01111010'', ''01111011'', ''01111100'', ''01111101'', ''01111110'', ''01111111'',
     ''10000000'', ''10000001'', ''10000010'', ''10000011'', ''10000100'', ''10000101'', ''10000110'', ''10000111'',
     ''10001000'', ''10001001'', ''10001010'', ''10001011'', ''10001100'', ''10001101'', ''10001110'', ''10001111'',
     ''10010000'', ''10010001'', ''10010010'', ''10010011'', ''10010100'', ''10010101'', ''10010110'', ''10010111'',
     ''10011000'', ''10011001'', ''10011010'', ''10011011'', ''10011100'', ''10011101'', ''10011110'', ''10011111'',
     ''10100000'', ''10100001'', ''10100010'', ''10100011'', ''10100100'', ''10100101'', ''10100110'', ''10100111'',
     ''10101000'', ''10101001'', ''10101010'', ''10101011'', ''10101100'', ''10101101'', ''10101110'', ''10101111'',
     ''10110000'', ''10110001'', ''10110010'', ''10110011'', ''10110100'', ''10110101'', ''10110110'', ''10110111'',
     ''10111000'', ''10111001'', ''10111010'', ''10111011'', ''10111100'', ''10111101'', ''10111110'', ''10111111'',
     ''11000000'', ''11000001'', ''11000010'', ''11000011'', ''11000100'', ''11000101'', ''11000110'', ''11000111'',
     ''11001000'', ''11001001'', ''11001010'', ''11001011'', ''11001100'', ''11001101'', ''11001110'', ''11001111'',
     ''11010000'', ''11010001'', ''11010010'', ''11010011'', ''11010100'', ''11010101'', ''11010110'', ''11010111'',
     ''11011000'', ''11011001'', ''11011010'', ''11011011'', ''11011100'', ''11011101'', ''11011110'', ''11011111'',
     ''11100000'', ''11100001'', ''11100010'', ''11100011'', ''11100100'', ''11100101'', ''11100110'', ''11100111'',
     ''11101000'', ''11101001'', ''11101010'', ''11101011'', ''11101100'', ''11101101'', ''11101110'', ''11101111'',
     ''11110000'', ''11110001'', ''11110010'', ''11110011'', ''11110100'', ''11110101'', ''11110110'', ''11110111'',
     ''11111000'', ''11111001'', ''11111010'', ''11111011'', ''11111100'', ''11111101'', ''11111110'', ''11111111'']"

definition MAX_LEN :: "nat list" where
  "MAX_LEN = [9, 10, 10, 10]"

text \<open>\<open>int2bin_loop u i\<close> runs the loop for the bytes \<open>i - 1\<close> down to 0.\<close>

fun int2bin_loop :: "u32 \<Rightarrow> nat \<Rightarrow> u8 list \<Rightarrow> u8 list option" where
  "int2bin_loop u 0 p = Some p"
| "int2bin_loop u (Suc i) p = do {
     s \<leftarrow> rd binary_table (unat (drop_bit (i * 8) u AND 0xff));
     (_, p) \<leftarrow> snprintf p (2 + (3 - i) * 9) (MAX_LEN ! i) (bytes_of_string s @ [39]);
     int2bin_loop u i p
   }"

definition int2bin :: "u32 \<Rightarrow> u8 list \<Rightarrow> u8 list option" where
  "int2bin u p = do {
     p \<leftarrow> wr_range p 0 (bytes_of_string ''0b'' @ [0]);
     if u = 0 then wr_range p 2 (bytes_of_string ''0'' @ [0])
     else do {
       p \<leftarrow> int2bin_loop u 4 p;
       lz \<leftarrow> clz u;
       s \<leftarrow> rd_range p (2 + lz + lz div 8) (36 - lz - lz div 8);
       wr_range p 2 s
     }
   }"

text \<open>The fields of a float's bit pattern; \<open>x\<close> is an \<^verbatim>\<open>int\<close>, so the shifts are arithmetic.\<close>

definition float_S :: "u32 \<Rightarrow> u32" where
  "float_S x = signed_drop_bit 31 x AND 1"

definition float_E :: "u32 \<Rightarrow> u32" where
  "float_E x = signed_drop_bit 23 x AND 0xff"

definition float_M :: "u32 \<Rightarrow> u32" where
  "float_M x = x AND 0x7fffff"

definition DUMP_FLOAT :: "u32 \<Rightarrow> log_line option" where
  "DUMP_FLOAT x = do {
     a \<leftarrow> int2bin (float_S x) (replicate 38 0);
     b \<leftarrow> int2bin (float_E x) (replicate 38 0);
     c \<leftarrow> int2bin (float_M x) (replicate 38 0);
     a \<leftarrow> cstring a;
     b \<leftarrow> cstring b;
     c \<leftarrow> cstring c;
     Some (LOG_INFO (a @ [44] @ b @ [44] @ c))
   }"

section \<open>trivial/itos.c\<close>

text \<open>
  The loop over the bytes of the integer, lowest first; \<open>p\<close> is the cursor that starts at the end of
  the 8-byte buffer. \<^verbatim>\<open>cs\<close> has 17 bytes: sixteen digits and the NUL.
\<close>

definition itos_cs :: "u8 list" where
  "itos_cs = bytes_of_string ''0123456789ABCDEF'' @ [0]"

fun itos_loop :: "u8 list \<Rightarrow> u8 list \<Rightarrow> nat \<Rightarrow> u8 list option" where
  "itos_loop [] buf p = Some buf"
| "itos_loop (b # bs) buf p = do {
     lo \<leftarrow> rd itos_cs (unat (b AND 0xff));
     buf \<leftarrow> wr buf (p - 1) lo;
     hi \<leftarrow> rd itos_cs (unat (drop_bit 4 b));
     buf \<leftarrow> wr buf (p - 2) hi;
     itos_loop bs buf (p - 2)
   }"

definition itos :: "u32 \<Rightarrow> u8 list option" where
  "itos i = itos_loop (le_bytes 4 i) (replicate 8 0) 8"

section \<open>trivial/bitmap.cpp\<close>

text \<open>The two assembler instructions, on a nonzero operand: index of the lowest and of the highest set bit.\<close>

definition bsf :: "u32 \<Rightarrow> nat" where
  "bsf x = length (takeWhile (\<lambda>i. \<not> bit x i) [0..<32])"

definition bsr :: "u32 \<Rightarrow> nat" where
  "bsr x = (case clz x of None \<Rightarrow> 0 | Some z \<Rightarrow> 31 - z)"

definition bit2idx_asm :: "u32 \<Rightarrow> u32" where
  "bit2idx_asm x = of_nat (bsf x)"

definition bit2idx_c :: "u32 \<Rightarrow> u32" where
  "bit2idx_c x =
     (let x = x - 1;
          x = x - (drop_bit 1 x AND 0x55555555);
          x = (drop_bit 2 x AND 0x33333333) + (x AND 0x33333333);
          x = (drop_bit 4 x + x) AND 0x0f0f0f0f;
          x = x + drop_bit 8 x;
          x = x + drop_bit 16 x
      in x AND 0x3f)"

definition treeIndex_k_asm :: "u64 \<Rightarrow> u32" where
  "treeIndex_k_asm x = of_nat (bsr (ucast x))"

definition treeIndex_k_c :: "u64 \<Rightarrow> u32" where
  "treeIndex_k_c x =
     (let y = (ucast x :: u32);
          n = drop_bit 16 (y - 0x100) AND 8;
          y = push_bit (unat n) y;
          k = drop_bit 16 (y - 0x1000) AND 4;
          n = n + k;
          y = push_bit (unat k) y;
          k = drop_bit 16 (y - 0x4000) AND 2;
          n = n + k;
          y = push_bit (unat k) y
      in 14 - n + drop_bit 15 y)"

definition computeTreeIndex :: "(u64 \<Rightarrow> u32) \<Rightarrow> u64 \<Rightarrow> u32" where
  "computeTreeIndex bit_index sz =
     (let x = drop_bit 8 sz in
      if x = 0 then 0
      else if x > 0xFFFF then 32 - 1
      else (let k = bit_index x in
            push_bit 1 k + ucast (drop_bit (unat k + (8 - 1)) sz AND 1)))"

section \<open>The lowest set bit\<close>

lemma lowest_bit:
  fixes x :: "'a::len word"
  assumes "bit x k" "\<forall>i<k. \<not> bit x i"
  shows "x AND - x = push_bit k 1"
proof -
  have k: "k < LENGTH('a)" using assms(1) bit_imp_le_length by blast
  define m where "m = Suc k"
  define z where "z = push_bit m (drop_bit m x)"
  have z: "bit z i \<longleftrightarrow> k < i \<and> bit x i" for i
    by (auto simp: z_def bit_simps m_def [symmetric] Suc_le_eq [symmetric] dest: bit_imp_le_length)
  have "x = z OR push_bit k 1"
    using assms k by (intro bit_word_eqI) (auto simp: z bit_simps, metis linorder_neqE_nat)
  also have "\<dots> = z + push_bit k 1"
    by (rule disjunctive_add_eq_or [symmetric]) (rule bit_word_eqI, auto simp: z bit_simps)
  finally have "x - 1 = z + mask k"
    by (simp add: mask_eq_exp_minus_1 push_bit_eq_mult)
  also have "\<dots> = z OR mask k"
    by (rule disjunctive_add_eq_or) (rule bit_word_eqI, auto simp: z bit_simps)
  finally have neg: "- x = NOT (z OR mask k)" by (simp add: minus_eq_not_minus_1)
  show ?thesis
    unfolding neg
  proof (rule bit_word_eqI)
    fix n assume "n < LENGTH('a)"
    with assms k show "bit (x AND NOT (z OR mask k)) n = bit (push_bit k 1 :: 'a word) n"
      by (cases n k rule: linorder_cases) (auto simp: z bit_simps)
  qed
qed

lemma ctz_lowest_pow: "k < 32 \<Longrightarrow> ctz_lowest (push_bit k 1) = of_nat k"
proof -
  have "list_all (\<lambda>k. ctz_lowest (push_bit k 1) = of_nat k) [0..<32]" by code_simp
  then show "k < 32 \<Longrightarrow> ctz_lowest (push_bit k 1) = of_nat k" by (simp add: list_all_iff)
qed

lemma ctz2_pow: "k < 32 \<Longrightarrow> ctz2 (push_bit k 1) = of_nat k"
proof -
  have "list_all (\<lambda>k. ctz2 (push_bit k 1) = of_nat k) [0..<32]" by code_simp
  then show "k < 32 \<Longrightarrow> ctz2 (push_bit k 1) = of_nat k" by (simp add: list_all_iff)
qed

lemma count_set_bits_loop_eq:
  "count_set_bits_loop u c = c + card {i. bit u i}"
proof (induction u c rule: count_set_bits_loop.induct)
  case (1 u c)
  show ?case
  proof (cases "u = 0")
    case True
    then show ?thesis by (simp add: count_set_bits_loop.simps)
  next
    case False
    have fin: "finite {i. bit u i}" "finite {i. bit (drop_bit 1 u) i}"
      by (rule finite_subset [of _ "{..<32}"]; auto dest: bit_imp_le_length)+
    have "{i. bit u i} = Suc ` {i. bit (drop_bit 1 u) i} \<union> (if bit u 0 then {0} else {})"
    proof (intro set_eqI)
      fix i show "i \<in> {i. bit u i} \<longleftrightarrow> i \<in> Suc ` {i. bit (drop_bit 1 u) i} \<union> (if bit u 0 then {0} else {})"
        by (cases i) (auto simp: bit_simps)
    qed
    then have "card {i. bit u i} = card (Suc ` {i. bit (drop_bit 1 u) i}) + (if bit u 0 then 1 else 0)"
      using fin by (simp add: card_insert_if)
    also have "card (Suc ` {i. bit (drop_bit 1 u) i}) = card {i. bit (drop_bit 1 u) i}"
      by (rule card_image) simp
    also have "(if bit u 0 then 1 else 0) = unat (u AND 1)"
      by (simp add: and_one_eq bit_0 odd_iff_mod_2_eq_one)
    finally show ?thesis using False 1 by (subst count_set_bits_loop.simps) simp
  qed
qed


section \<open>Bytewise arithmetic\<close>

lemma of_le_bytes_add:
  "list_all2 (\<lambda>a b. unat a + unat b < 256) as bs \<Longrightarrow>
   of_le_bytes as + of_le_bytes bs = (of_le_bytes (map2 (+) as bs) :: 'a::len word)"
proof (induction as bs rule: list_all2_induct)
  case (Cons a as b bs)
  have or: "ucast c OR push_bit 8 w = ucast c + push_bit 8 w" for c :: u8 and w :: "'a word"
    by (rule disjunctive_add_eq_or [symmetric]) (rule bit_word_eqI, auto simp: bit_simps u8_bit_high)
  have "unat (a + b) = unat a + unat b"
    using Cons(1) by (simp add: unat_word_ariths)
  then have "(ucast (a + b) :: 'a word) = ucast a + ucast b"
    by (metis of_nat_add of_nat_unat)
  then have "of_le_bytes (map2 (+) (a # as) (b # bs))
      = ucast a + ucast b + push_bit 8 (of_le_bytes (map2 (+) as bs) :: 'a word)"
    using or [of "a + b" "of_le_bytes (map2 (+) as bs)"] by simp
  with Cons(3) show ?case by (simp add: or push_bit_add add.assoc add.left_commute flip: Cons(3))
qed simp

lemma le_bytes_4: "le_bytes 4 (x :: u32) = [byte 0 x, byte 1 x, byte 2 x, byte 3 x]"
  by (simp add: le_bytes_def upt_rec numeral_eq_Suc)

lemma HAS_ZERO_BYTE1_iff: "HAS_ZERO_BYTE1 x \<longleftrightarrow> 0 \<in> set (le_bytes 4 x)"
  by (auto simp: HAS_ZERO_BYTE1_def le_bytes_4 Let_def)

lemma all_less_32: "(\<forall>n<32. P n) \<longleftrightarrow> (\<forall>i<4. \<forall>j<8. P (8 * i + j :: nat))"
proof
  assume a: "\<forall>i<4. \<forall>j<8. P (8 * i + j)"
  show "\<forall>n<32. P n"
  proof (intro allI impI)
    fix n :: nat assume "n < 32"
    then have "n div 8 < 4" "n mod 8 < 8" by auto
    with a have "P (8 * (n div 8) + n mod 8)" by blast
    then show "P n" by simp
  qed
qed simp

lemma u32_eq_0_bytes: "(x :: u32) = 0 \<longleftrightarrow> (\<forall>i<4. byte i x = 0)"
proof -
  have "x = 0 \<longleftrightarrow> (\<forall>n<32. \<not> bit x n)" by (auto intro: bit_word_eqI)
  also have "\<dots> \<longleftrightarrow> (\<forall>i<4. byte i x = 0)"
    unfolding all_less_32 u8_eq_bits by (simp add: byte_def bit_simps add.commute)
  finally show ?thesis .
qed

lemma byte_and: "byte i (x AND y) = byte i x AND byte i y"
  by (rule bit_word_eqI) (simp add: byte_def bit_simps)

lemma all_less_4: "(\<forall>n<4. P n) \<longleftrightarrow> P 0 \<and> P (1 :: nat) \<and> P 2 \<and> P 3"
  by (auto simp: numeral_eq_Suc less_Suc_eq)

lemma HAS_ZERO_BYTE2_iff: "HAS_ZERO_BYTE2 x \<longleftrightarrow> 0 \<in> set (le_bytes 4 x)"
proof -
  have full: "b AND 0xff = (b :: u8)" for b by (simp add: u8_bits)
  have wrap: "(0xff00 :: u8) = 0" "(0xff0000 :: u8) = 0" "(0xff000000 :: u8) = 0" by simp_all
  have "x AND 0xff = 0 \<longleftrightarrow> byte 0 x = 0" "x AND 0xff00 = 0 \<longleftrightarrow> byte 1 x = 0"
    "x AND 0xff0000 = 0 \<longleftrightarrow> byte 2 x = 0" "x AND 0xff000000 = 0 \<longleftrightarrow> byte 3 x = 0"
    unfolding u32_eq_0_bytes all_less_4 byte_and
    by (simp_all add: byte_def [of _ "numeral _ :: u32"] full wrap)
  then show ?thesis by (auto simp: HAS_ZERO_BYTE2_def le_bytes_4)
qed

lemma of_le_bytes_and: "length as = length bs \<Longrightarrow>
  of_le_bytes as AND of_le_bytes bs = (of_le_bytes (map2 (AND) as bs) :: 'a::len word)"
proof (induction as bs rule: list_induct2)
  case (Cons a as b bs)
  have "(ucast a OR push_bit 8 A) AND (ucast b OR push_bit 8 B) = (ucast (a AND b) OR push_bit 8 (A AND B) :: 'a word)"
    for A B by (rule bit_word_eqI) (auto simp: bit_simps u8_bit_high)
  then show ?case by (simp flip: Cons.IH)
qed simp

lemma byte_of_le_bytes_4:
  "i < 4 \<Longrightarrow> byte i (of_le_bytes [a, b, c, d] :: u32) = [a, b, c, d] ! i"
proof -
  have "byte 0 (of_le_bytes [a, b, c, d] :: u32) = a \<and> byte 1 (of_le_bytes [a, b, c, d] :: u32) = b
    \<and> byte 2 (of_le_bytes [a, b, c, d] :: u32) = c \<and> byte 3 (of_le_bytes [a, b, c, d] :: u32) = d"
    by (intro conjI bit_word_eqI) (auto simp: byte_def bit_simps u8_bit_high)
  then have "\<forall>i<4. byte i (of_le_bytes [a, b, c, d] :: u32) = [a, b, c, d] ! i"
    unfolding all_less_4 by (simp del: of_le_bytes.simps)
  then show "i < 4 \<Longrightarrow> byte i (of_le_bytes [a, b, c, d] :: u32) = [a, b, c, d] ! i" by blast
qed

lemma u8_less_128: "(w :: u8) < 128 \<longleftrightarrow> \<not> bit w 7"
proof -
  have "i = 7 \<or> 8 \<le> i" if "7 \<le> i" for i :: nat using that by linarith
  then have "(\<forall>i\<ge>7. \<not> bit w i) \<longleftrightarrow> \<not> bit w 7" by (metis order_refl u8_bit_high)
  then show ?thesis using word_less_power_iff [of 7 w] by simp
qed

lemma carry_to_top: "bit ((b AND 0x7f) + 0x7f :: u8) 7 \<longleftrightarrow> b AND 0x7f \<noteq> 0"
  "unat (b AND 0x7f :: u8) < 129"
proof -
  have "b AND 0x7f < (128 :: u8)" by (simp add: u8_less_128 bit_simps)
  then have lt: "unat (b AND 0x7f) < 128" by (simp add: word_less_nat_alt)
  then show "unat (b AND 0x7f :: u8) < 129" by simp
  have "unat ((b AND 0x7f) + 0x7f :: u8) = unat (b AND 0x7f) + 127"
    using lt by (simp add: unat_word_ariths)
  then have "(b AND 0x7f) + 0x7f < (128 :: u8) \<longleftrightarrow> unat (b AND 0x7f) = 0"
    by (simp add: word_less_nat_alt)
  moreover have "unat (b AND 0x7f) = 0 \<longleftrightarrow> b AND 0x7f = 0" by (simp add: word_unat_eq_iff)
  ultimately show "bit ((b AND 0x7f) + 0x7f :: u8) 7 \<longleftrightarrow> b AND 0x7f \<noteq> 0"
    by (auto simp: u8_less_128)
qed

lemma ex_less_4: "(\<exists>n<4. P n) \<longleftrightarrow> P 0 \<or> P (1 :: nat) \<or> P 2 \<or> P 3"
  using all_less_4 [of "\<lambda>n. \<not> P n"] by blast

lemma HAS_ZERO_BYTE3_iff: "HAS_ZERO_BYTE3 x \<longleftrightarrow> (\<exists>b\<in>set (le_bytes 4 x). b AND 0x7f = 0)"
proof -
  let ?m = "[0x7f, 0x7f, 0x7f, 0x7f] :: u8 list"
  let ?f = "\<lambda>b :: u8. (b AND 0x7f) + 0x7f"
  have m: "(0x7f7f7f7f :: u32) = of_le_bytes ?m" by code_simp
  have x: "x = of_le_bytes [byte 0 x, byte 1 x, byte 2 x, byte 3 x]"
    using of_le_bytes_le_bytes [of 4 x] by (simp add: le_bytes_4)
  define s where "s = (x AND 0x7f7f7f7f) + 0x7f7f7f7f"
  have "x AND 0x7f7f7f7f = of_le_bytes (map (\<lambda>b. b AND 0x7f) [byte 0 x, byte 1 x, byte 2 x, byte 3 x])"
    unfolding m by (subst x, subst of_le_bytes_and) simp_all
  then have s: "s = of_le_bytes [?f (byte 0 x), ?f (byte 1 x), ?f (byte 2 x), ?f (byte 3 x)]"
    unfolding s_def by (simp only:, unfold m, subst of_le_bytes_add) (simp_all add: carry_to_top(2) del: of_le_bytes.simps)
  have bs: "byte i s = ?f (byte i x)" if "i < 4" for i
  proof -
    have "\<forall>i<4. [?f (byte 0 x), ?f (byte 1 x), ?f (byte 2 x), ?f (byte 3 x)] ! i = ?f (byte i x)"
      unfolding all_less_4 by simp
    with byte_of_le_bytes_4 [OF that] that show ?thesis unfolding s by metis
  qed
  have "NOT (s OR 0x7f7f7f7f) \<noteq> 0 \<longleftrightarrow> (\<exists>i<4. byte i (NOT (s OR 0x7f7f7f7f)) \<noteq> 0)"
    using u32_eq_0_bytes by blast
  also have "\<dots> \<longleftrightarrow> (\<exists>i<4. \<not> bit (byte i s) 7)"
  proof -
    have "byte i (NOT (s OR 0x7f7f7f7f)) = NOT (byte i s OR byte i (0x7f7f7f7f :: u32))" if "i < 4" for i
      using that by (intro bit_word_eqI) (auto simp: byte_def bit_simps)
    moreover have "\<forall>i<4. byte i (0x7f7f7f7f :: u32) = 0x7f"
      unfolding all_less_4 by (simp add: byte_def)
    moreover have "NOT (w OR 0x7f) \<noteq> 0 \<longleftrightarrow> \<not> bit w 7" for w :: u8 by (simp add: u8_bits)
    ultimately show ?thesis by auto
  qed
  also have "\<dots> \<longleftrightarrow> (\<exists>i<4. byte i x AND 0x7f = 0)"
    using bs carry_to_top(1) by metis
  also have "\<dots> \<longleftrightarrow> (\<exists>b\<in>set (le_bytes 4 x). b AND 0x7f = 0)"
    unfolding ex_less_4 le_bytes_4 by simp
  finally show ?thesis unfolding HAS_ZERO_BYTE3_def s_def .
qed

section \<open>Binary digits\<close>

definition bin_digit :: "bool \<Rightarrow> u8" where
  "bin_digit b = (if b then 49 else 48)"

definition bin_digits :: "nat \<Rightarrow> 'a::len word \<Rightarrow> u8 list" where
  "bin_digits n x = map (\<lambda>i. bin_digit (bit x i)) (rev [0..<n])"

lemma length_bin_digits [simp]: "length (bin_digits n x) = n"
  by (simp add: bin_digits_def)

lemma g_bin_table_digits:
  assumes "unat (w :: 'a::len word) < 16"
  shows "bytes_of_string (g_bin_table ! unat w) = bin_digits 4 w"
proof -
  have "list_all (\<lambda>n. bytes_of_string (g_bin_table ! n) = map (\<lambda>i. bin_digit (bit n i)) (rev [0..<4])) [0..<16]"
    by code_simp
  then have "bytes_of_string (g_bin_table ! unat w) = map (\<lambda>i. bin_digit (bit (unat w) i)) (rev [0..<4])"
    using assms by (simp add: list_all_iff)
  then show ?thesis by (simp add: bin_digits_def bit_unsigned_iff possible_bit_nat)
qed

lemma length_g_bin_table: "length g_bin_table = 16"
  by (simp add: g_bin_table_def)

text \<open>The table of bytes is the table of nibbles, twice.\<close>

lemma binary_table_product:
  "binary_table = map (\<lambda>(hi, lo). hi @ lo) (List.product g_bin_table g_bin_table)"
  by code_simp

lemma length_binary_table: "length binary_table = 256"
  by (simp add: binary_table_product length_g_bin_table)

lemma bin_digits_nibbles: "bin_digits 8 c = bin_digits 4 (drop_bit 4 c) @ bin_digits 4 (c AND 0xf :: u8)"
proof -
  have upt: "[0..<8] = [0..<4] @ map (\<lambda>i. i + 4) [0..<4]" by code_simp
  have "c AND 0xf = take_bit 4 c" by (simp add: take_bit_eq_mask mask_eq_exp_minus_1)
  then show ?thesis
    unfolding bin_digits_def upt by (simp add: rev_map bit_simps add.commute cong: map_cong)
qed

lemma binary_table_digits: "bytes_of_string (binary_table ! unat (c :: u8)) = bin_digits 8 c"
proof -
  have "unat (drop_bit 4 c) = unat c div 16" by (simp add: drop_bit_eq_div unat_div_distrib)
  moreover have "unat (c AND 0xf) = unat c mod 16"
  proof -
    have "c AND 0xf = take_bit 4 c" by (simp add: take_bit_eq_mask mask_eq_exp_minus_1)
    then show ?thesis by (simp add: take_bit_eq_mod unat_mod_distrib)
  qed
  moreover have "unat c div 16 < 16" using unat_u8_less [of c] by linarith
  ultimately show ?thesis
    using g_bin_table_digits [of "drop_bit 4 c"] g_bin_table_digits [of "c AND 0xf"]
    by (simp add: binary_table_product bin_digits_nibbles product_nth length_g_bin_table)
qed

lemma char2bin_loop_eq:
  "n \<le> 8 \<Longrightarrow> length p \<ge> 9 \<Longrightarrow>
   char2bin_loop c n p = Some (take (8 - n) p @ bin_digits n c @ drop 8 p)"
proof (induction n)
  case (Suc n)
  have test: "c AND push_bit n 1 \<noteq> 0 \<longleftrightarrow> bit c n"
    by (metis and_exp_eq_0_iff_not_bit push_bit_of_1)
  have "take (8 - n) p = take (8 - Suc n) p @ [p ! (8 - Suc n)]"
  proof -
    have "8 - n = Suc (8 - Suc n)" using Suc.prems by simp
    then show ?thesis using Suc.prems take_Suc_conv_app_nth [of "8 - Suc n" p] by simp
  qed
  then have "char2bin_loop c n p = Some (take (8 - Suc n) p @ p ! (8 - Suc n) # bin_digits n c @ drop 8 p)"
    using Suc by simp
  then show ?case using Suc.prems test
    by (simp add: wr_def list_update_append bin_digits_def bin_digit_def)
qed (simp add: bin_digits_def)

lemma char2bin_eq: "length p \<ge> 9 \<Longrightarrow> char2bin c p = Some (bin_digits 8 c @ 0 # drop 9 p)"
  using char2bin_loop_eq [of 8 p c]
  by (simp add: char2bin_def wr_def list_update_append Cons_nth_drop_Suc [of 8 p, symmetric])

section \<open>Hexadecimal\<close>

lemma itos_cs_len: "length itos_cs = 17" by (simp add: itos_cs_def)

lemma itos_loop_cases:
  "2 * length bs \<le> p \<Longrightarrow> p \<le> length buf \<Longrightarrow>
   (itos_loop bs buf p \<noteq> None) = (\<forall>b\<in>set bs. unat b < 17)"
proof (induction bs arbitrary: buf p)
  case (Cons b bs)
  have mask: "b AND 0xff = b" by (simp add: u8_bits)
  have hi: "unat (drop_bit 4 b) < 17"
  proof -
    have "unat (drop_bit 4 b) = unat b div 16" by (simp add: drop_bit_eq_div unat_div_distrib)
    then show ?thesis using unat_u8_less [of b] by linarith
  qed
  show ?case
  proof (cases "unat b < 17")
    case True
    have "p - 1 < length buf" "p - 2 < length buf" using Cons.prems by auto
    with True hi Cons show ?thesis
      by (simp add: rd_def itos_cs_len mask wr_def)
  next
    case False
    then show ?thesis by (simp add: rd_def itos_cs_len mask)
  qed
qed simp

section \<open>The tree index\<close>

lemma bsr_eq:
  assumes "2 ^ k \<le> unat x" "unat x < 2 ^ Suc k" "k < 32"
  shows "bsr x = k"
proof -
  have "x \<noteq> 0" using assms(1) by auto
  then obtain z where z: "clz x = Some z" by (simp add: clz_def)
  have "z < 32" using clz_Some(1) [OF z] by simp
  have "\<not> x < 2 ^ k" using assms(1,3) by (simp add: word_less_nat_alt unat_power_word not_less)
  then have lo: "\<not> 32 - z \<le> k" using clz_32 [OF z assms(3)] by simp
  have "32 - z \<le> Suc k"
  proof (cases "Suc k < 32")
    case True
    have "x < 2 ^ Suc k" using assms(2) True by (simp add: word_less_nat_alt unat_power_word del: power_Suc)
    then show ?thesis using clz_32 [OF z True] by simp
  qed (use assms(3) in simp)
  with lo \<open>z < 32\<close> show ?thesis by (simp add: bsr_def z)
qed

lemma borrow_mask:
  assumes "unat y < 65536" "unat c \<le> 65536"
  shows "drop_bit 16 (y - c :: u32) = (if unat y < unat c then 0xffff else 0)"
proof (cases "unat y < unat c")
  case True
  have "unat (y - c) = unat y + 4294967296 - unat c"
    using True by (simp add: unat_sub_if')
  then have "unat (drop_bit 16 (y - c)) = (unat y + 4294967296 - unat c) div 65536"
    by (simp add: drop_bit_eq_div unat_div_distrib)
  also have "\<dots> = 65535" using True assms by auto
  finally show ?thesis using True by (simp add: word_unat_eq_iff)
next
  case False
  then have "unat (y - c) = unat y - unat c" by (simp add: unat_sub_if')
  then have "unat (drop_bit 16 (y - c)) = (unat y - unat c) div 65536"
    by (simp add: drop_bit_eq_div unat_div_distrib)
  also have "\<dots> = 0" using assms by simp
  finally show ?thesis using False by (simp add: word_unat_eq_iff)
qed


lemma norm_step:
  fixes y c m :: u32
  assumes "unat y < 65536" "m AND 0xffff = m" "unat c * 2 ^ unat m = 65536"
  defines "k \<equiv> drop_bit 16 (y - c) AND m"
  shows "k = (if unat y < unat c then m else 0)"
    "unat (push_bit (unat k) y) = (if unat y < unat c then unat y * 2 ^ unat m else unat y)"
    "unat (push_bit (unat k) y) < 65536"
proof -
  have "unat c \<le> 65536" using assms(3) by (metis le_add2 mult_le_mono2 nat_mult_1_right one_le_numeral one_le_power)
  then show k: "k = (if unat y < unat c then m else 0)"
    using borrow_mask [OF assms(1)] assms(2) by (simp add: k_def and.commute)
  have "unat y * 2 ^ unat m < 65536" if "unat y < unat c"
    using that assms(3) by (metis mult_less_mono1 zero_less_numeral zero_less_power)
  moreover have "unat (push_bit j y) = unat y * 2 ^ j" if "unat y * 2 ^ j < 65536" for j
    using that by (simp only: unsigned_push_bit_eq) (simp add: push_bit_eq_mult take_bit_nat_eq_self)
  ultimately show "unat (push_bit (unat k) y) = (if unat y < unat c then unat y * 2 ^ unat m else unat y)"
    "unat (push_bit (unat k) y) < 65536"
    using assms(1) by (simp_all add: k)
qed

lemma treeIndex_k_c_eq:
  assumes "0 < unat x" "unat x < 65536"
  shows "treeIndex_k_c x = of_nat (bsr (ucast x))"
proof -
  define y0 :: u32 where "y0 = ucast x"
  define n1 where "n1 = drop_bit 16 (y0 - 0x100) AND 8"
  define y1 where "y1 = push_bit (unat n1) y0"
  define k2 where "k2 = drop_bit 16 (y1 - 0x1000) AND 4"
  define y2 where "y2 = push_bit (unat k2) y1"
  define k3 where "k3 = drop_bit 16 (y2 - 0x4000) AND 2"
  define y3 where "y3 = push_bit (unat k3) y2"
  have y0: "unat y0 = unat x"
    using assms(2) by (simp add: y0_def unsigned_ucast_eq take_bit_nat_eq_self)
  then have lt0: "unat y0 < 65536" using assms(2) by simp
  note s1 = norm_step [of y0 8 "0x100", OF lt0, folded n1_def y1_def]
  then have s1: "n1 = (if unat y0 < 256 then 8 else 0)" "unat y1 = (if unat y0 < 256 then unat y0 * 256 else unat y0)"
    "unat y1 < 65536" by simp_all
  note s2 = norm_step [of y1 4 "0x1000", OF s1(3), folded k2_def y2_def]
  then have s2: "k2 = (if unat y1 < 4096 then 4 else 0)" "unat y2 = (if unat y1 < 4096 then unat y1 * 16 else unat y1)"
    "unat y2 < 65536" by simp_all
  note s3 = norm_step [of y2 2 "0x4000", OF s2(3), folded k3_def y3_def]
  then have s3: "k3 = (if unat y2 < 16384 then 2 else 0)" "unat y3 = (if unat y2 < 16384 then unat y2 * 4 else unat y2)"
    "unat y3 < 65536" by simp_all
  have res: "treeIndex_k_c x = 14 - (n1 + k2 + k3) + drop_bit 15 y3"
    by (simp only: treeIndex_k_c_def Let_def y3_def k3_def y2_def k2_def y1_def n1_def y0_def)
  have d: "drop_bit 15 y3 = (if unat y3 < 32768 then 0 else 1)"
    using s3(3) by (auto simp: word_unat_eq_iff drop_bit_eq_div unat_div_distrib)
  have b: "bsr y0 = k" if "2 ^ k \<le> unat y0" "unat y0 < 2 ^ Suc k" "k < 32" for k
    using bsr_eq [OF that] .
  obtain k where k23: "2 ^ k \<le> unat y0" "unat y0 < 2 ^ Suc k"
    using ex_power_ivl1 [of 2 "unat y0"] assms(1) y0 by auto
  then have "(2 :: nat) ^ k < 2 ^ 16" using lt0 by simp
  then have k: "k < 16" "2 ^ k \<le> unat y0" "unat y0 < 2 ^ Suc k"
    using k23 by (simp_all only: power_less_imp_less_exp [of 2 k 16] numeral_eq_iff less_numeral_simps one_less_numeral_iff semiring_norm)
  then have "k \<in> {0, 1, 2, 3, 4, 5, 6, 7, 8, 9, 10, 11, 12, 13, 14, 15}"
    by (simp only: insert_iff empty_iff) presburger
  then have "treeIndex_k_c x = of_nat k"
    using k(2,3) unfolding res d s1(1) s2(1) s3(1)
    by (elim insertE; simp add: s1(2) s2(2) s3(2))
  with b [OF k(2,3)] k(1) show ?thesis by (simp add: y0_def)
qed

section \<open>int2bin\<close>

lemma bin_digits_drop: "k \<le> n \<Longrightarrow> bin_digits (n - k) x = drop k (bin_digits n x)"
  by (simp add: bin_digits_def drop_map drop_rev)

lemma bin_digit_not: "bin_digit b \<noteq> 39" "bin_digit b \<noteq> 0"
  by (simp_all add: bin_digit_def)

lemma filter_bin_digits [simp]: "filter (\<lambda>c. c \<noteq> 39) (bin_digits n x) = bin_digits n x"
  by (simp add: bin_digits_def filter_id_conv bin_digit_not)

lemma filter_drop_bin_digits [simp]: "filter (\<lambda>c. c \<noteq> 39) (drop k (bin_digits n x)) = drop k (bin_digits n x)"
  by (metis bin_digits_drop filter_bin_digits drop_all length_bin_digits linear filter.simps(1))

lemma NUL_notin_bin_digits [simp]: "0 \<notin> set (bin_digits n x)"
  by (auto simp: bin_digits_def bin_digit_def)

definition bin_groups :: "u32 \<Rightarrow> u8 list" where
  "bin_groups u = bin_digits 8 (byte 3 u) @ 39 # bin_digits 8 (byte 2 u) @ 39 # bin_digits 8 (byte 1 u)
     @ 39 # bin_digits 8 (byte 0 u)"

lemma bin_digits_bytes:
  "bin_digits 32 u = bin_digits 8 (byte 3 u) @ bin_digits 8 (byte 2 u) @ bin_digits 8 (byte 1 u) @ bin_digits 8 (byte 0 u)"
proof -
  have upt: "[0..<32] = [0..<8] @ map (\<lambda>i. i + 8) [0..<8] @ map (\<lambda>i. i + 16) [0..<8] @ map (\<lambda>i. i + 24) [0..<8]"
    by code_simp
  show ?thesis
    unfolding bin_digits_def upt by (simp add: rev_map byte_def bit_simps add.commute cong: map_cong)
qed

lemma filter_bin_groups:
  assumes "lz < 32"
  shows "filter (\<lambda>c. c \<noteq> 39) (drop (lz + lz div 8) (bin_groups u)) = bin_digits (32 - lz) u"
proof -
  define a b where "a = lz div 8" and "b = lz mod 8"
  have lz: "lz = 8 * a + b" and ab: "b < 8" "a < 4" using assms by (auto simp: a_def b_def)
  then have cases: "a = 0 \<or> a = 1 \<or> a = 2 \<or> a = 3" by auto
  have k: "lz + lz div 8 = 9 * a + b" using lz a_def by simp
  have r: "bin_digits (32 - lz) u = drop (8 * a + b) (bin_digits 8 (byte 3 u) @ bin_digits 8 (byte 2 u)
      @ bin_digits 8 (byte 1 u) @ bin_digits 8 (byte 0 u))"
    using bin_digits_drop [of lz 32 u] assms lz by (simp add: bin_digits_bytes)
  show ?thesis
    unfolding k r using cases ab by (elim disjE) (simp_all add: bin_groups_def drop_Cons')
qed

lemma rd_binary_table: "rd binary_table (unat (drop_bit (i * 8) u AND 0xff :: u32)) = Some (binary_table ! unat (byte i u))"
proof -
  have "drop_bit (i * 8) u AND 0xff = take_bit 8 (drop_bit (i * 8) u)"
    by (simp add: take_bit_eq_mask mask_eq_exp_minus_1)
  then have "unat (drop_bit (i * 8) u AND 0xff) = unat (byte i u)"
    by (simp add: byte_def unsigned_ucast_eq unsigned_take_bit_eq mult.commute)
  then show ?thesis by (simp add: rd_def length_binary_table)
qed

lemma bind_map_Pair: "Option.bind (map_option (Pair k) m) (\<lambda>(_, y). g y) = Option.bind m g"
  by (cases m) simp_all

lemma int2bin_loop_step:
  assumes "i < 4"
  shows "int2bin_loop u (Suc i) p = do {
     p \<leftarrow> wr_range p (2 + (3 - i) * 9) (bin_digits 8 (byte i u) @ (if i = 0 then [0] else [39, 0]));
     int2bin_loop u i p
   }"
proof -
  have "snprintf p k (MAX_LEN ! i) (bin_digits 8 (byte i u) @ [39])
      = map_option (Pair 9) (wr_range p k (bin_digits 8 (byte i u) @ (if i = 0 then [0] else [39, 0])))" for k
  proof -
    have "\<forall>i<4. MAX_LEN ! i = (if i = 0 then 9 else 10)" unfolding all_less_4 by (simp add: MAX_LEN_def)
    with assms show ?thesis by (simp add: snprintf_def)
  qed
  then show ?thesis
    by (simp only: int2bin_loop.simps rd_binary_table binary_table_digits Option.bind.simps bind_map_Pair)
qed

lemma wr_range_numeral:
  "length xs = k \<Longrightarrow> length ys \<le> length zs \<Longrightarrow> wr_range (xs @ zs) k ys = Some (xs @ ys @ drop (length ys) zs)"
  by (simp add: wr_range_def)

lemma int2bin_loop_eq:
  assumes "length p = 38"
  shows "int2bin_loop u 4 p = Some (take 2 p @ bin_groups u @ [0])"
proof -
  define h t where "h = take 2 p" and "t = drop 2 p"
  have p: "p = h @ t" "length h = 2" "length t = 36" using assms by (auto simp: h_def t_def)
  let ?g = "\<lambda>i. bin_digits 8 (byte i u)"
  have w3: "wr_range p 2 (?g 3 @ [39, 0]) = Some ((h @ ?g 3 @ [39]) @ 0 # drop 10 t)"
    using p by (simp add: wr_range_numeral)
  have w2: "wr_range ((h @ ?g 3 @ [39]) @ 0 # drop 10 t) 11 (?g 2 @ [39, 0])
      = Some ((h @ ?g 3 @ [39] @ ?g 2 @ [39]) @ 0 # drop 19 t)"
    using p by (subst wr_range_numeral) simp_all
  have w1: "wr_range ((h @ ?g 3 @ [39] @ ?g 2 @ [39]) @ 0 # drop 19 t) 20 (?g 1 @ [39, 0])
      = Some ((h @ ?g 3 @ [39] @ ?g 2 @ [39] @ ?g 1 @ [39]) @ 0 # drop 28 t)"
    using p by (subst wr_range_numeral) simp_all
  have w0: "wr_range ((h @ ?g 3 @ [39] @ ?g 2 @ [39] @ ?g 1 @ [39]) @ 0 # drop 28 t) 29 (?g 0 @ [0])
      = Some ((h @ ?g 3 @ [39] @ ?g 2 @ [39] @ ?g 1 @ [39] @ ?g 0) @ [0])"
    using p by (subst wr_range_numeral) simp_all
  note step = int2bin_loop_step [of _ u]
  have "int2bin_loop u 4 p = int2bin_loop u 3 ((h @ ?g 3 @ [39]) @ 0 # drop 10 t)"
    using w3 step [of 3 p] by (simp del: int2bin_loop.simps)
  also have "\<dots> = int2bin_loop u 2 ((h @ ?g 3 @ [39] @ ?g 2 @ [39]) @ 0 # drop 19 t)"
    using w2 step [of 2] by (simp del: int2bin_loop.simps)
  also have "\<dots> = int2bin_loop u 1 ((h @ ?g 3 @ [39] @ ?g 2 @ [39] @ ?g 1 @ [39]) @ 0 # drop 28 t)"
    using w1 step [of 1] by (simp add: numeral_2_eq_2 [symmetric] del: int2bin_loop.simps)
  also have "\<dots> = Some ((h @ ?g 3 @ [39] @ ?g 2 @ [39] @ ?g 1 @ [39] @ ?g 0) @ [0])"
    using w0 step [of 0] by simp
  finally show ?thesis by (simp add: bin_groups_def h_def)
qed

lemma int2bin_groups:
  assumes "u \<noteq> 0" "length p = 38" "clz u = Some lz"
  shows "\<exists>q. int2bin u p = Some q \<and> cstring q = Some (bytes_of_string ''0b'' @ drop (lz + lz div 8) (bin_groups u))"
proof -
  let ?k = "lz + lz div 8"
  have lz: "lz < 32" using clz_Some(1) [OF assms(3)] by simp
  then have k: "?k \<le> 34" "length (bin_groups u) = 35" by (auto simp: bin_groups_def)
  have "wr_range p 0 (bytes_of_string ''0b'' @ [0]) = Some ([48, 98] @ 0 # drop 3 p)"
    using assms(2) by (simp add: wr_range_def numeral_3_eq_3)
  moreover have "int2bin_loop u 4 ([48, 98] @ 0 # drop 3 p) = Some ([48, 98] @ bin_groups u @ [0])"
    using assms(2) by (subst int2bin_loop_eq) simp_all
  moreover have "rd_range ([48, 98] @ bin_groups u @ [0]) (2 + lz + lz div 8) (36 - lz - lz div 8)
      = Some (drop ?k (bin_groups u) @ [0])"
    using k by (simp add: rd_range_def)
  moreover have "wr_range ([48, 98] @ bin_groups u @ [0]) 2 (drop ?k (bin_groups u) @ [0])
      = Some ([48, 98] @ (drop ?k (bin_groups u) @ [0]) @ drop (length (drop ?k (bin_groups u) @ [0])) (bin_groups u @ [0]))"
    using k by (intro wr_range_numeral) simp_all
  moreover have "0 \<notin> set (drop ?k (bin_groups u))"
    by (auto simp: bin_groups_def dest!: in_set_dropD)
  ultimately show ?thesis
    using assms(1,3) cstring_append_NUL [of "[48, 98] @ drop ?k (bin_groups u)"]
    by (simp add: int2bin_def)
qed

lemma itos_fault_iff: "itos i = None \<longleftrightarrow> (\<exists>b\<in>set (le_bytes 4 i). \<not> unat b < 17)"
  using itos_loop_cases [of "le_bytes 4 i" 8 "replicate 8 0"] by (auto simp: itos_def)

lemma count_set_bits_card: "count_set_bits n = card {i. bit n i}"
  by (simp add: count_set_bits_def count_set_bits_loop_eq)

section \<open>Properties\<close>

text \<open>The trailing-zero count returns the index of the lowest set bit of every nonzero word. Its
  variant, which counts the bits below the argument, agrees with it on the powers of two.\<close>

theorem ctz_correct:
  assumes "bit x k" "\<forall>i<k. \<not> bit x i"
  shows "ctz x = of_nat k \<and> ctz2 (x AND - x) = of_nat k"
proof -
  have k: "k < 32" using bit_imp_le_length [OF assms(1)] by simp
  then have "x \<noteq> 0" using assms(1) by auto
  then show ?thesis
    using lowest_bit [OF assms] ctz_lowest_pow [OF k] ctz2_pow [OF k] by (simp add: ctz_def)
qed

theorem ctz_correct_witness: "ctz 0x1f00 = 8 \<and> ctz2 (0x1f00 AND - 0x1f00) = 8"
proof -
  have "\<forall>i<8. \<not> bit (0x1f00 :: u32) i" by (simp add: all_less_8)
  with ctz_correct [of "0x1f00" 8] show ?thesis by simp
qed

text \<open>The byte-wise and the mask test for a zero byte agree with the definition. The arithmetic test
  does not: it also fires for a byte 0x80, because the carry into the top bit is all it looks at.\<close>

theorem zero_byte_tests:
  "(HAS_ZERO_BYTE1 x \<longleftrightarrow> 0 \<in> set (le_bytes 4 x)) \<and> (HAS_ZERO_BYTE2 x \<longleftrightarrow> 0 \<in> set (le_bytes 4 x))
   \<and> (HAS_ZERO_BYTE3 x \<longleftrightarrow> 0 \<in> set (le_bytes 4 x) \<or> 0x80 \<in> set (le_bytes 4 x))"
proof -
  have "b AND 0x7f = 0 \<longleftrightarrow> b = 0 \<or> b = 0x80" for b :: u8 by (simp add: u8_bits) blast
  then show ?thesis
    using HAS_ZERO_BYTE1_iff HAS_ZERO_BYTE2_iff HAS_ZERO_BYTE3_iff by auto
qed

text \<open>The binary printer stays inside its 38 bytes and, for a nonzero word, prints \<^verbatim>\<open>0b\<close> followed by a
  text whose digits are those of the word without leading zeros.\<close>

theorem int2bin_correct:
  assumes "u \<noteq> 0" "length p = 38" "clz u = Some lz"
  shows "\<exists>q s. int2bin u p = Some q \<and> cstring q = Some (bytes_of_string ''0b'' @ s)
     \<and> filter (\<lambda>c. c \<noteq> 39) s = bin_digits (32 - lz) u"
  using int2bin_groups [OF assms] filter_bin_groups [of lz u] clz_Some(1) [OF assms(3)] by auto

theorem int2bin_correct_witness:
  "\<exists>q s. int2bin 0x3e8 (replicate 38 0) = Some q \<and> cstring q = Some (bytes_of_string ''0b'' @ s)
     \<and> filter (\<lambda>c. c \<noteq> 39) s = bytes_of_string ''1111101000''"
proof -
  have "clz (0x3e8 :: u32) = Some 22" "bin_digits 10 (0x3e8 :: u32) = bytes_of_string ''1111101000''" by code_simp+
  with int2bin_correct [of "0x3e8" "replicate 38 0" 22] show ?thesis by simp
qed

text \<open>The portable computation of the bin index returns the same index as the one with the
  bit-scan instruction, for every size.\<close>

theorem computeTreeIndex_portable:
  "computeTreeIndex treeIndex_k_c sz = computeTreeIndex treeIndex_k_asm sz"
proof (cases "drop_bit 8 sz = 0 \<or> drop_bit 8 sz > 0xFFFF")
  case True
  then show ?thesis by (auto simp: computeTreeIndex_def Let_def)
next
  case False
  then have "treeIndex_k_c (drop_bit 8 sz) = treeIndex_k_asm (drop_bit 8 sz)"
    unfolding treeIndex_k_asm_def by (intro treeIndex_k_c_eq) (simp_all add: word_less_nat_alt unat_gt_0)
  with False show ?thesis by (simp add: computeTreeIndex_def Let_def)
qed

end
