(* ===== verification/Dns.thy ===== *)
theory Dns
  imports Libc
begin

text \<open>
  The DNS client \<^verbatim>\<open>socket/dns-demo.c\<close>: the layout of the query packet, the two routines that put a
  host name into wire format, the two routines that read a (compressed) name back from a packet,
  the parser of the resource records and the report it prints.

  The packet is one memory object \<^verbatim>\<open>buf\<close>; a pointer into it is an offset. Following compression
  pointers need not end, so the two reading loops have the type \<open>'a option option\<close>: the outer
  \<^term>\<open>None\<close> is a loop that never returns, \<^term>\<open>Some None\<close> is an access outside an object.
\<close>

unbundle bit_operations_syntax

section \<open>Results of code that may not return\<close>

definition run_bind :: "'a option option \<Rightarrow> ('a \<Rightarrow> 'b option option) \<Rightarrow> 'b option option" where
  "run_bind m f = (case m of None \<Rightarrow> None | Some None \<Rightarrow> Some None | Some (Some x) \<Rightarrow> f x)"

lemma run_bind_simps [simp]:
  "run_bind None f = None" "run_bind (Some None) f = Some None" "run_bind (Some (Some x)) f = f x"
  by (simp_all add: run_bind_def)

section \<open>Packet structures\<close>

record DNS_HEADER =
  dns_id :: u16
  dns_rd :: u8
  dns_tc :: u8
  dns_aa :: u8
  dns_opcode :: u8
  dns_qr :: u8
  dns_rcode :: u8
  dns_cd :: u8
  dns_ad :: u8
  dns_z :: u8
  dns_ra :: u8
  dns_q_count :: u16
  dns_ans_count :: u16
  dns_auth_count :: u16
  dns_add_count :: u16

text \<open>The memory of a header: the bit-fields are allocated from the least significant bit.\<close>

definition header_bytes :: "DNS_HEADER \<Rightarrow> u8 list" where
  "header_bytes h =
     le_bytes 2 (dns_id h) @
     [take_bit 1 (dns_rd h) OR push_bit 1 (take_bit 1 (dns_tc h)) OR push_bit 2 (take_bit 1 (dns_aa h))
        OR push_bit 3 (take_bit 4 (dns_opcode h)) OR push_bit 7 (take_bit 1 (dns_qr h)),
      take_bit 4 (dns_rcode h) OR push_bit 4 (take_bit 1 (dns_cd h)) OR push_bit 5 (take_bit 1 (dns_ad h))
        OR push_bit 6 (take_bit 1 (dns_z h)) OR push_bit 7 (take_bit 1 (dns_ra h))] @
     le_bytes 2 (dns_q_count h) @ le_bytes 2 (dns_ans_count h) @
     le_bytes 2 (dns_auth_count h) @ le_bytes 2 (dns_add_count h)"

definition header_at :: "u8 list \<Rightarrow> DNS_HEADER option" where
  "header_at buf = do {
     i \<leftarrow> rd16 buf 0;
     f \<leftarrow> rd buf 2;
     g \<leftarrow> rd buf 3;
     q \<leftarrow> rd16 buf 4;
     an \<leftarrow> rd16 buf 6;
     au \<leftarrow> rd16 buf 8;
     ad \<leftarrow> rd16 buf 10;
     Some \<lparr>dns_id = i, dns_rd = take_bit 1 f, dns_tc = take_bit 1 (drop_bit 1 f),
       dns_aa = take_bit 1 (drop_bit 2 f), dns_opcode = take_bit 4 (drop_bit 3 f),
       dns_qr = drop_bit 7 f, dns_rcode = take_bit 4 g, dns_cd = take_bit 1 (drop_bit 4 g),
       dns_ad = take_bit 1 (drop_bit 5 g), dns_z = take_bit 1 (drop_bit 6 g), dns_ra = drop_bit 7 g,
       dns_q_count = q, dns_ans_count = an, dns_auth_count = au, dns_add_count = ad\<rparr>
   }"

record QUESTION =
  qtype :: u16
  qclass :: u16

record R_DATA =
  r_type :: u16
  r_class :: u16
  r_ttl :: u32
  r_data_len :: u16

definition r_data_at :: "u8 list \<Rightarrow> nat \<Rightarrow> R_DATA option" where
  "r_data_at buf i = do {
     t \<leftarrow> rd16 buf i;
     c \<leftarrow> rd16 buf (i + 2);
     l \<leftarrow> rd_range buf (i + 4) 4;
     n \<leftarrow> rd16 buf (i + 8);
     Some \<lparr>r_type = t, r_class = c, r_ttl = of_le_bytes l, r_data_len = n\<rparr>
   }"

text \<open>
  The two record structures of the parser; \<^verbatim>\<open>resource\<close> is a pointer into the packet. A record of the
  first kind holds its texts, one of the second kind points to two allocated blocks.
\<close>

record DNS_RECORD =
  a_name :: "u8 list"
  a_resource :: nat
  a_rdata :: "u8 list"

record RES_RECORD =
  s_name :: "u8 list"
  s_resource :: nat
  s_rdata :: "u8 list"

definition T_A :: nat where "T_A = 1"

section \<open>Names into wire format\<close>

text \<open>\<^verbatim>\<open>strchr\<close> on a memory object: the position of the first such byte before the terminator.\<close>

fun strchr_list :: "u8 list \<Rightarrow> u8 \<Rightarrow> nat \<Rightarrow> nat option option" where
  "strchr_list [] c i = None"
| "strchr_list (b # bs) c i =
     (if b = c then Some (Some i) else if b = 0 then Some None else strchr_list bs c (Suc i))"

definition strchr :: "u8 list \<Rightarrow> nat \<Rightarrow> u8 \<Rightarrow> nat option option" where
  "strchr buf p c = strchr_list (drop p buf) c p"

lemma strchr_list_bounds: "strchr_list bs c i = Some (Some q) \<Longrightarrow> i \<le> q \<and> q < i + length bs"
  by (induction bs c i rule: strchr_list.induct) (auto split: if_splits)

lemma strchr_bounds: "strchr buf p c = Some (Some q) \<Longrightarrow> p \<le> q \<and> q < length buf"
  unfolding strchr_def by (drule strchr_list_bounds) (cases "p \<le> length buf"; simp)

function name_encode_loop :: "u8 list \<Rightarrow> nat \<Rightarrow> nat \<Rightarrow> nat \<Rightarrow> u8 list option" where
  "name_encode_loop buf dst N q =
     (case strchr buf (q + 1) 46 of
        None \<Rightarrow> None
      | Some None \<Rightarrow> wr buf q (of_int (int dst + int N - int q))
      | Some (Some q') \<Rightarrow>
          (case wr buf q (of_nat (q' - q - 1)) of
             None \<Rightarrow> None
           | Some buf' \<Rightarrow> name_encode_loop buf' dst N q'))"
  by pat_completeness auto
termination
  by (relation "measure (\<lambda>(buf, dst, N, q). length buf - q)")
     (auto dest!: strchr_bounds length_wr)

declare name_encode_loop.simps [simp del]

definition name_encode :: "u8 list \<Rightarrow> nat \<Rightarrow> u8 list \<Rightarrow> u8 list option" where
  "name_encode buf dst src = do {
     N \<leftarrow> strlen src;
     s \<leftarrow> rd_range src 0 (N + 1);
     buf \<leftarrow> wr_range buf (dst + 1) s;
     name_encode_loop buf dst N dst
   }"

text \<open>
  The older routine, which appends a dot to the host text in place and copies label by label. It is
  called nowhere any more.
\<close>

fun ChangetoDns_copy :: "u8 list \<Rightarrow> nat \<Rightarrow> u8 list \<Rightarrow> nat \<Rightarrow> nat \<Rightarrow> (u8 list \<times> nat) option" where
  "ChangetoDns_copy out dns host lock 0 = Some (out, dns)"
| "ChangetoDns_copy out dns host lock (Suc k) = do {
     b \<leftarrow> rd host lock;
     out \<leftarrow> wr out dns b;
     ChangetoDns_copy out (dns + 1) host (lock + 1) k
   }"

function ChangetoDns_loop ::
  "u8 list \<Rightarrow> nat \<Rightarrow> u8 list \<Rightarrow> nat \<Rightarrow> nat \<Rightarrow> (u8 list \<times> nat) option" where
  "ChangetoDns_loop out dns host lock i =
     (case strlen host of
        None \<Rightarrow> None
      | Some n \<Rightarrow>
          if i < n then
            if host ! i = 46 then
              (case wr out dns (of_int (int i - int lock)) of
                 None \<Rightarrow> None
               | Some out \<Rightarrow>
                   (case ChangetoDns_copy out (dns + 1) host lock (i - lock) of
                      None \<Rightarrow> None
                    | Some (out, dns) \<Rightarrow> ChangetoDns_loop out dns host (max lock i + 1) (i + 1)))
            else ChangetoDns_loop out dns host lock (i + 1)
          else Some (out, dns))"
  by pat_completeness auto
termination
  by (relation "measure (\<lambda>(out, dns, host, lock, i). length host - i)")
     (auto simp: strlen_def cstr_def split: if_splits
           dest!: less_le_trans [OF _ length_takeWhile_le])

declare ChangetoDns_loop.simps [simp del]

definition ChangetoDnsNameFormat :: "u8 list \<Rightarrow> nat \<Rightarrow> u8 list \<Rightarrow> (u8 list \<times> u8 list) option" where
  "ChangetoDnsNameFormat out dns host = do {
     n \<leftarrow> strlen host;
     host \<leftarrow> wr_range host n [46, 0];
     (out, dns) \<leftarrow> ChangetoDns_loop out dns host 0 0;
     out \<leftarrow> wr out dns 0;
     Some (out, host)
   }"

section \<open>Names from wire format\<close>

text \<open>
  The termination measure of the loop below counts the steps of size 0.  Such a step occurs only after a length byte of 255; it overwrites that byte, so at most two
  of them happen in a row.
\<close>

definition zero_steps :: "u8 list \<Rightarrow> nat \<Rightarrow> u8 \<Rightarrow> nat" where
  "zero_steps buf p n = (if n \<noteq> 0 then 0 else if buf ! p + 1 = 0 then 2 else 1)"

function name_decode_loop :: "u8 list \<Rightarrow> nat \<Rightarrow> u8 \<Rightarrow> u8 list option" where
  "name_decode_loop buf p n =
     (case rd buf (p + unat n) of
        None \<Rightarrow> None
      | Some m \<Rightarrow>
          (let buf' = buf[p + unat n := 46]; p' = p + unat n; n' = m + 1 in
           case rd buf' (p' + unat n') of
             None \<Rightarrow> None
           | Some c \<Rightarrow> if c \<noteq> 0 then name_decode_loop buf' p' n' else Some buf'))"
  by pat_completeness auto
termination
proof (relation "measure (\<lambda>(buf, p, n). 3 * (length buf - p) + zero_steps buf p n)", goal_cases)
  case 1
  show ?case by simp
next
  case (2 buf p n m buf' p' n' c)
  then have p: "p + unat n < length buf" and m: "m = buf ! (p + unat n)"
    by (auto simp: rd_eq_Some_iff)
  show ?case
  proof (cases "n = 0")
    case True
    with 2 p m show ?thesis by (auto simp: zero_steps_def)
  next
    case False
    then have "0 < unat n" by (simp add: unat_gt_0)
    moreover have "zero_steps buf' p' n' \<le> 2" by (simp add: zero_steps_def)
    ultimately show ?thesis using 2 p by (simp add: zero_steps_def)
  qed
qed

declare name_decode_loop.simps [simp del]

text \<open>\<^verbatim>\<open>src = None\<close> is the call with \<^verbatim>\<open>dst == src\<close>.\<close>

definition name_decode :: "u8 list \<Rightarrow> u8 list option \<Rightarrow> u8 list option" where
  "name_decode dst src = do {
     let s = (case src of None \<Rightarrow> dst | Some s \<Rightarrow> s);
     N \<leftarrow> strlen s;
     b \<leftarrow> rd s 0;
     dst \<leftarrow> (case src of
       None \<Rightarrow> Some dst
     | Some s \<Rightarrow> do {
         t \<leftarrow> rd_range s 0 (N + 1);
         wr_range dst 0 t
       });
     dst \<leftarrow> name_decode_loop dst 0 (b + 1);
     t \<leftarrow> rd_range dst 1 N;
     wr_range dst 0 t
   }"

text \<open>The collecting loop of \<^verbatim>\<open>read_name\<close>; its state is \<^verbatim>\<open>(reader, p, jump, n, name)\<close>.\<close>

partial_function (option) read_name_loop ::
  "u8 list \<Rightarrow> nat \<Rightarrow> nat \<Rightarrow> bool \<Rightarrow> nat \<Rightarrow> u8 list \<Rightarrow> (nat \<times> bool \<times> nat \<times> u8 list) option option" where
  "read_name_loop buf reader p jump n name =
     (case rd buf reader of
        None \<Rightarrow> Some None
      | Some b \<Rightarrow>
          if b = 0 then Some (Some (p, jump, n, name))
          else if 0xc0 \<le> b then
            (case rd buf (reader + 1) of
               None \<Rightarrow> Some None
             | Some c \<Rightarrow> read_name_loop buf (unat b * 256 + unat c - 0xc000) p True n name)
          else
            (case wr name p b of
               None \<Rightarrow> Some None
             | Some name' \<Rightarrow>
                 read_name_loop buf (reader + 1) (p + 1) jump (if jump then n else n + 1) name'))"

definition read_name ::
  "u8 list \<Rightarrow> nat \<Rightarrow> u8 list \<Rightarrow> (u8 list \<times> nat) option option" where
  "read_name buf reader name =
     run_bind (read_name_loop buf reader 0 False 1 name) (\<lambda>(p, jump, n, name).
       Some (do {
         name \<leftarrow> wr name p 0;
         name \<leftarrow> name_decode name None;
         Some (name, n + of_bool jump)
       }))"

partial_function (option) ReadName_loop ::
  "u8 list \<Rightarrow> nat \<Rightarrow> nat \<Rightarrow> bool \<Rightarrow> nat \<Rightarrow> u8 list \<Rightarrow> (nat \<times> bool \<times> nat \<times> u8 list) option option" where
  "ReadName_loop buf reader p jumped count name =
     (case rd buf reader of
        None \<Rightarrow> Some None
      | Some b \<Rightarrow>
          if b \<noteq> 0 then
            (case (if 192 \<le> b then
                     (case rd buf (reader + 1) of
                        None \<Rightarrow> None
                      | Some c \<Rightarrow> Some (int (unat b) * 256 + int (unat c) - 49152 - 1, p, True, name))
                   else
                     (case wr name p b of
                        None \<Rightarrow> None
                      | Some name' \<Rightarrow> Some (int reader, p + 1, jumped, name'))) of
               None \<Rightarrow> Some None
             | Some (reader', p', jumped', name') \<Rightarrow>
                 ReadName_loop buf (nat (reader' + 1)) p' jumped'
                   (if jumped' then count else count + 1) name')
          else Some (Some (p, jumped, count, name)))"

fun ReadName_shift :: "u8 list \<Rightarrow> nat \<Rightarrow> nat \<Rightarrow> (u8 list \<times> nat) option" where
  "ReadName_shift name i 0 = Some (name, i)"
| "ReadName_shift name i (Suc k) = do {
     b \<leftarrow> rd name (i + 1);
     name \<leftarrow> wr name i b;
     ReadName_shift name (i + 1) k
   }"

lemma ReadName_shift_mono:
  "ReadName_shift name i k = Some (name', i') \<Longrightarrow> length name' = length name \<and> i' = i + k"
  by (induction k arbitrary: name i) (fastforce simp: bind_eq_Some_conv wr_eq_Some_iff)+

function ReadName_dots :: "u8 list \<Rightarrow> nat \<Rightarrow> (u8 list \<times> nat) option" where
  "ReadName_dots name i =
     (case strlen name of
        None \<Rightarrow> None
      | Some n \<Rightarrow>
          if i < n then
            (case ReadName_shift name i (unat (name ! i)) of
               None \<Rightarrow> None
             | Some (name', i') \<Rightarrow>
                 (case wr name' i' 46 of
                    None \<Rightarrow> None
                  | Some name'' \<Rightarrow> ReadName_dots name'' (i' + 1)))
          else Some (name, i))"
  by pat_completeness auto
termination
  by (relation "measure (\<lambda>(name, i). length name - i)")
     (auto simp: strlen_def cstr_def wr_eq_Some_iff split: if_splits
           dest!: ReadName_shift_mono less_le_trans [OF _ length_takeWhile_le])

declare ReadName_dots.simps [simp del]

definition ReadName ::
  "(nat \<Rightarrow> u8 list option) \<Rightarrow> u8 list \<Rightarrow> nat \<Rightarrow> (u8 list \<times> nat) option option" where
  "ReadName malloc buf reader =
     (case malloc 256 of
        None \<Rightarrow> Some None
      | Some name \<Rightarrow>
          (case wr name 0 0 of
             None \<Rightarrow> Some None
           | Some name \<Rightarrow>
               run_bind (ReadName_loop buf reader 0 False 1 name) (\<lambda>(p, jumped, count, name).
                 Some (do {
                   name \<leftarrow> wr name p 0;
                   (name, i) \<leftarrow> ReadName_dots name 0;
                   name \<leftarrow> (if i = 0 then None else wr name (i - 1) 0);
                   Some (name, count + of_bool jumped)
                 }))))"

section \<open>The query\<close>

text \<open>
  What the program sees of the system: the process id, whether \<^verbatim>\<open>sendto\<close> succeeds, the datagram that
  \<^verbatim>\<open>recvfrom\<close> delivers for a sent packet (\<^term>\<open>None\<close> when it fails), and \<^verbatim>\<open>malloc\<close>.
\<close>

record dns_env =
  env_getpid :: nat
  env_sendto :: "u8 list \<Rightarrow> bool"
  env_recvfrom :: "u8 list \<Rightarrow> u8 list option"
  env_malloc :: "nat \<Rightarrow> u8 list option"

definition query_header :: "nat \<Rightarrow> DNS_HEADER" where
  "query_header pid = \<lparr>dns_id = htons (of_nat pid), dns_rd = 1, dns_tc = 0, dns_aa = 0, dns_opcode = 0,
     dns_qr = 0, dns_rcode = 0, dns_cd = 0, dns_ad = 0, dns_z = 0, dns_ra = 0,
     dns_q_count = htons 1, dns_ans_count = 0, dns_auth_count = 0, dns_add_count = 0\<rparr>"

definition question :: "nat \<Rightarrow> QUESTION" where
  "question query_type = \<lparr>qtype = htons (of_nat query_type), qclass = htons 1\<rparr>"

text \<open>Fills the packet; the second result is the offset just after the question.\<close>

definition build_query :: "nat \<Rightarrow> u8 list \<Rightarrow> u8 list \<Rightarrow> nat \<Rightarrow> (u8 list \<times> nat) option" where
  "build_query pid buf host query_type = do {
     buf \<leftarrow> wr_range buf 0 (header_bytes (query_header pid));
     buf \<leftarrow> name_encode buf 12 host;
     n \<leftarrow> strlen (drop 12 buf);
     let qinfo = 12 + (n + 1);
     buf \<leftarrow> wr16 buf qinfo (qtype (question query_type));
     buf \<leftarrow> wr16 buf (qinfo + 2) (qclass (question query_type));
     n \<leftarrow> strlen (drop 12 buf);
     Some (buf, 12 + (n + 1) + 4)
   }"

section \<open>The resource records of the answer\<close>

text \<open>
  The loops over the three sections; \<open>k\<close> is the number of records left. The length of an address
  record is read into a signed 16-bit variable and converted to \<^verbatim>\<open>size_t\<close> by the call of
  \<^verbatim>\<open>memcpy\<close>, so a negative one copies beyond every object.
\<close>

definition read_answer_rdata ::
  "(nat \<Rightarrow> u8 list option) \<Rightarrow> u8 list \<Rightarrow> nat \<Rightarrow> R_DATA \<Rightarrow> u8 list \<Rightarrow> (u8 list \<times> nat) option option" where
  "read_answer_rdata malloc buf reader res rdata =
     (if ntohs (r_type res) = 1 then
        (let len = sint (ntohs (r_data_len res)) in
         if len < 0 then Some None
         else Some (do {
           bs \<leftarrow> rd_range buf reader (nat len);
           rdata \<leftarrow> wr_range rdata 0 bs;
           Some (rdata, reader + nat len)
         }))
      else
        run_bind (ReadName malloc buf reader) (\<lambda>(name, stop).
          Some (do {
            bs \<leftarrow> rd_range name 0 (unat (r_data_len res));
            rdata \<leftarrow> wr_range rdata 0 bs;
            Some (rdata, reader + stop)
          })))"

fun read_answers ::
  "(nat \<Rightarrow> u8 list option) \<Rightarrow> u8 list \<Rightarrow> nat \<Rightarrow> nat \<Rightarrow> nat \<Rightarrow> DNS_RECORD list \<Rightarrow>
   (DNS_RECORD list \<times> nat) option option" where
  "read_answers malloc buf reader i 0 answers = Some (Some (answers, reader))"
| "read_answers malloc buf reader i (Suc k) answers =
     run_bind (Some (rd answers i)) (\<lambda>a.
     run_bind (read_name buf reader (a_name a)) (\<lambda>(name, stop).
     run_bind (Some (r_data_at buf (reader + stop))) (\<lambda>res.
     run_bind (read_answer_rdata malloc buf (reader + stop + 10) res (a_rdata a)) (\<lambda>(rdata, reader').
       read_answers malloc buf reader' (Suc i) k
         (answers[i := \<lparr>a_name = name, a_resource = reader + stop, a_rdata = rdata\<rparr>])))))"

text \<open>The authority records: both texts are names.\<close>

fun read_auth ::
  "(nat \<Rightarrow> u8 list option) \<Rightarrow> u8 list \<Rightarrow> nat \<Rightarrow> nat \<Rightarrow> nat \<Rightarrow> RES_RECORD list \<Rightarrow>
   (RES_RECORD list \<times> nat) option option" where
  "read_auth malloc buf reader i 0 auth = Some (Some (auth, reader))"
| "read_auth malloc buf reader i (Suc k) auth =
     run_bind (Some (rd auth i)) (\<lambda>_.
     run_bind (ReadName malloc buf reader) (\<lambda>(name, stop).
     run_bind (ReadName malloc buf (reader + stop + 10)) (\<lambda>(rdata, stop').
       read_auth malloc buf (reader + stop + 10 + stop') (Suc i) k
         (auth[i := \<lparr>s_name = name, s_resource = reader + stop, s_rdata = rdata\<rparr>]))))"

text \<open>The data of an additional record; for an address it is copied byte by byte and terminated.\<close>

fun copy_rdata :: "u8 list \<Rightarrow> u8 list \<Rightarrow> nat \<Rightarrow> nat \<Rightarrow> nat \<Rightarrow> u8 list option" where
  "copy_rdata rdata buf reader j 0 = Some rdata"
| "copy_rdata rdata buf reader j (Suc k) = do {
     b \<leftarrow> rd buf (reader + j);
     rdata \<leftarrow> wr rdata j b;
     copy_rdata rdata buf reader (Suc j) k
   }"

definition read_addit_rdata ::
  "(nat \<Rightarrow> u8 list option) \<Rightarrow> u8 list \<Rightarrow> nat \<Rightarrow> R_DATA \<Rightarrow> (u8 list \<times> nat) option option" where
  "read_addit_rdata malloc buf reader res =
     (if ntohs (r_type res) = 1 then
        Some (do {
          let len = unat (ntohs (r_data_len res));
          rdata \<leftarrow> malloc len;
          rdata \<leftarrow> copy_rdata rdata buf reader 0 len;
          rdata \<leftarrow> wr rdata len 0;
          Some (rdata, reader + len)
        })
      else
        run_bind (ReadName malloc buf reader) (\<lambda>(name, stop). Some (Some (name, reader + stop))))"

fun read_addit ::
  "(nat \<Rightarrow> u8 list option) \<Rightarrow> u8 list \<Rightarrow> nat \<Rightarrow> nat \<Rightarrow> nat \<Rightarrow> RES_RECORD list \<Rightarrow>
   (RES_RECORD list \<times> nat) option option" where
  "read_addit malloc buf reader i 0 addit = Some (Some (addit, reader))"
| "read_addit malloc buf reader i (Suc k) addit =
     run_bind (Some (rd addit i)) (\<lambda>_.
     run_bind (ReadName malloc buf reader) (\<lambda>(name, stop).
     run_bind (Some (r_data_at buf (reader + stop))) (\<lambda>res.
     run_bind (read_addit_rdata malloc buf (reader + stop + 10) res) (\<lambda>(rdata, reader').
       read_addit malloc buf reader' (Suc i) k
         (addit[i := \<lparr>s_name = name, s_resource = reader + stop, s_rdata = rdata\<rparr>])))))"

section \<open>The report\<close>

definition print_answer :: "u8 list \<Rightarrow> DNS_RECORD \<Rightarrow> u8 list option" where
  "print_answer buf a = do {
     name \<leftarrow> cstring (a_name a);
     res \<leftarrow> r_data_at buf (a_resource a);
     p4 \<leftarrow> (if ntohs (r_type res) = of_nat T_A then do {
         ip \<leftarrow> rd_range (a_rdata a) 0 4;
         Some (str ''has IPv4 address : '' @ inet_ntoa ip)
       } else Some []);
     alias \<leftarrow> (if ntohs (r_type res) = 5 then do {
         t \<leftarrow> cstring (a_rdata a);
         Some (str ''has alias name : '' @ t)
       } else Some []);
     Some (str ''Name : '' @ name @ [32] @ p4 @ alias @ [10])
   }"

definition print_auth :: "u8 list \<Rightarrow> RES_RECORD \<Rightarrow> u8 list option" where
  "print_auth buf a = do {
     name \<leftarrow> cstring (s_name a);
     res \<leftarrow> r_data_at buf (s_resource a);
     ns \<leftarrow> (if ntohs (r_type res) = 2 then do {
         t \<leftarrow> cstring (s_rdata a);
         Some (str ''has nameserver : '' @ t)
       } else Some []);
     Some (str ''Name : '' @ name @ [32] @ ns @ [10])
   }"

text \<open>The address of an additional record is read through a \<^verbatim>\<open>long\<close> pointer: eight bytes.\<close>

definition print_addit :: "u8 list \<Rightarrow> RES_RECORD \<Rightarrow> u8 list option" where
  "print_addit buf a = do {
     name \<leftarrow> cstring (s_name a);
     res \<leftarrow> r_data_at buf (s_resource a);
     p4 \<leftarrow> (if ntohs (r_type res) = 1 then do {
         ip \<leftarrow> rd_range (s_rdata a) 0 8;
         Some (str ''has IPv4 address : '' @ inet_ntoa (take 4 ip))
       } else Some []);
     Some (str ''Name : '' @ name @ [32] @ p4 @ [10])
   }"

fun print_all :: "('a \<Rightarrow> u8 list option) \<Rightarrow> 'a list \<Rightarrow> nat \<Rightarrow> nat \<Rightarrow> u8 list option" where
  "print_all f xs i 0 = Some []"
| "print_all f xs i (Suc k) = do {
     x \<leftarrow> rd xs i;
     t \<leftarrow> f x;
     ts \<leftarrow> print_all f xs (Suc i) k;
     Some (t @ ts)
   }"

definition print_counts :: "DNS_HEADER \<Rightarrow> u8 list" where
  "print_counts dns =
     str ''Done'' @ [10] @ str ''The response contains : '' @
     [10] @ str '' '' @ fmt_d (unat (ntohs (dns_q_count dns))) @ str '' Questions.'' @
     [10] @ str '' '' @ fmt_d (unat (ntohs (dns_ans_count dns))) @ str '' Answers.'' @
     [10] @ str '' '' @ fmt_d (unat (ntohs (dns_auth_count dns))) @ str '' Authoritative Servers.'' @
     [10] @ str '' '' @ fmt_d (unat (ntohs (dns_add_count dns))) @ str '' Additional records.'' @ [10, 10]"

definition print_sections ::
  "u8 list \<Rightarrow> DNS_HEADER \<Rightarrow> DNS_RECORD list \<Rightarrow> RES_RECORD list \<Rightarrow> RES_RECORD list \<Rightarrow> u8 list option" where
  "print_sections buf dns answers auth addit = do {
     let an = unat (ntohs (dns_ans_count dns));
     let au = unat (ntohs (dns_auth_count dns));
     let ad = unat (ntohs (dns_add_count dns));
     t1 \<leftarrow> print_all (print_answer buf) answers 0 an;
     t2 \<leftarrow> print_all (print_auth buf) auth 0 au;
     t3 \<leftarrow> print_all (print_addit buf) addit 0 ad;
     Some ([10] @ str ''Answer Records : '' @ fmt_d an @ [32, 10] @ t1 @
           [10] @ str ''Authoritive Records : '' @ fmt_d au @ [32, 10] @ t2 @
           [10] @ str ''Additional Records : '' @ fmt_d ad @ [32, 10] @ t3)
   }"

section \<open>The client\<close>

text \<open>
  The uninitialised local arrays of \<^verbatim>\<open>ngethostbyname\<close>.
\<close>

record dns_frame =
  f_buf :: "u8 list"
  f_answers :: "DNS_RECORD list"
  f_auth :: "RES_RECORD list"
  f_addit :: "RES_RECORD list"

definition frame_ok :: "dns_frame \<Rightarrow> bool" where
  "frame_ok f \<longleftrightarrow> length (f_buf f) = 65536 \<and> length (f_answers f) = 20 \<and>
     length (f_auth f) = 20 \<and> length (f_addit f) = 20 \<and>
     list_all (\<lambda>a. length (a_name a) = 256 \<and> length (a_rdata a) = 4) (f_answers f)"

text \<open>The part of the function after \<^verbatim>\<open>recvfrom\<close>.\<close>

definition handle_reply ::
  "(nat \<Rightarrow> u8 list option) \<Rightarrow> dns_frame \<Rightarrow> u8 list \<Rightarrow> u8 list option option" where
  "handle_reply malloc f buf =
     run_bind (Some (do {
       dns \<leftarrow> header_at buf;
       n \<leftarrow> strlen (drop 12 buf);
       Some (dns, 12 + (n + 1) + 4)
     })) (\<lambda>(dns, reader).
     run_bind (read_answers malloc buf reader 0 (unat (ntohs (dns_ans_count dns))) (f_answers f))
       (\<lambda>(answers, reader).
     run_bind (read_auth malloc buf reader 0 (unat (ntohs (dns_auth_count dns))) (f_auth f))
       (\<lambda>(auth, reader).
     run_bind (read_addit malloc buf reader 0 (unat (ntohs (dns_add_count dns))) (f_addit f))
       (\<lambda>(addit, reader).
       Some (map_option ((@) (print_counts dns)) (print_sections buf dns answers auth addit))))))"

text \<open>
  The result is the packet handed to \<^verbatim>\<open>sendto\<close>, the text written to standard output and the
  messages of \<^verbatim>\<open>perror\<close>. When
  \<^verbatim>\<open>recvfrom\<close> fails the code goes on with the packet it has just sent.
\<close>

definition ngethostbyname ::
  "dns_env \<Rightarrow> dns_frame \<Rightarrow> u8 list \<Rightarrow> nat \<Rightarrow> (u8 list \<times> u8 list \<times> u8 list list) option option" where
  "ngethostbyname env f host query_type =
     run_bind (Some (do {
       h \<leftarrow> cstring host;
       (buf, stop) \<leftarrow> build_query (env_getpid env) (f_buf f) host query_type;
       Some (h, buf, take stop buf)
     })) (\<lambda>(h, buf, packet).
     run_bind (Some (case env_recvfrom env packet of
                       None \<Rightarrow> Some buf
                     | Some d \<Rightarrow> wr_range buf 0 (take 65536 d))) (\<lambda>buf'.
     run_bind (handle_reply (env_malloc env) f buf') (\<lambda>t.
       Some (Some (packet, str ''Resolving '' @ h @ [10] @ str ''Sending Packet...'' @ str ''Done'' @
                           [10] @ str ''Receiving answer...'' @ t,
                   (if env_sendto env packet then [] else [str ''sendto failed'']) @
                   (if env_recvfrom env packet = None then [str ''recvfrom failed''] else []))))))"

definition dns_server_0 :: "u8 list" where
  "dns_server_0 = str ''208.67.222.222''"

definition dns_server_1 :: "u8 list" where
  "dns_server_1 = str ''208.67.220.220''"

text \<open>
  \<open>resolv\<close> is the content of \<^verbatim>\<open>/etc/resolv.conf\<close>, line by line, or \<^term>\<open>None\<close> when it cannot be
  opened: then \<^verbatim>\<open>fgets\<close> is called on a null stream. The lines are scanned but nothing of them is
  kept.
\<close>

definition get_dns_servers :: "u8 list list option \<Rightarrow> u8 list list \<Rightarrow> u8 list list option" where
  "get_dns_servers resolv dns_servers = do {
     _ \<leftarrow> resolv;
     r0 \<leftarrow> rd dns_servers 0;
     r0 \<leftarrow> wr_range r0 0 (dns_server_0 @ [0]);
     dns_servers \<leftarrow> wr dns_servers 0 r0;
     r1 \<leftarrow> rd dns_servers 1;
     r1 \<leftarrow> wr_range r1 0 (dns_server_1 @ [0]);
     wr dns_servers 1 r1
   }"

text \<open>\<open>input\<close> is the word \<^verbatim>\<open>scanf\<close> reads into the array of 100 bytes.\<close>

definition dns_main ::
  "dns_env \<Rightarrow> dns_frame \<Rightarrow> u8 list list option \<Rightarrow> u8 list \<Rightarrow> u8 list \<Rightarrow>
   (u8 list list \<times> u8 list \<times> u8 list \<times> u8 list list) option option" where
  "dns_main env f resolv hostname input =
     run_bind (Some (do {
       servers \<leftarrow> get_dns_servers resolv (replicate 10 (replicate 100 0));
       hostname \<leftarrow> wr_range hostname 0 (input @ [0]);
       Some (servers, hostname)
     })) (\<lambda>(servers, hostname).
     run_bind (ngethostbyname env f hostname T_A) (\<lambda>(packet, out, err).
       Some (Some (servers, packet, str ''Enter Hostname to Lookup : '' @ out, err))))"

section \<open>Wire format\<close>

text \<open>The wire form of a list of labels (without the final zero byte) and its dotted text.\<close>

definition wire :: "u8 list list \<Rightarrow> u8 list" where
  "wire ls = concat (map (\<lambda>l. of_nat (length l) # l) ls)"

fun dotted :: "u8 list list \<Rightarrow> u8 list" where
  "dotted [] = []"
| "dotted (l # ls) = l @ concat (map ((#) 46) ls)"

definition label_ok :: "u8 list \<Rightarrow> bool" where
  "label_ok l \<longleftrightarrow> l \<noteq> [] \<and> length l < 64 \<and> list_all (\<lambda>b. b \<noteq> 0 \<and> b \<noteq> 46 \<and> b < 0xc0) l"

lemma wire_simps [simp]: "wire [] = []" "wire (l # ls) = of_nat (length l) # l @ wire ls"
  by (simp_all add: wire_def)

lemma label_okD:
  assumes "label_ok l"
  shows "l \<noteq> []" "length l < 64" "0 \<notin> set l" "46 \<notin> set l"
  using assms by (auto simp: label_ok_def list_all_iff)

lemma label_len:
  assumes "label_ok l"
  shows "unat (of_nat (length l) :: u8) = length l" "(of_nat (length l) :: u8) \<noteq> 0"
    "(of_nat (length l) :: u8) < 0xc0" "unat (of_nat (length l) + 1 :: u8) = length l + 1"
proof -
  have l: "0 < length l" "length l < 64" using label_okD [OF assms] by auto
  then show u: "unat (of_nat (length l) :: u8) = length l" by (simp add: unat_of_nat_small)
  show "(of_nat (length l) :: u8) \<noteq> 0"
    using u l(1) by (metis less_irrefl unsigned_0)
  show "(of_nat (length l) :: u8) < 0xc0" using u l by (simp add: word_less_nat_alt)
  have "unat (of_nat (length l + 1) :: u8) = length l + 1"
    using l by (intro unat_of_nat_small) simp
  then show "unat (of_nat (length l) + 1 :: u8) = length l + 1" by (simp add: add.commute)
qed

lemma wire_no_NUL: "list_all label_ok ls \<Longrightarrow> 0 \<notin> set (wire ls)"
proof (induction ls)
  case (Cons l ls)
  then have "label_ok l" "0 \<notin> set (wire ls)" by simp_all
  then show ?case
    using label_len(2) [of l] label_okD(3) [of l] by (metis Un_iff set_ConsD set_append wire_simps(2))
qed simp

lemma length_dotted: "ls \<noteq> [] \<Longrightarrow> Suc (length (dotted ls)) = length (wire ls)"
proof -
  have "length (concat (map ((#) 46) xs)) = length (wire xs)" for xs :: "u8 list list"
    by (induction xs) simp_all
  moreover assume "ls \<noteq> []"
  ultimately show ?thesis by (cases ls) simp_all
qed

lemma dotted_no_NUL: "list_all label_ok ls \<Longrightarrow> 0 \<notin> set (dotted ls)"
  by (cases ls) (auto simp: list_all_iff dest!: label_okD(3))

section \<open>Encoding\<close>

lemma strchr_list_found: "c \<notin> set l \<Longrightarrow> 0 \<notin> set l \<Longrightarrow> strchr_list (l @ c # r) c i = Some (Some (i + length l))"
  by (induction l arbitrary: i) auto

lemma strchr_list_none: "c \<notin> set l \<Longrightarrow> c \<noteq> 0 \<Longrightarrow> 0 \<notin> set l \<Longrightarrow> strchr_list (l @ 0 # r) c i = Some None"
  by (induction l arbitrary: i) auto

lemma name_encode_loop_wire:
  assumes "ls \<noteq> []" "\<And>l. l \<in> set ls \<Longrightarrow> 0 \<notin> set l \<and> 46 \<notin> set l" "dst + N = length pre + length (dotted ls)"
  shows "name_encode_loop (pre @ x # dotted ls @ 0 # post) dst N (length pre) =
           Some (pre @ wire ls @ 0 # post)"
  using assms
proof (induction ls arbitrary: pre x)
  case (Cons l ls)
  show ?case
  proof (cases ls)
    case Nil
    with Cons.prems have "strchr (pre @ x # dotted (l # ls) @ 0 # post) (length pre + 1) 46 = Some None"
      by (simp add: strchr_def strchr_list_none)
    moreover have "int dst + int N - int (length pre) = int (length l)"
      using Cons.prems(3) Nil by simp
    ultimately show ?thesis using Nil
      by (subst name_encode_loop.simps) (simp add: mem_simps)
  next
    case (Cons l' ls')
    let ?pre = "pre @ of_nat (length l) # l"
    have eq: "pre @ x # dotted (l # ls) @ 0 # post = pre @ x # l @ 46 # dotted ls @ 0 # post"
      by (simp add: Cons)
    have "strchr (pre @ x # l @ 46 # dotted ls @ 0 # post) (length pre + 1) 46
            = Some (Some (Suc (length pre) + length l))"
      using Cons.prems(2) [of l] by (simp add: strchr_def strchr_list_found)
    then have "name_encode_loop (pre @ x # dotted (l # ls) @ 0 # post) dst N (length pre) =
        name_encode_loop (?pre @ 46 # dotted ls @ 0 # post) dst N (length ?pre)"
      unfolding eq by (subst name_encode_loop.simps) (simp add: mem_simps)
    also have "\<dots> = Some (?pre @ wire ls @ 0 # post)"
      using Cons.prems Cons by (intro Cons.IH) auto
    finally show ?thesis by simp
  qed
qed simp

lemma name_encode_wire:
  assumes "ls \<noteq> []" "\<And>l. l \<in> set ls \<Longrightarrow> 0 \<notin> set l \<and> 46 \<notin> set l"
    and "d + length (dotted ls) + 2 \<le> length buf"
  shows "name_encode buf d (dotted ls @ 0 # t) =
           Some (take d buf @ wire ls @ 0 # drop (d + length (dotted ls) + 2) buf)"
proof -
  let ?n = "length (dotted ls)"
  have z: "0 \<notin> set (dotted ls)"
    using assms(2) by (cases ls) (auto dest: assms(2))
  then have "strlen (dotted ls @ 0 # t) = Some ?n" by simp
  moreover have "rd_range (dotted ls @ 0 # t) 0 (?n + 1) = Some (dotted ls @ [0])"
    by (simp add: rd_range_def)
  moreover have "wr_range buf (d + 1) (dotted ls @ [0]) =
      Some (take d buf @ buf ! d # dotted ls @ 0 # drop (d + ?n + 2) buf)"
    using assms(3) by (simp add: wr_range_def take_Suc_conv_app_nth add.commute)
  moreover have "name_encode_loop (take d buf @ buf ! d # dotted ls @ 0 # drop (d + ?n + 2) buf) d ?n d
      = Some (take d buf @ wire ls @ 0 # drop (d + ?n + 2) buf)"
    using name_encode_loop_wire [OF assms(1,2), where pre = "take d buf" and dst = d and N = ?n] assms(3) by simp
  ultimately show ?thesis by (simp add: name_encode_def)
qed

section \<open>Decoding\<close>

lemma name_decode_loop_wire:
  assumes "ls \<noteq> []" "list_all label_ok ls" "unat n = length l + 1"
  shows "name_decode_loop (pre @ x # l @ wire ls @ 0 # post) (length pre) n =
           Some (pre @ x # l @ concat (map ((#) 46) ls) @ 0 # post)"
  using assms
proof (induction ls arbitrary: pre x l n)
  case (Cons l2 ls)
  let ?buf = "pre @ x # l @ wire (l2 # ls) @ 0 # post"
  let ?m = "of_nat (length l2) :: u8"
  let ?pre = "pre @ x # l"
  have l2: "label_ok l2" using Cons.prems by simp
  have at: "length pre + unat n = length ?pre" using Cons.prems(3) by simp
  have buf: "?buf = ?pre @ ?m # l2 @ wire ls @ 0 # post" by simp
  have r: "rd ?buf (length ?pre) = Some ?m" unfolding buf by (rule rd_append_mid)
  have b': "?buf[length ?pre := 46] = ?pre @ 46 # l2 @ wire ls @ 0 # post"
    unfolding buf by (rule list_update_length)
  have n': "unat (?m + 1) = length l2 + 1" by (rule label_len(4) [OF l2])
  have step: "name_decode_loop ?buf (length pre) n =
      (case rd (?pre @ 46 # l2 @ wire ls @ 0 # post) (length ?pre + unat (?m + 1)) of None \<Rightarrow> None
       | Some c \<Rightarrow> if c \<noteq> 0 then name_decode_loop (?pre @ 46 # l2 @ wire ls @ 0 # post) (length ?pre) (?m + 1)
                   else Some (?pre @ 46 # l2 @ wire ls @ 0 # post))"
    by (subst name_decode_loop.simps) (simp only: at r b' option.case Let_def)
  show ?case
  proof (cases ls)
    case Nil
    then show ?thesis unfolding step n'
      by (simp add: rd_def nth_append)
  next
    case (Cons l3 ls')
    have l3: "label_ok l3" using Cons.prems Cons by simp
    have "rd (?pre @ 46 # l2 @ wire ls @ 0 # post) (length ?pre + unat (?m + 1)) = Some (of_nat (length l3))"
      unfolding n' Cons by (simp add: rd_def nth_append)
    moreover have "name_decode_loop (?pre @ 46 # l2 @ wire ls @ 0 # post) (length ?pre) (?m + 1) =
        Some (?pre @ 46 # l2 @ concat (map ((#) 46) ls) @ 0 # post)"
      using Cons.prems Cons n' by (intro Cons.IH) auto
    ultimately show ?thesis unfolding step using label_len(2) [OF l3] by simp
  qed
qed simp

lemma name_decode_wire:
  assumes "2 \<le> length ls" "list_all label_ok ls"
  shows "name_decode (wire ls @ 0 # t) None = Some (dotted ls @ 0 # 0 # t)"
proof -
  obtain l rest where ls: "ls = l # rest" "rest \<noteq> []"
    using assms(1) by (cases ls; cases "tl ls") auto
  have z: "0 \<notin> set (wire ls)" by (rule wire_no_NUL [OF assms(2)])
  have l: "label_ok l" using assms(2) ls by simp
  have "name_decode_loop (wire ls @ 0 # t) 0 (of_nat (length l) + 1) =
      Some (of_nat (length l) # dotted ls @ 0 # t)"
    using name_decode_loop_wire [OF ls(2), of "of_nat (length l) + 1" l "[]" "of_nat (length l)" t]
      label_len(4) [OF l] assms(2) ls by simp
  moreover have "rd (wire ls @ 0 # t) 0 = Some (of_nat (length l))" by (simp add: ls)
  moreover have "rd_range (of_nat (length l) # dotted ls @ 0 # t) 1 (length (wire ls)) = Some (dotted ls @ [0])"
  proof -
    have "length (wire ls) = Suc (length (dotted ls))" using length_dotted [of ls] ls by simp
    then show ?thesis by (simp add: rd_range_def)
  qed
  moreover have "wr_range (of_nat (length l) # dotted ls @ 0 # t) 0 (dotted ls @ [0]) = Some (dotted ls @ 0 # 0 # t)"
    by (simp add: wr_range_def)
  ultimately show ?thesis using z by (simp add: name_decode_def)
qed

lemma ReadName_shift_label:
  "ReadName_shift (pre @ x # l @ rest) (length pre) (length l) =
     Some (pre @ l @ last (x # l) # rest, length pre + length l)"
proof (induction l arbitrary: pre x)
  case (Cons a l)
  have "ReadName_shift (pre @ x # a # l @ rest) (length pre) (Suc (length l)) =
      ReadName_shift ((pre @ [a]) @ a # l @ rest) (length (pre @ [a])) (length l)"
    by (simp add: rd_def wr_def nth_append)
  also have "\<dots> = Some ((pre @ [a]) @ l @ last (a # l) # rest, length (pre @ [a]) + length l)"
    by (rule Cons.IH)
  finally show ?case by simp
qed simp

lemma ReadName_dots_wire:
  assumes "list_all label_ok ls" "0 \<notin> set pre"
  shows "ReadName_dots (pre @ wire ls @ 0 # post) (length pre) =
           Some (pre @ concat (map (\<lambda>l. l @ [46]) ls) @ 0 # post, length pre + length (wire ls))"
  using assms
proof (induction ls arbitrary: pre)
  case Nil
  then show ?case by (subst ReadName_dots.simps) simp
next
  case (Cons l ls)
  let ?x = "of_nat (length l) :: u8"
  let ?name = "pre @ ?x # l @ wire ls @ 0 # post"
  have l: "label_ok l" using Cons.prems by simp
  have "strlen ?name = Some (length pre + length (wire (l # ls)))"
    using wire_no_NUL [OF Cons.prems(1)] Cons.prems(2)
      strlen_append_NUL [of "pre @ wire (l # ls)" post] by simp
  moreover have "?name ! length pre = ?x" by simp
  moreover have "ReadName_shift ?name (length pre) (unat ?x) =
      Some (pre @ l @ last (?x # l) # wire ls @ 0 # post, length pre + length l)"
    unfolding label_len(1) [OF l] by (rule ReadName_shift_label)
  moreover have "wr (pre @ l @ last (?x # l) # wire ls @ 0 # post) (length pre + length l) 46 =
      Some ((pre @ l @ [46]) @ wire ls @ 0 # post)"
    using wr_append_mid [of "pre @ l"] by simp
  ultimately have "ReadName_dots ?name (length pre) =
      ReadName_dots ((pre @ l @ [46]) @ wire ls @ 0 # post) (length (pre @ l @ [46]))"
    by (subst ReadName_dots.simps) simp
  also have "\<dots> = Some ((pre @ l @ [46]) @ concat (map (\<lambda>l. l @ [46]) ls) @ 0 # post,
      length (pre @ l @ [46]) + length (wire ls))"
    using Cons.prems label_okD(3) [OF l] by (intro Cons.IH) auto
  finally show ?case by simp
qed

lemma concat_dots: "ls \<noteq> [] \<Longrightarrow> concat (map (\<lambda>l. l @ [46]) ls) = dotted ls @ [46]"
proof -
  have *: "46 # concat (map (\<lambda>l. l @ [46]) xs) = concat (map ((#) 46) xs) @ [46]" for xs :: "u8 list list"
    by (induction xs) simp_all
  assume "ls \<noteq> []"
  then obtain l xs where "ls = l # xs" by (cases ls) auto
  then show ?thesis using * [of xs] by simp
qed

section \<open>Reading a compressed name\<close>

text \<open>
  \<open>name_at buf r ls k\<close>: at offset \<open>r\<close> of the packet stands a name with the labels \<open>ls\<close> whose own bytes
  (up to its end or its first pointer) are \<open>k\<close> many. A derivation exists only if the chain of
  pointers ends.
\<close>

inductive name_at :: "u8 list \<Rightarrow> nat \<Rightarrow> u8 list list \<Rightarrow> nat \<Rightarrow> bool" for buf :: "u8 list" where
  name_end: "rd buf r = Some 0 \<Longrightarrow> name_at buf r [] 1"
| name_ptr: "rd buf r = Some b \<Longrightarrow> 0xc0 \<le> b \<Longrightarrow> rd buf (r + 1) = Some c \<Longrightarrow>
    name_at buf (unat b * 256 + unat c - 0xc000) ls k \<Longrightarrow> name_at buf r ls 2"
| name_label: "label_ok l \<Longrightarrow> rd_range buf r (1 + length l) = Some (of_nat (length l) # l) \<Longrightarrow>
    name_at buf (r + 1 + length l) ls k \<Longrightarrow> name_at buf r (l # ls) (1 + length l + k)"

lemma name_at_labels: "name_at buf r ls k \<Longrightarrow> list_all label_ok ls"
  by (induction rule: name_at.induct) simp_all

lemma read_name_loop_bytes:
  assumes "rd_range buf r (length bs) = Some bs" "list_all (\<lambda>b. b \<noteq> 0 \<and> b < 0xc0) bs"
    and "p + length bs \<le> length name"
  shows "read_name_loop buf r p jump n name =
    read_name_loop buf (r + length bs) (p + length bs) jump (if jump then n else n + length bs)
      (take p name @ bs @ drop (p + length bs) name)"
  using assms
proof (induction bs arbitrary: r p n name)
  case (Cons b bs)
  let ?name = "name[p := b]"
  from Cons.prems(1) have r: "rd buf r = Some b" and rest: "rd_range buf (Suc r) (length bs) = Some bs"
    by (simp_all add: rd_range_Cons_iff)
  have "read_name_loop buf r p jump n name =
      read_name_loop buf (Suc r) (Suc p) jump (if jump then n else n + 1) ?name"
    using r Cons.prems(2,3) by (subst read_name_loop.simps) (simp add: wr_Some not_le [symmetric])
  also have "\<dots> = read_name_loop buf (Suc r + length bs) (Suc p + length bs) jump
      (if jump then (if jump then n else n + 1) else (if jump then n else n + 1) + length bs)
      (take (Suc p) ?name @ bs @ drop (Suc p + length bs) ?name)"
    using Cons.prems rest by (intro Cons.IH) simp_all
  also have "take (Suc p) ?name = take p name @ [b]"
    using Cons.prems(3) by (simp add: take_Suc_conv_app_nth)
  also have "drop (Suc p + length bs) ?name = drop (p + length (b # bs)) name" by simp
  finally show ?case by (simp split: if_splits)
qed simp

text \<open>The two collecting loops compute the same, non-termination included.\<close>

lemma pointer_offset:
  assumes "0xc0 \<le> (b :: u8)"
  shows "nat (int (unat b) * 256 + int (unat c) - 49152 - 1 + 1) = unat b * 256 + unat c - 0xc000"
proof -
  have "192 \<le> B \<Longrightarrow> nat (int B * 256 + int C - 49152 - 1 + 1) = B * 256 + C - 0xc000" for B C :: nat
    by arith
  moreover have "192 \<le> unat b" using assms by (simp add: word_le_nat_alt)
  ultimately show ?thesis by blast
qed

lemma read_name_loop_le:
  "read_name_loop buf r p j n name = Some y \<Longrightarrow> ReadName_loop buf r p j n name = Some y"
proof (erule read_name_loop.raw_induct
    [rotated, where P = "\<lambda>buf r p j n name y. ReadName_loop buf r p j n name = Some y"], goal_cases)
  case (1 f buf r p j n name y)
  show ?case
  proof (cases "rd buf r")
    case None
    then show ?thesis using 1(2) by (subst ReadName_loop.simps) simp
  next
    case (Some b)
    then show ?thesis using 1
      by (subst ReadName_loop.simps) (auto simp: pointer_offset [simplified] nat_add_distrib split: if_splits option.splits)
  qed
qed

lemma ReadName_loop_le:
  "ReadName_loop buf r p j n name = Some y \<Longrightarrow> read_name_loop buf r p j n name = Some y"
proof (erule ReadName_loop.raw_induct
    [rotated, where P = "\<lambda>buf r p j n name y. read_name_loop buf r p j n name = Some y"], goal_cases)
  case (1 f buf r p j n name y)
  show ?case
  proof (cases "rd buf r")
    case None
    then show ?thesis using 1(2) by (subst read_name_loop.simps) simp
  next
    case (Some b)
    then show ?thesis using 1
      by (subst read_name_loop.simps) (auto simp: pointer_offset [simplified] nat_add_distrib split: if_splits option.splits)
  qed
qed

lemma ReadName_loop_eq: "ReadName_loop buf r p j n name = read_name_loop buf r p j n name"
  by (metis ReadName_loop_le read_name_loop_le option.exhaust)

lemma label_bytes_ok: "label_ok l \<Longrightarrow> list_all (\<lambda>b. b \<noteq> 0 \<and> b < 0xc0) (of_nat (length l) # l)"
  using label_len(2,3) [of l] by (auto simp: label_ok_def list_all_iff)

lemma read_name_loop_name_at:
  assumes "name_at buf r ls k" "p + length (wire ls) \<le> length name"
  shows "\<exists>jump' n'. read_name_loop buf r p jump n name =
      Some (Some (p + length (wire ls), jump', n',
        take p name @ wire ls @ drop (p + length (wire ls)) name)) \<and>
    (if jump then jump' \<and> n' = n else n' + of_bool jump' + 1 = n + k)"
  using assms
proof (induction arbitrary: p jump n name rule: name_at.induct)
  case (name_end r)
  then have "read_name_loop buf r p jump n name = Some (Some (p, jump, n, name))"
    by (subst read_name_loop.simps) simp
  then show ?case by simp
next
  case (name_ptr r b c ls k)
  have "b \<noteq> 0" using name_ptr(2) by auto
  then have eq: "read_name_loop buf r p jump n name =
      read_name_loop buf (unat b * 256 + unat c - 0xc000) p True n name"
    by (subst read_name_loop.simps) (simp only: name_ptr.hyps(1-3) option.case if_True if_False)
  have "read_name_loop buf (unat b * 256 + unat c - 0xc000) p True n name =
       Some (Some (p + length (wire ls), True, n, take p name @ wire ls @ drop (p + length (wire ls)) name))"
    using name_ptr.IH [OF name_ptr.prems, of True n] by (simp only: if_True) metis
  then show ?case unfolding eq by (intro exI [of _ True] exI [of _ n]) simp
next
  case (name_label l r ls k)
  let ?bs = "of_nat (length l) # l"
  let ?name = "take p name @ ?bs @ drop (p + length ?bs) name"
  have eq: "read_name_loop buf r p jump n name =
      read_name_loop buf (r + length ?bs) (p + length ?bs) jump (if jump then n else n + length ?bs) ?name"
    using name_label by (intro read_name_loop_bytes label_bytes_ok) simp_all
  have len: "p + length ?bs + length (wire ls) \<le> length ?name"
    using name_label.prems by simp
  have pos: "r + 1 + length l = r + length ?bs" by simp
  have tk: "take (p + length ?bs) ?name = take p name @ ?bs"
    and dr: "drop (p + length ?bs + length (wire ls)) ?name = drop (p + length (wire (l # ls))) name"
    using name_label.prems by (simp_all add: add.commute add.left_commute)
  obtain jump' n' where
    "read_name_loop buf (r + length ?bs) (p + length ?bs) jump (if jump then n else n + length ?bs) ?name =
       Some (Some (p + length ?bs + length (wire ls), jump', n',
         take (p + length ?bs) ?name @ wire ls @ drop (p + length ?bs + length (wire ls)) ?name))"
    "if jump then jump' \<and> n' = (if jump then n else n + length ?bs)
     else n' + of_bool jump' + 1 = (if jump then n else n + length ?bs) + k"
    using name_label.IH [OF len, of jump "if jump then n else n + length ?bs"] pos by metis
  then show ?case unfolding eq tk dr
    by (intro exI [of _ jump'] exI [of _ n']) (cases jump; cases jump'; simp add: add.assoc)
qed

lemma collected_name:
  assumes "name_at buf r ls k" "length (wire ls) < length name"
  shows "\<exists>jump n. read_name_loop buf r 0 False 1 name =
      Some (Some (length (wire ls), jump, n, wire ls @ drop (length (wire ls)) name)) \<and>
    n + of_bool jump = k \<and>
    wr (wire ls @ drop (length (wire ls)) name) (length (wire ls)) 0 =
      Some (wire ls @ 0 # drop (Suc (length (wire ls))) name)"
proof -
  have "drop (length (wire ls)) name = name ! length (wire ls) # drop (Suc (length (wire ls))) name"
    using assms(2) by (simp add: Cons_nth_drop_Suc)
  then have "wr (wire ls @ drop (length (wire ls)) name) (length (wire ls)) 0 =
      Some (wire ls @ 0 # drop (Suc (length (wire ls))) name)"
    by (metis wr_append_mid)
  then show ?thesis
    using read_name_loop_name_at [OF assms(1), of 0 name False 1] assms(2) by auto
qed

lemma read_name_name_at:
  assumes "name_at buf r ls k" "2 \<le> length ls" "length (wire ls) < length name"
  shows "read_name buf r name = Some (Some (dotted ls @ 0 # 0 # drop (Suc (length (wire ls))) name, k))"
proof -
  from collected_name [OF assms(1,3)] obtain jump n where
    "read_name_loop buf r 0 False 1 name =
      Some (Some (length (wire ls), jump, n, wire ls @ drop (length (wire ls)) name))"
    "n + of_bool jump = k"
    "wr (wire ls @ drop (length (wire ls)) name) (length (wire ls)) 0 =
      Some (wire ls @ 0 # drop (Suc (length (wire ls))) name)"
    by blast
  moreover have "name_decode (wire ls @ 0 # drop (Suc (length (wire ls))) name) None =
      Some (dotted ls @ 0 # 0 # drop (Suc (length (wire ls))) name)"
    by (rule name_decode_wire [OF assms(2) name_at_labels [OF assms(1)]])
  ultimately show ?thesis by (simp add: read_name_def)
qed

lemma ReadName_name_at:
  assumes "name_at buf r ls k" "ls \<noteq> []" "length (wire ls) < 256"
    and "malloc 256 = Some blk" "length blk = 256"
  shows "ReadName malloc buf r = Some (Some (dotted ls @ 0 # 0 # drop (Suc (length (wire ls))) blk, k))"
proof -
  let ?n = "length (wire ls)"
  have n: "?n = Suc (length (dotted ls))" using length_dotted [OF assms(2)] by simp
  have "?n < length (blk[0 := 0])" using assms by simp
  from collected_name [OF assms(1) this] obtain jump n where
    "read_name_loop buf r 0 False 1 (blk[0 := 0]) =
      Some (Some (?n, jump, n, wire ls @ drop ?n (blk[0 := 0])))"
    "n + of_bool jump = k"
    "wr (wire ls @ drop ?n (blk[0 := 0])) ?n 0 = Some (wire ls @ 0 # drop (Suc ?n) (blk[0 := 0]))"
    by blast
  moreover have "drop (Suc ?n) (blk[0 := 0]) = drop (Suc ?n) blk" by simp
  moreover have "ReadName_dots (wire ls @ 0 # drop (Suc ?n) blk) 0 =
      Some (dotted ls @ 46 # 0 # drop (Suc ?n) blk, ?n)"
    using ReadName_dots_wire [OF name_at_labels [OF assms(1)], of "[]"] concat_dots [OF assms(2)] by simp
  moreover have "wr (dotted ls @ 46 # 0 # drop (Suc ?n) blk) (?n - 1) 0 =
      Some (dotted ls @ 0 # 0 # drop (Suc ?n) blk)"
    unfolding n by (simp add: wr_append_mid)
  moreover have "?n \<noteq> 0" using n by simp
  moreover have "wr blk 0 0 = Some (blk[0 := 0])" using assms(5) by (simp add: wr_def)
  ultimately show ?thesis using assms(4) by (simp add: ReadName_def ReadName_loop_eq)
qed

lemma pointer_cycle_diverges:
  assumes "rd buf r = Some b" "0xc0 \<le> b" "rd buf (r + 1) = Some c" "unat b * 256 + unat c - 0xc000 = r"
  shows "read_name_loop buf r p j n name = None"
proof -
  have "read_name_loop buf' r' p j n name = Some y \<Longrightarrow> \<not> (buf' = buf \<and> r' = r)" for buf' r' y
  proof (erule read_name_loop.raw_induct
      [rotated, where P = "\<lambda>buf' r' p j n name y. \<not> (buf' = buf \<and> r' = r)"], goal_cases)
    case (1 f buf' r' p j n name y)
    have "b \<noteq> 0" using assms(2) by auto
    show ?case
    proof
      assume "buf' = buf \<and> r' = r"
      with 1(2) assms \<open>b \<noteq> 0\<close> have "f buf r p True n name = Some y" by simp
      with 1(1) show False by blast
    qed
  qed
  then show ?thesis by (metis option.exhaust)
qed

section \<open>The query packet\<close>

lemma query_header_bytes:
  "header_bytes (query_header pid) =
     [ucast (drop_bit 8 (of_nat pid :: u16)), ucast (of_nat pid :: u16), 1, 0, 0, 1, 0, 0, 0, 0, 0, 0]"
  by (simp add: header_bytes_def query_header_def le_bytes_htons le_bytes_zero)

lemma length_header_bytes [simp]: "length (header_bytes h) = 12"
  by (simp add: header_bytes_def)

lemma build_query_bytes:
  assumes "ls \<noteq> []" "list_all label_ok ls" "length (dotted ls) + 18 \<le> length buf"
  shows "\<exists>rest. build_query pid buf (dotted ls @ 0 # t) qt =
    Some ((header_bytes (query_header pid) @ wire ls @ [0] @
           [ucast (drop_bit 8 (of_nat qt :: u16)), ucast (of_nat qt :: u16), 0, 1]) @ rest, length (wire ls) + 17)"
proof -
  let ?h = "header_bytes (query_header pid)"
  let ?q = "[ucast (drop_bit 8 (of_nat qt :: u16)), ucast (of_nat qt :: u16)] :: u8 list"
  have n: "length (wire ls) = Suc (length (dotted ls))" using length_dotted [OF assms(1)] by simp
  have w1: "wr_range buf 0 ?h = Some (?h @ drop 12 buf)"
    using assms(3) by (simp add: wr_range_def)
  let ?rest = "drop (length (wire ls) + 1) (drop 12 buf)"
  have "4 \<le> length ?rest" using n assms(3) by simp
  then obtain a b c d rest where rest: "?rest = [a, b] @ [c, d] @ rest"
    using four_cells [of ?rest] by auto
  have w2: "name_encode (?h @ drop 12 buf) 12 (dotted ls @ 0 # t) =
      Some (?h @ wire ls @ 0 # [a, b] @ [c, d] @ rest)"
  proof -
    have "name_encode (?h @ drop 12 buf) 12 (dotted ls @ 0 # t) =
        Some (take 12 (?h @ drop 12 buf) @ wire ls @ 0 # drop (12 + length (dotted ls) + 2) (?h @ drop 12 buf))"
      using assms by (intro name_encode_wire) (auto simp: list_all_iff dest: label_okD)
    moreover have "drop (12 + length (dotted ls) + 2) (?h @ drop 12 buf) = ?rest"
      by (simp add: n)
    ultimately show ?thesis unfolding rest by simp
  qed
  have z: "0 \<notin> set (wire ls)" by (rule wire_no_NUL [OF assms(2)])
  have w3: "wr16 (?h @ wire ls @ 0 # [a, b] @ [c, d] @ rest) (12 + (length (wire ls) + 1)) (htons (of_nat qt)) =
      Some (?h @ wire ls @ 0 # ?q @ [c, d] @ rest)"
    using wr_range_mid [of "[a, b]" ?q "?h @ wire ls @ [0]" "[c, d] @ rest"]
    by (simp add: wr16_def le_bytes_htons)
  have w4: "wr16 (?h @ wire ls @ 0 # ?q @ [c, d] @ rest) (12 + (length (wire ls) + 1) + 2) (htons 1) =
      Some (?h @ wire ls @ 0 # ?q @ [0, 1] @ rest)"
    using wr_range_mid [of "[c, d]" "[0, 1]" "?h @ wire ls @ 0 # ?q" rest]
    by (simp add: wr16_def le_bytes_htons)
  show ?thesis
    unfolding build_query_def question_def
    using z by (simp add: w1 w2 [simplified] w3 [simplified] w4 [simplified])
qed


section \<open>Address records\<close>

text \<open>
  \<open>answers_at buf r recs\<close>: from offset \<open>r\<close> on stand the records \<open>recs\<close>, each with a name of two
  labels at least, type A, a data length of 4 and the four bytes of an address.
\<close>

inductive answers_at :: "u8 list \<Rightarrow> nat \<Rightarrow> (u8 list list \<times> u8 list) list \<Rightarrow> bool" for buf :: "u8 list" where
  answers_nil: "answers_at buf r []"
| answers_cons: "name_at buf r ls k \<Longrightarrow> 2 \<le> length ls \<Longrightarrow> length (wire ls) < 256 \<Longrightarrow>
    rd_range buf (r + k) 10 = Some ([0, 1, c0, c1, t0, t1, t2, t3, 0, 4]) \<Longrightarrow>
    rd_range buf (r + k + 10) 4 = Some ip \<Longrightarrow> answers_at buf (r + k + 10 + 4) recs \<Longrightarrow>
    answers_at buf r ((ls, ip) # recs)"

lemma r_data_at_address:
  assumes "rd_range buf i 10 = Some ([0, 1, c0, c1, t0, t1, t2, t3, 0, 4])"
  shows "\<exists>res. r_data_at buf i = Some res \<and> ntohs (r_type res) = 1 \<and> ntohs (r_data_len res) = 4"
proof -
  have "rd_range buf i 2 = Some [0, 1]" "rd_range buf (i + 2) 2 = Some [c0, c1]"
    "rd_range buf (i + 4) 4 = Some [t0, t1, t2, t3]" "rd_range buf (i + 8) 2 = Some [0, 4]"
    using rd_range_sub [OF assms, of 0 2] rd_range_sub [OF assms, of 2 2]
      rd_range_sub [OF assms, of 4 4] rd_range_sub [OF assms, of 8 2]
    by (simp_all add: numeral_eq_Suc)
  moreover have "ntohs (of_le_bytes [0, 1]) = 1" "ntohs (of_le_bytes [0, 4]) = 4"
    by (code_simp, code_simp)
  ultimately show ?thesis by (simp add: r_data_at_def rd16_def)
qed

text \<open>The line printed for such a record.\<close>

definition address_line :: "u8 list list \<Rightarrow> u8 list \<Rightarrow> u8 list" where
  "address_line ls ip =
     str ''Name : '' @ dotted ls @ [32] @ str ''has IPv4 address : '' @ inet_ntoa ip @ [10]"

lemma print_answer_address:
  assumes "rd_range buf i 10 = Some ([0, 1, c0, c1, t0, t1, t2, t3, 0, 4])" "list_all label_ok ls"
    and "length ip = 4"
  shows "print_answer buf \<lparr>a_name = dotted ls @ 0 # t, a_resource = i, a_rdata = ip\<rparr> = Some (address_line ls ip)"
proof -
  obtain res where "r_data_at buf i = Some res" "ntohs (r_type res) = 1"
    using r_data_at_address [OF assms(1)] by blast
  moreover have "rd_range ip 0 4 = Some ip" using assms(3) by (simp add: rd_range_def)
  ultimately show ?thesis using dotted_no_NUL [OF assms(2)]
    by (simp add: print_answer_def T_A_def address_line_def)
qed

lemma read_answers_addresses:
  assumes "answers_at buf r recs" "i + length recs \<le> length answers"
    and "list_all (\<lambda>a. length (a_name a) = 256 \<and> length (a_rdata a) = 4) answers"
  shows "\<exists>answers' r'. read_answers malloc buf r i (length recs) answers = Some (Some (answers', r')) \<and>
    length answers' = length answers \<and> (\<forall>j<i. answers' ! j = answers ! j) \<and>
    print_all (print_answer buf) answers' i (length recs) = Some (concat (map (\<lambda>(ls, ip). address_line ls ip) recs))"
  using assms
proof (induction arbitrary: i answers rule: answers_at.induct)
  case (answers_nil r)
  then show ?case by simp
next
  case (answers_cons r ls k c0 c1 t0 t1 t2 t3 ip recs)
  let ?a = "answers ! i"
  have i: "i < length answers" using answers_cons.prems by simp
  then have a: "length (a_name ?a) = 256" "length (a_rdata ?a) = 4"
    using answers_cons.prems(2) by (auto simp: list_all_length)
  define name where "name = dotted ls @ 0 # 0 # drop (Suc (length (wire ls))) (a_name ?a)"
  define rec where "rec = \<lparr>a_name = name, a_resource = r + k, a_rdata = ip\<rparr>"
  have ip: "length ip = 4" using answers_cons.hyps(5) by (rule length_rd_range)
  have rn: "read_name buf r (a_name ?a) = Some (Some (name, k))"
    unfolding name_def using answers_cons.hyps a by (intro read_name_name_at) simp_all
  obtain res where res: "r_data_at buf (r + k) = Some res" "ntohs (r_type res) = 1" "ntohs (r_data_len res) = 4"
    using r_data_at_address [OF answers_cons.hyps(4)] by blast
  have "sint (4 :: u16) = 4" by simp
  moreover have "wr_range (a_rdata ?a) 0 ip = Some ip" using a ip by (simp add: wr_range_def)
  ultimately have rdata: "read_answer_rdata malloc buf (r + k + 10) res (a_rdata ?a) = Some (Some (ip, r + k + 10 + 4))"
    using res answers_cons.hyps(5) by (simp add: read_answer_rdata_def)
  have step: "read_answers malloc buf r i (length ((ls, ip) # recs)) answers =
      read_answers malloc buf (r + k + 10 + 4) (Suc i) (length recs) (answers[i := rec])"
    using i rn res(1) rdata by (simp add: rd_Some rec_def)
  have "list_all (\<lambda>a. length (a_name a) = 256 \<and> length (a_rdata a) = 4) (answers[i := rec])"
  proof -
    have "ls \<noteq> []" using answers_cons.hyps(2) by auto
    then have "length name = 256"
      using answers_cons.hyps(3) length_dotted [of ls] a unfolding name_def by simp
    then show ?thesis
      using answers_cons.prems(2) ip i by (auto simp: list_all_length nth_list_update rec_def)
  qed
  then obtain answers' r' where IH:
    "read_answers malloc buf (r + k + 10 + 4) (Suc i) (length recs) (answers[i := rec]) = Some (Some (answers', r'))"
    "length answers' = length answers" "\<forall>j<Suc i. answers' ! j = answers[i := rec] ! j"
    "print_all (print_answer buf) answers' (Suc i) (length recs) = Some (concat (map (\<lambda>(ls, ip). address_line ls ip) recs))"
    using answers_cons.IH [of "Suc i" "answers[i := rec]"] answers_cons.prems by auto
  have "rd answers' i = Some rec" using IH(2,3) i by (simp add: rd_def)
  moreover have "print_answer buf rec = Some (address_line ls ip)"
    unfolding rec_def name_def
    by (rule print_answer_address [OF answers_cons.hyps(4) name_at_labels [OF answers_cons.hyps(1)] ip])
  moreover have "\<forall>j<i. answers' ! j = answers ! j" using IH(3) by simp
  ultimately show ?case unfolding step using IH by simp
qed


section \<open>Properties\<close>

text \<open>C24. Reading a compressed name: wherever the packet holds a name of at least two labels whose
  chain of pointers ends and whose wire form fits the 256-byte buffer, both readers return, without
  leaving their buffers, the dotted text of the labels and the number of bytes the name occupies at
  its own place.\<close>

theorem dns_names_agree:
  assumes "name_at buf r ls k" "2 \<le> length ls" "length (wire ls) < 256"
    and "length name = 256" "malloc 256 = Some blk" "length blk = 256"
  shows "\<exists>s t. read_name buf r name = Some (Some (dotted ls @ 0 # s, k)) \<and>
               ReadName malloc buf r = Some (Some (dotted ls @ 0 # t, k))"
proof -
  have "ls \<noteq> []" using assms(2) by auto
  with assms show ?thesis
    using read_name_name_at [OF assms(1,2), of name] ReadName_name_at [OF assms(1), of malloc blk] by auto
qed

lemma name_labelI:
  "name_at buf r' ls k \<Longrightarrow> label_ok l \<Longrightarrow> rd_range buf r (1 + length l) = Some (of_nat (length l) # l) \<Longrightarrow>
   r' = r + 1 + length l \<Longrightarrow> k' = 1 + length l + k \<Longrightarrow> name_at buf r (l # ls) k'"
  using name_label by blast

lemmas sample_simps = label_ok_def rd_range_def rd_def

lemma name_at_sample: "name_at [1, 97, 1, 98, 0, 1, 99, 0xc0, 0] 5 [[99], [97], [98]] 4"
proof -
  let ?b = "[1, 97, 1, 98, 0, 1, 99, 0xc0, 0] :: u8 list"
  have "name_at ?b 4 [] 1" by (rule name_end) (simp add: rd_def)
  then have "name_at ?b 2 [[98]] 3"
    by (rule name_labelI) (simp_all add: sample_simps)
  then have "name_at ?b 0 [[97], [98]] 5"
    by (rule name_labelI) (simp_all add: sample_simps)
  then have "name_at ?b 7 [[97], [98]] 2"
    using name_ptr [of ?b 7 "0xc0" 0 "[[97], [98]]" 5] by (simp add: rd_def)
  then show ?thesis
    by (rule name_labelI) (simp_all add: sample_simps)
qed

theorem dns_names_agree_witness:
  "\<exists>s t. read_name [1, 97, 1, 98, 0, 1, 99, 0xc0, 0] 5 (replicate 256 7) =
           Some (Some ([99, 46, 97, 46, 98] @ 0 # s, 4)) \<and>
         ReadName (\<lambda>n. Some (replicate n 9)) [1, 97, 1, 98, 0, 1, 99, 0xc0, 0] 5 =
           Some (Some ([99, 46, 97, 46, 98] @ 0 # t, 4))"
  using dns_names_agree [OF name_at_sample, of "replicate 256 7" "\<lambda>n. Some (replicate n 9)" "replicate 256 9"]
  by simp

text \<open>C33. The packet sent for a host name is the standard query: the process id in network order, the
  flags of a recursive query, one question, the labels of the name each behind its length, and the
  type and class of the question in network order.\<close>

theorem build_query_packet:
  assumes "ls \<noteq> []" "list_all label_ok ls" "length (dotted ls) + 18 \<le> length buf"
  shows "\<exists>buf' stop. build_query pid buf (dotted ls @ 0 # t) qt = Some (buf', stop) \<and> stop \<le> length buf' \<and>
    take stop buf' =
      [ucast (drop_bit 8 (of_nat pid :: u16)), ucast (of_nat pid :: u16), 1, 0, 0, 1, 0, 0, 0, 0, 0, 0] @
      wire ls @ [0] @ [ucast (drop_bit 8 (of_nat qt :: u16)), ucast (of_nat qt :: u16), 0, 1]"
proof -
  let ?p = "header_bytes (query_header pid) @ wire ls @ [0] @
      [ucast (drop_bit 8 (of_nat qt :: u16)), ucast (of_nat qt :: u16), 0, 1]"
  obtain rest where "build_query pid buf (dotted ls @ 0 # t) qt = Some (?p @ rest, length (wire ls) + 17)"
    using build_query_bytes [OF assms, of pid t qt] by blast
  moreover have "length (wire ls) + 17 = length ?p" by simp
  moreover have "take (length ?p) (?p @ rest) = ?p" "length ?p \<le> length (?p @ rest)" by simp_all
  ultimately have "build_query pid buf (dotted ls @ 0 # t) qt = Some (?p @ rest, length ?p) \<and>
      length ?p \<le> length (?p @ rest) \<and> take (length ?p) (?p @ rest) = ?p" by simp
  then show ?thesis unfolding query_header_bytes by blast
qed

theorem build_query_packet_witness:
  "\<exists>buf' stop. build_query 258 (replicate 64 7) ([97, 98, 46, 99] @ 0 # []) 1 = Some (buf', stop) \<and>
    take stop buf' = [1, 2, 1, 0, 0, 1, 0, 0, 0, 0, 0, 0, 2, 97, 98, 1, 99, 0, 0, 1, 0, 1]"
proof -
  have "ucast (drop_bit 8 (of_nat 258 :: u16)) = (1 :: u8)" "ucast (of_nat 258 :: u16) = (2 :: u8)"
    "ucast (drop_bit 8 (of_nat 1 :: u16)) = (0 :: u8)" "ucast (of_nat 1 :: u16) = (1 :: u8)"
    by simp_all
  then show ?thesis
    using build_query_packet [of "[[97, 98], [99]]" "replicate 64 7" 258 "[]" 1]
    unfolding label_ok_def by (simp only: ) (simp; blast)
qed

text \<open>C7. A reply whose answer section consists of at most 20 address records, with no authority and no
  additional records, is parsed without leaving a buffer, and the report lists every name with its
  address.\<close>

theorem handle_reply_addresses:
  assumes "frame_ok f" "header_at buf = Some h" "strlen (drop 12 buf) = Some n"
    and "answers_at buf (12 + (n + 1) + 4) recs" "length recs \<le> 20"
    and "dns_ans_count h = htons (of_nat (length recs))" "dns_auth_count h = 0" "dns_add_count h = 0"
  shows "handle_reply malloc f buf = Some (Some (print_counts h @
    [10] @ str ''Answer Records : '' @ fmt_d (length recs) @ [32, 10] @
    concat (map (\<lambda>(ls, ip). address_line ls ip) recs) @
    [10] @ str ''Authoritive Records : 0 '' @ [10] @ [10] @ str ''Additional Records : 0 '' @ [10]))"
proof -
  have z: "ntohs 0 = 0" by (simp add: ntohs_def htons_def)
  have an: "unat (ntohs (dns_ans_count h)) = length recs"
    using assms(5,6) by (simp add: ntohs_def unat_of_nat_small)
  obtain answers' r' where
    "read_answers malloc buf (12 + (n + 1) + 4) 0 (length recs) (f_answers f) = Some (Some (answers', r'))"
    "print_all (print_answer buf) answers' 0 (length recs) = Some (concat (map (\<lambda>(ls, ip). address_line ls ip) recs))"
    using read_answers_addresses [OF assms(4), of 0 "f_answers f" malloc] assms(1,5)
    by (auto simp: frame_ok_def)
  then show ?thesis using assms(2,3,7,8)
    by (simp add: handle_reply_def print_sections_def an z Let_def fmt_d.simps)
qed

lemma answers_at_sample:
  "answers_at ([0, 7, 0x81, 0x80, 0, 1, 0, 1, 0, 0, 0, 0] @ [1, 97, 1, 98, 0, 0, 1, 0, 1] @
     [0xc0, 12, 0, 1, 0, 1, 0, 0, 0, 60, 0, 4, 10, 0, 200, 1]) 21 [([[97], [98]], [10, 0, 200, 1])]"
  (is "answers_at ?b _ _")
proof -
  have "name_at ?b 16 [] 1" by (rule name_end) (simp add: rd_def)
  then have "name_at ?b 14 [[98]] 3"
    by (rule name_labelI) (simp_all add: sample_simps)
  then have "name_at ?b 12 [[97], [98]] 5"
    by (rule name_labelI) (simp_all add: sample_simps)
  then have "name_at ?b 21 [[97], [98]] 2"
    using name_ptr [of ?b 21 "0xc0" 12 "[[97], [98]]" 5] by (simp add: rd_def)
  then show ?thesis
    using answers_cons [of ?b 21 "[[97], [98]]" 2 0 1 0 0 0 60 "[10, 0, 200, 1]" "[]"] answers_nil
    by (simp add: rd_range_def)
qed

definition sample_frame :: dns_frame where
  "sample_frame = \<lparr>f_buf = replicate 65536 0,
     f_answers = replicate 20 \<lparr>a_name = replicate 256 1, a_resource = 0, a_rdata = replicate 4 1\<rparr>,
     f_auth = replicate 20 \<lparr>s_name = [], s_resource = 0, s_rdata = []\<rparr>,
     f_addit = replicate 20 \<lparr>s_name = [], s_resource = 0, s_rdata = []\<rparr>\<rparr>"

lemma sample_frame_ok: "frame_ok sample_frame"
  by (simp add: frame_ok_def sample_frame_def list_all_iff)

lemma sample_header:
  "\<exists>h. header_at ([0, 7, 0x81, 0x80, 0, 1, 0, 1, 0, 0, 0, 0] @ [1, 97, 1, 98, 0, 0, 1, 0, 1] @
     [0xc0, 12, 0, 1, 0, 1, 0, 0, 0, 60, 0, 4, 10, 0, 200, 1]) = Some h \<and>
   dns_ans_count h = htons 1 \<and> dns_auth_count h = 0 \<and> dns_add_count h = 0"
  by (simp add: header_at_def rd16_def rd_range_def rd_def htons_def)

theorem handle_reply_addresses_witness:
  "\<exists>t u. handle_reply (\<lambda>n. None) sample_frame
     ([0, 7, 0x81, 0x80, 0, 1, 0, 1, 0, 0, 0, 0] @ [1, 97, 1, 98, 0, 0, 1, 0, 1] @
      [0xc0, 12, 0, 1, 0, 1, 0, 0, 0, 60, 0, 4, 10, 0, 200, 1]) =
     Some (Some (t @ str ''Name : a.b has IPv4 address : 10.0.200.1'' @ u))"
proof -
  have "address_line [[97], [98]] [10, 0, 200, 1] = str ''Name : a.b has IPv4 address : 10.0.200.1'' @ [10]"
    by code_simp
  moreover obtain h where "header_at ([0, 7, 0x81, 0x80, 0, 1, 0, 1, 0, 0, 0, 0] @ [1, 97, 1, 98, 0, 0, 1, 0, 1] @
     [0xc0, 12, 0, 1, 0, 1, 0, 0, 0, 60, 0, 4, 10, 0, 200, 1]) = Some h"
    "dns_ans_count h = htons (of_nat (length [([[97], [98]], [10, 0, 200, 1])]))" "dns_auth_count h = 0" "dns_add_count h = 0"
    using sample_header by auto
  moreover have "strlen (drop 12 ([0, 7, 0x81, 0x80, 0, 1, 0, 1, 0, 0, 0, 0] @ [1, 97, 1, 98, 0, 0, 1, 0, 1] @
     [0xc0, 12, 0, 1, 0, 1, 0, 0, 0, 60, 0, 4, 10, 0, 200, 1])) = Some 4"
    by (simp add: strlen_def cstr_def)
  moreover have "12 + (4 + 1) + 4 = (21 :: nat)" by simp
  ultimately have "handle_reply (\<lambda>n. None) sample_frame
     ([0, 7, 0x81, 0x80, 0, 1, 0, 1, 0, 0, 0, 0] @ [1, 97, 1, 98, 0, 0, 1, 0, 1] @
      [0xc0, 12, 0, 1, 0, 1, 0, 0, 0, 60, 0, 4, 10, 0, 200, 1]) =
     Some (Some ((print_counts h @ [10] @ str ''Answer Records : '' @ fmt_d 1 @ [32, 10]) @
       str ''Name : a.b has IPv4 address : 10.0.200.1'' @
       ([10, 10] @ str ''Authoritive Records : 0 '' @ [10] @ [10] @ str ''Additional Records : 0 '' @ [10])))"
    using handle_reply_addresses [OF sample_frame_ok, of _ h 4 "[([[97], [98]], [10, 0, 200, 1])]" "\<lambda>n. None"] answers_at_sample
    by simp
  then show ?thesis by blast
qed

text \<open>A compression pointer that points to itself makes both readers loop forever.\<close>

theorem pointer_to_itself:
  assumes "rd buf r = Some b" "0xc0 \<le> b" "rd buf (r + 1) = Some c" "unat b * 256 + unat c - 0xc000 = r"
    and "malloc 256 = Some blk" "length blk = 256"
  shows "read_name buf r name = None \<and> ReadName malloc buf r = None"
  using assms(5,6) pointer_cycle_diverges [OF assms(1-4)]
  by (simp add: read_name_def ReadName_def ReadName_loop_eq wr_def)

theorem pointer_to_itself_witness:
  "read_name [0xc0, 0] 0 (replicate 256 0) = None \<and> ReadName (\<lambda>n. Some (replicate n 0)) [0xc0, 0] 0 = None"
  using pointer_to_itself [of "[0xc0, 0]" 0 "0xc0" 0 "\<lambda>n. Some (replicate n 0)" "replicate 256 0" "replicate 256 0"] 
  by (simp add: rd_def)

text \<open>An additional record of type A is never parsed successfully: its data is copied into a block
  of exactly its length and then terminated one byte behind the block.\<close>

theorem additional_address_overflows:
  assumes "name_at buf r ls k" "ls \<noteq> []" "length (wire ls) < 256"
    and "r_data_at buf (r + k) = Some res" "ntohs (r_type res) = 1"
    and "\<And>n blk. malloc n = Some blk \<Longrightarrow> length blk = n"
  shows "read_addit malloc buf r i (Suc m) addit = Some None"
proof (cases "malloc 256")
  case None
  then show ?thesis by (simp add: ReadName_def rd_def)
next
  case (Some blk)
  have len: "copy_rdata d buf q j n = Some d' \<Longrightarrow> length d' = length d" for d d' q j n
    by (induction n arbitrary: d j) (auto simp: bind_eq_Some_conv dest!: length_wr)
  have "read_addit_rdata malloc buf (r + k + 10) res = Some None"
  proof (cases "malloc (unat (ntohs (r_data_len res)))")
    case (Some d)
    then show ?thesis using assms(5) assms(6) [OF Some] len
      by (cases "copy_rdata d buf (r + k + 10) 0 (unat (ntohs (r_data_len res)))")
         (auto simp: read_addit_rdata_def wr_def)
  qed (simp add: read_addit_rdata_def assms(5))
  then show ?thesis
    using ReadName_name_at [of buf r ls k malloc blk] assms(1-4) Some assms(6) [OF Some]
    by (cases "i < length addit") (simp_all add: rd_def)
qed

theorem additional_address_overflows_witness:
  "read_addit (\<lambda>n. Some (replicate n 0)) [1, 97, 0, 0, 1, 0, 1, 0, 0, 0, 60, 0, 4, 10, 0, 0, 1] 0 0 (Suc 0)
     (f_addit sample_frame) = Some None"
proof -
  let ?b = "[1, 97, 0, 0, 1, 0, 1, 0, 0, 0, 60, 0, 4, 10, 0, 0, 1] :: u8 list"
  have "name_at ?b 2 [] 1" by (rule name_end) (simp add: rd_def)
  then have "name_at ?b 0 [[97]] 3"
    by (rule name_labelI) (simp_all add: sample_simps)
  moreover obtain res where "r_data_at ?b (0 + 3) = Some res" "ntohs (r_type res) = 1"
    using r_data_at_address [of ?b 3 0 1 0 0 0 60] by (auto simp: rd_range_def)
  ultimately show ?thesis
    by (intro additional_address_overflows [where ls = "[[97]]" and k = 3 and res = res]) auto
qed




end
