(* ===== verification/Arp.thy ===== *)
theory Arp
  imports Libc
begin

text \<open>
  The ARP tool \<^verbatim>\<open>socket/arp-demo.c\<close>: it looks an interface up, sends one who-has request as a raw
  Ethernet frame and waits for a reply. What the program does to the system is a trace of events;
  what the system answers is the record \<open>arp_sys\<close>. The n-th call of \<^verbatim>\<open>socket\<close> or \<^verbatim>\<open>recvfrom\<close>
  is the one with n such events before it.
\<close>

section \<open>The system\<close>

record sockaddr_ll =
  sll_family :: nat
  sll_protocol :: u16
  sll_ifindex :: int
  sll_hatype :: u16
  sll_pkttype :: nat
  sll_halen :: nat
  sll_addr :: "u8 list"

datatype event =
    Print "u8 list"
  | Perror "u8 list"
  | Socket int
  | Bind int int
  | Sendto int "u8 list" sockaddr_ll
  | Recvfrom int
  | Close int

type_synonym trace = "event list"

record arp_sys =
  sys_socket :: "nat \<Rightarrow> int"
  sys_ifindex :: "u8 list \<Rightarrow> int option"
  sys_hwaddr :: "u8 list \<Rightarrow> u8 list option"
  sys_ifaddr :: "u8 list \<Rightarrow> (nat \<times> u32) option"
  sys_bind :: "int \<Rightarrow> int \<Rightarrow> bool"
  sys_sendto :: "u8 list \<Rightarrow> bool"
  sys_recvfrom :: "nat \<Rightarrow> u8 list option"
  sys_inet_addr :: "u8 list \<Rightarrow> u32"

definition is_socket :: "event \<Rightarrow> bool" where
  "is_socket e = (case e of Socket _ \<Rightarrow> True | _ \<Rightarrow> False)"

definition is_recv :: "event \<Rightarrow> bool" where
  "is_recv e = (case e of Recvfrom _ \<Rightarrow> True | _ \<Rightarrow> False)"

definition call_socket :: "arp_sys \<Rightarrow> trace \<Rightarrow> int \<times> trace" where
  "call_socket sys tr = (let fd = sys_socket sys (length (filter is_socket tr)) in (fd, tr @ [Socket fd]))"

definition call_recvfrom :: "arp_sys \<Rightarrow> int \<Rightarrow> trace \<Rightarrow> u8 list option \<times> trace" where
  "call_recvfrom sys fd tr =
     (map_option (take 60) (sys_recvfrom sys (length (filter is_recv tr))), tr @ [Recvfrom fd])"

text \<open>\<^verbatim>\<open>debug\<close>, \<^verbatim>\<open>info\<close>, \<^verbatim>\<open>warn\<close> and \<^verbatim>\<open>err\<close> all print a line.\<close>

definition debug :: "u8 list \<Rightarrow> trace \<Rightarrow> trace" where
  "debug x tr = tr @ [Print (x @ [10])]"

section \<open>Constants and the frame\<close>

definition PROTO_ARP :: u16 where "PROTO_ARP = 0x0806"
definition ETH_P_ARP :: u16 where "ETH_P_ARP = 0x0806"
definition ETH_P_IP :: u16 where "ETH_P_IP = 0x0800"
definition ETH2_HEADER_LEN :: nat where "ETH2_HEADER_LEN = 14"
definition HW_TYPE :: u16 where "HW_TYPE = 1"
definition MAC_LENGTH :: nat where "MAC_LENGTH = 6"
definition IPV4_LENGTH :: nat where "IPV4_LENGTH = 4"
definition ARP_REQUEST :: u16 where "ARP_REQUEST = 1"
definition ARP_REPLY :: u16 where "ARP_REPLY = 2"
definition BUF_SIZE :: nat where "BUF_SIZE = 60"
definition IFNAMSIZ :: nat where "IFNAMSIZ = 16"
definition AF_INET :: nat where "AF_INET = 2"
definition AF_PACKET :: nat where "AF_PACKET = 17"

text \<open>The fields of \<^verbatim>\<open>struct ethhdr\<close> and \<^verbatim>\<open>struct arp_header\<close> by their offsets in the buffer.\<close>

definition h_dest :: nat where "h_dest = 0"
definition h_source :: nat where "h_source = 6"
definition h_proto :: nat where "h_proto = 12"

datatype arp_field =
    hardware_type | protocol_type | hardware_len | protocol_len | opcode
  | sender_mac | sender_ip | target_mac | target_ip

fun arp_header :: "arp_field \<Rightarrow> nat" where
  "arp_header hardware_type = 0"
| "arp_header protocol_type = 2"
| "arp_header hardware_len = 4"
| "arp_header protocol_len = 5"
| "arp_header opcode = 6"
| "arp_header sender_mac = 8"
| "arp_header sender_ip = 14"
| "arp_header target_mac = 18"
| "arp_header target_ip = 24"

abbreviation arp_off :: "arp_field \<Rightarrow> nat" where
  "arp_off f \<equiv> ETH2_HEADER_LEN + arp_header f"

section \<open>Addresses\<close>

definition int_ip4 :: "nat \<times> u32 \<Rightarrow> trace \<Rightarrow> (int \<times> u32 option) \<times> trace" where
  "int_ip4 addr tr =
     (if fst addr = AF_INET then ((0, Some (snd addr)), tr)
      else ((1, None), debug (str ''Not AF_INET'') tr))"

text \<open>\<^verbatim>\<open>inet_ntoa\<close> never returns a null pointer, so the branch that returns -2 is dead.\<close>

definition format_ip4 :: "nat \<times> u32 \<Rightarrow> u8 list \<Rightarrow> (int \<times> u8 list) option" where
  "format_ip4 addr out =
     (if fst addr = AF_INET then
        map_option (Pair 0) (wr_range out 0 (inet_ntoa (le_bytes 4 (snd addr)) @ [0]))
      else Some (-1, out))"

definition get_if_ip4 :: "arp_sys \<Rightarrow> u8 list \<Rightarrow> trace \<Rightarrow> (int \<times> u32 option) \<times> trace" where
  "get_if_ip4 sys ifname tr =
     (if IFNAMSIZ - 1 < length ifname then ((-1, None), debug (str ''Too long interface name'') tr)
      else
        (case sys_ifaddr sys ifname of
           None \<Rightarrow> ((-1, None), tr @ [Perror (str ''SIOCGIFADDR'')])
         | Some addr \<Rightarrow>
             (case int_ip4 addr tr of
                ((r, ip), tr) \<Rightarrow> if r \<noteq> 0 then ((-1, None), tr) else ((0, ip), tr))))"

section \<open>Sending the request\<close>

definition arp_sockaddr :: "int \<Rightarrow> u8 list \<Rightarrow> sockaddr_ll" where
  "arp_sockaddr ifindex mac = \<lparr>sll_family = AF_PACKET, sll_protocol = htons ETH_P_ARP,
     sll_ifindex = ifindex, sll_hatype = htons 1, sll_pkttype = 1, sll_halen = MAC_LENGTH,
     sll_addr = mac @ [0, 0]\<rparr>"

definition arp_frame :: "u8 list \<Rightarrow> u32 \<Rightarrow> u32 \<Rightarrow> u8 list option" where
  "arp_frame src_mac src_ip dst_ip = do {
     let buffer = replicate BUF_SIZE 0;
     buffer \<leftarrow> wr_range buffer h_dest (replicate MAC_LENGTH 0xff);
     buffer \<leftarrow> wr_range buffer (arp_off target_mac) (replicate MAC_LENGTH 0);
     mac \<leftarrow> rd_range src_mac 0 MAC_LENGTH;
     buffer \<leftarrow> wr_range buffer h_source mac;
     buffer \<leftarrow> wr_range buffer (arp_off sender_mac) mac;
     buffer \<leftarrow> wr16 buffer h_proto (htons ETH_P_ARP);
     buffer \<leftarrow> wr16 buffer (arp_off hardware_type) (htons HW_TYPE);
     buffer \<leftarrow> wr16 buffer (arp_off protocol_type) (htons ETH_P_IP);
     buffer \<leftarrow> wr buffer (arp_off hardware_len) (of_nat MAC_LENGTH);
     buffer \<leftarrow> wr buffer (arp_off protocol_len) (of_nat IPV4_LENGTH);
     buffer \<leftarrow> wr16 buffer (arp_off opcode) (htons ARP_REQUEST);
     buffer \<leftarrow> wr_range buffer (arp_off sender_ip) (le_bytes 4 src_ip);
     wr_range buffer (arp_off target_ip) (le_bytes 4 dst_ip)
   }"

definition send_arp ::
  "arp_sys \<Rightarrow> int \<Rightarrow> int \<Rightarrow> u8 list \<Rightarrow> u32 \<Rightarrow> u32 \<Rightarrow> trace \<Rightarrow> (int \<times> trace) option" where
  "send_arp sys fd ifindex src_mac src_ip dst_ip tr = do {
     buffer \<leftarrow> arp_frame src_mac src_ip dst_ip;
     let tr = debug (str ''Copy IP address to arp_req'') tr;
     frame \<leftarrow> rd_range buffer 0 42;
     let tr = tr @ [Sendto fd frame (arp_sockaddr ifindex (take MAC_LENGTH src_mac))];
     Some (if sys_sendto sys frame then (0, tr) else (-1, tr @ [Perror (str ''sendto():'')]))
   }"

section \<open>The interface\<close>

text \<open>
  The three output parameters are returned together, on success. The label \<^verbatim>\<open>out\<close>, with its
  clean-up, is \<open>if_info_out\<close>.
\<close>

definition if_info_out :: "int \<Rightarrow> int \<Rightarrow> 'a option \<Rightarrow> trace \<Rightarrow> (int \<times> 'a option) \<times> trace" where
  "if_info_out sd err r tr =
     ((err, r), if 0 < sd then debug (str ''Clean up temporary socket'') tr @ [Close sd] else tr)"

definition get_if_info ::
  "arp_sys \<Rightarrow> u8 list \<Rightarrow> trace \<Rightarrow> (int \<times> (u32 \<times> u8 list \<times> int) option) \<times> trace" where
  "get_if_info sys ifname tr =
     (let tr = debug (str ''get_if_info for '' @ ifname) tr;
          (sd, tr) = call_socket sys tr in
      if sd \<le> 0 then if_info_out sd (-1) None (tr @ [Perror (str ''socket()'')])
      else if IFNAMSIZ - 1 < length ifname then
        if_info_out sd (-1) None (debug (str ''Too long interface name, MAX='' @ fmt_d (IFNAMSIZ - 1)) tr)
      else
        (case sys_ifindex sys ifname of
           None \<Rightarrow> if_info_out sd (-1) None (tr @ [Perror (str ''SIOCGIFINDEX'')])
         | Some ifindex \<Rightarrow>
             (let tr = debug (str ''interface index is '' @ fmt_int ifindex) tr in
              case sys_hwaddr sys ifname of
                None \<Rightarrow> if_info_out sd (-1) None (tr @ [Perror (str ''SIOCGIFINDEX'')])
              | Some sa_data \<Rightarrow>
                  (case get_if_ip4 sys ifname tr of
                     ((r, ip), tr) \<Rightarrow>
                       if r \<noteq> 0 then if_info_out sd (-1) None tr
                       else if_info_out sd 0 (map_option (\<lambda>ip. (ip, take MAC_LENGTH sa_data, ifindex)) ip)
                              (debug (str ''get_if_info OK'') tr)))))"

definition bind_arp :: "arp_sys \<Rightarrow> int \<Rightarrow> trace \<Rightarrow> (int \<times> int) \<times> trace" where
  "bind_arp sys ifindex tr =
     (let tr = debug (str ''bind_arp: ifindex='' @ fmt_int ifindex) tr;
          (fd, tr) = call_socket sys tr in
      if fd < 1 then
        (let tr = tr @ [Perror (str ''socket()'')] in
         ((-1, fd), if 0 < fd then debug (str ''Cleanup socket'') tr @ [Close fd] else tr))
      else
        (let tr = debug (str ''Binding to ifindex '' @ fmt_int ifindex) tr @ [Bind fd ifindex] in
         if \<not> sys_bind sys fd ifindex then
           (let tr = tr @ [Perror (str ''bind'')] in
            ((-1, fd), if 0 < fd then debug (str ''Cleanup socket'') tr @ [Close fd] else tr))
         else ((0, fd), tr)))"

section \<open>Receiving\<close>

definition fmt_02X :: "u8 \<Rightarrow> u8 list" where
  "fmt_02X b = (let d = \<lambda>n. if n < 10 then of_nat (48 + n) else of_nat (55 + n) in
     [d (unat b div 16), d (unat b mod 16)])"

text \<open>\<open>buf = None\<close> is the call with a null buffer, which formats into the static one.\<close>

definition format_mac :: "u8 list \<Rightarrow> u8 list option \<Rightarrow> u8 list \<Rightarrow> u8 list option" where
  "format_mac data buf innerbuf = do {
     q \<leftarrow> rd_range data 0 6;
     let p = (case buf of None \<Rightarrow> innerbuf | Some b \<Rightarrow> b);
     (_, p) \<leftarrow> sprintf p 0 (fmt_02X (q ! 0) @ 58 # fmt_02X (q ! 1) @ 58 # fmt_02X (q ! 2) @ 58 #
       fmt_02X (q ! 3) @ 58 # fmt_02X (q ! 4) @ 58 # fmt_02X (q ! 5));
     cstring p
   }"

text \<open>\<open>buffer\<close> is the uninitialised array; a short frame leaves its tail in place.\<close>

definition read_arp :: "arp_sys \<Rightarrow> u8 list \<Rightarrow> int \<Rightarrow> trace \<Rightarrow> (int \<times> trace) option" where
  "read_arp sys buffer fd tr =
     (let tr = debug (str ''read_arp'') tr in
      case call_recvfrom sys fd tr of
        (None, tr) \<Rightarrow> Some (-1, tr @ [Perror (str ''recvfrom()'')])
      | (Some data, tr) \<Rightarrow> do {
          buffer \<leftarrow> wr_range buffer 0 data;
          proto \<leftarrow> rd16 buffer h_proto;
          if ntohs proto \<noteq> PROTO_ARP then Some (-1, debug (str ''Not an ARP packet'') tr)
          else do {
            opc \<leftarrow> rd16 buffer (arp_off opcode);
            if ntohs opc \<noteq> ARP_REPLY then Some (-1, debug (str ''Not an ARP reply'') tr)
            else do {
              let tr = debug (str ''received ARP len='' @ fmt_d (length data)) tr;
              sip \<leftarrow> rd_range buffer (arp_off sender_ip) 4;
              smac \<leftarrow> format_mac (drop (arp_off sender_mac) buffer) None (replicate 18 0);
              let tr = debug (str ''@sender '' @ inet_ntoa sip @ [44] @ smac) tr;
              tip \<leftarrow> rd_range buffer (arp_off target_ip) 4;
              tmac \<leftarrow> format_mac (drop (arp_off target_mac) buffer) None (replicate 18 0);
              let tr = debug (str ''@target '' @ inet_ntoa tip @ [44] @ tmac) tr;
              Some (0, tr)
            }
          }
        })"

section \<open>The program\<close>

text \<open>The loop of \<^verbatim>\<open>test_arping\<close>; the outer \<^term>\<open>None\<close> is waiting forever.\<close>

partial_function (option) read_loop :: "arp_sys \<Rightarrow> u8 list \<Rightarrow> int \<Rightarrow> trace \<Rightarrow> trace option option" where
  "read_loop sys buffer fd tr =
     (case read_arp sys buffer fd tr of
        None \<Rightarrow> Some None
      | Some (r, tr) \<Rightarrow>
          if r = 0 then Some (Some (debug (str ''Got reply, break out'') tr))
          else read_loop sys buffer fd tr)"

definition arping_out :: "int \<Rightarrow> int \<Rightarrow> trace \<Rightarrow> int \<times> trace" where
  "arping_out ret arp_fd tr = (ret, if arp_fd \<noteq> 0 then tr @ [Close arp_fd] else tr)"

text \<open>
  When \<^verbatim>\<open>get_if_info\<close> fails the code jumps over the initialisation of \<^verbatim>\<open>arp_fd\<close> and then tests it:
  the use of an indeterminate value.
\<close>

definition test_arping ::
  "arp_sys \<Rightarrow> u8 list \<Rightarrow> u8 list \<Rightarrow> u8 list \<Rightarrow> trace \<Rightarrow> (int \<times> trace) option option" where
  "test_arping sys buffer ifname ip tr =
     (let dst = sys_inet_addr sys ip in
      if dst = 0 \<or> dst = 0xffffffff then Some (Some (1, debug (str ''Invalid source IP'') tr))
      else
        (case get_if_info sys ifname tr of
           ((_, None), tr) \<Rightarrow> Some None
         | ((_, Some (src, mac, ifindex)), tr) \<Rightarrow>
             (case bind_arp sys ifindex tr of
                ((r, arp_fd), tr) \<Rightarrow>
                  if r \<noteq> 0 then Some (Some (arping_out (-1) arp_fd (debug (str ''Failed to bind_arp()'') tr)))
                  else
                    (case send_arp sys arp_fd ifindex mac src dst tr of
                       None \<Rightarrow> Some None
                     | Some (r, tr) \<Rightarrow>
                         if r \<noteq> 0 then Some (Some (arping_out (-1) arp_fd (debug (str ''Failed to send_arp'') tr)))
                         else
                           (case read_loop sys buffer arp_fd tr of
                              None \<Rightarrow> None
                            | Some None \<Rightarrow> Some None
                            | Some (Some tr) \<Rightarrow> Some (Some (arping_out 0 arp_fd tr)))))))"

definition arp_main :: "arp_sys \<Rightarrow> u8 list \<Rightarrow> u8 list list \<Rightarrow> trace \<Rightarrow> (int \<times> trace) option option" where
  "arp_main sys buffer argv tr =
     (if length argv \<noteq> 3 then
        Some (case argv of [] \<Rightarrow> None
              | a # _ \<Rightarrow> Some (1, debug (str ''Usage: '' @ a @ str '' <INTERFACE> <DEST_IP>'') tr))
      else test_arping sys buffer (argv ! 1) (argv ! 2) tr)"

section \<open>Sent frames\<close>

lemmas arp_consts = PROTO_ARP_def ETH_P_ARP_def ETH_P_IP_def ETH2_HEADER_LEN_def HW_TYPE_def MAC_LENGTH_def
  IPV4_LENGTH_def ARP_REQUEST_def ARP_REPLY_def BUF_SIZE_def IFNAMSIZ_def h_dest_def h_source_def h_proto_def

text \<open>A who-has request: broadcast Ethernet header, ARP header for IPv4 over Ethernet, addresses.\<close>

definition who_has :: "u8 list \<Rightarrow> u32 \<Rightarrow> u32 \<Rightarrow> u8 list" where
  "who_has mac src dst =
     replicate 6 0xff @ mac @ [8, 6] @ [0, 1, 8, 0, 6, 4, 0, 1] @
     mac @ le_bytes 4 src @ replicate 6 0 @ le_bytes 4 dst"

lemma arp_low_bytes: "(2054 :: u8) = 6" "(2048 :: u8) = 0"
  by simp_all

lemma arp_frame_who_has:
  assumes "length mac = 6"
  shows "arp_frame mac src dst = Some (who_has mac src dst @ replicate 18 0)"
proof -
  obtain a b c d e f where mac: "mac = [a, b, c, d, e, f]" using length_6 [OF assms] by blast
  obtain s0 s1 s2 s3 where s: "le_bytes 4 src = [s0, s1, s2, s3]"
    using length_4 [of "le_bytes 4 src"] by auto
  obtain d0 d1 d2 d3 where d: "le_bytes 4 dst = [d0, d1, d2, d3]"
    using length_4 [of "le_bytes 4 dst"] by auto
  have r: "replicate 6 x = [x, x, x, x, x, x]" "replicate 4 x = [x, x, x, x]" for x :: u8
    by (simp_all add: numeral_eq_Suc)
  show ?thesis
    by (simp add: r arp_low_bytes arp_frame_def who_has_def arp_consts wr_range_def rd_range_def wr_def wr16_def le_bytes_htons mac s d)
qed


section \<open>Calls\<close>

text \<open>The events of a trace that are calls into the system.\<close>

fun is_call :: "event \<Rightarrow> bool" where
  "is_call (Print _) = False"
| "is_call (Perror _) = False"
| "is_call _ = True"

definition calls :: "trace \<Rightarrow> trace" where
  "calls tr = filter is_call tr"

lemma calls_simps [simp]:
  "calls [] = []" "calls (tr @ tr') = calls tr @ calls tr'" "calls (Print x # tr) = calls tr"
  "calls (Perror x # tr) = calls tr" "calls (Socket fd # tr) = Socket fd # calls tr"
  "calls (Bind fd i # tr) = Bind fd i # calls tr" "calls (Sendto fd f a # tr) = Sendto fd f a # calls tr"
  "calls (Recvfrom fd # tr) = Recvfrom fd # calls tr" "calls (Close fd # tr) = Close fd # calls tr"
  "calls (debug x tr) = calls tr"
  by (simp_all add: calls_def debug_def)

text \<open>The numbers of earlier calls depend on the calls only.\<close>

lemma filter_calls: "filter is_socket tr = filter is_socket (calls tr)" "filter is_recv tr = filter is_recv (calls tr)"
proof -
  have "is_socket e \<Longrightarrow> is_call e" "is_recv e \<Longrightarrow> is_call e" for e
    by (cases e; simp add: is_socket_def is_recv_def)+
  then show "filter is_socket tr = filter is_socket (calls tr)" "filter is_recv tr = filter is_recv (calls tr)"
    unfolding calls_def filter_filter by (metis (mono_tags, lifting))+
qed

lemma is_simps [simp]:
  "is_socket (Socket fd)" "\<not> is_socket (Close fd)" "\<not> is_socket (Bind fd i)" "\<not> is_socket (Sendto fd f a)"
  "\<not> is_socket (Recvfrom fd)" "is_recv (Recvfrom fd)" "\<not> is_recv (Close fd)" "\<not> is_recv (Bind fd i)"
  "\<not> is_recv (Sendto fd f a)" "\<not> is_recv (Socket fd)"
  "\<not> is_socket (Print x)" "\<not> is_socket (Perror x)" "\<not> is_recv (Print x)" "\<not> is_recv (Perror x)"
  "filter is_socket (debug x tr) = filter is_socket tr" "filter is_recv (debug x tr) = filter is_recv tr"
  by (simp_all add: is_socket_def is_recv_def debug_def)

section \<open>Received frames\<close>

definition arp_reply :: "u8 list \<Rightarrow> bool" where
  "arp_reply data \<longleftrightarrow> take 2 (drop 12 data) = [8, 6] \<and> take 2 (drop 20 data) = [0, 2]"

text \<open>The frame the n-th receive delivers is complete, or the receive fails.\<close>

definition recv_ok :: "arp_sys \<Rightarrow> nat \<Rightarrow> bool" where
  "recv_ok sys n = (case sys_recvfrom sys n of None \<Rightarrow> True | Some data \<Rightarrow> 42 \<le> length data)"

definition recv_reply :: "arp_sys \<Rightarrow> nat \<Rightarrow> bool" where
  "recv_reply sys n = (case sys_recvfrom sys n of None \<Rightarrow> False | Some data \<Rightarrow> arp_reply data)"

lemma ntohs_bytes: "ntohs (of_le_bytes [a, b]) = x \<longleftrightarrow> a = ucast (drop_bit 8 x) \<and> b = ucast x"
proof
  assume "ntohs (of_le_bytes [a, b]) = x"
  then have "of_le_bytes [a, b] = htons x" by (metis htons_htons ntohs_def)
  then have "le_bytes 2 (of_le_bytes [a, b] :: u16) = [ucast (drop_bit 8 x), ucast x]"
    by (simp only: le_bytes_htons)
  moreover have "le_bytes 2 (of_le_bytes [a, b] :: u16) = [a, b]"
    by (simp add: numeral_2_eq_2 le_bytes_def byte_def) (simp add: u8_bits u8_bit_high)
  ultimately show "a = ucast (drop_bit 8 x) \<and> b = ucast x" by simp
next
  assume "a = ucast (drop_bit 8 x) \<and> b = ucast x"
  then have "of_le_bytes [a, b] = (of_le_bytes (le_bytes 2 (htons x)) :: u16)"
    by (simp only: le_bytes_htons)
  then show "ntohs (of_le_bytes [a, b]) = x" by (simp add: ntohs_def)
qed

lemma format_mac_safe:
  assumes "6 \<le> length data"
  shows "\<exists>t. format_mac data None (replicate 18 0) = Some t"
proof -
  have "length (fmt_02X b) = 2" for b by (simp add: fmt_02X_def Let_def)
  then show ?thesis using assms
    by (auto simp: format_mac_def rd_range_def sprintf_def wr_range_def cstring_def Let_def)
qed

lemma read_arp_result:
  assumes "length buffer = 60" "recv_ok sys (length (filter is_recv tr))"
  shows "\<exists>tr'. read_arp sys buffer fd tr =
      Some (if recv_reply sys (length (filter is_recv tr)) then 0 else -1, tr') \<and>
    calls tr' = calls tr @ [Recvfrom fd]"
proof (cases "sys_recvfrom sys (length (filter is_recv tr))")
  case None
  then show ?thesis
    by (simp add: read_arp_def call_recvfrom_def recv_reply_def Let_def)
next
  case (Some data)
  let ?d = "take 60 data"
  define B where "B = ?d @ drop (length ?d) buffer"
  have len: "42 \<le> length data" using Some assms(2) by (simp add: recv_ok_def)
  have b: "wr_range buffer 0 ?d = Some B" "length B = 60" using assms(1) by (auto simp: wr_range_def B_def)
  have sub: "rd_range B i n = Some (take n (drop i data))" if "i + n \<le> 42" for i n
    using that len assms(1) by (auto simp: rd_range_def take_drop min_def B_def)
  obtain p0 p1 where p: "take 2 (drop 12 data) = [p0, p1]"
    using length_two [of "take 2 (drop 12 data)"] len by auto
  obtain o0 o1 where o: "take 2 (drop 20 data) = [o0, o1]"
    using length_two [of "take 2 (drop 20 data)"] len by auto
  have c: "ntohs (of_le_bytes [p0, p1]) = PROTO_ARP \<longleftrightarrow> p0 = 8 \<and> p1 = 6"
    "ntohs (of_le_bytes [o0, o1]) = ARP_REPLY \<longleftrightarrow> o0 = 0 \<and> o1 = 2"
    unfolding ntohs_bytes PROTO_ARP_def ARP_REPLY_def by (simp_all add: arp_low_bytes)
  have "6 \<le> length (drop (arp_off sender_mac) B)" "6 \<le> length (drop (arp_off target_mac) B)"
    unfolding length_drop b(2) by (simp_all add: arp_consts)
  then obtain smac tmac where m: "format_mac (drop (arp_off sender_mac) B) None (replicate 18 0) = Some smac"
    "format_mac (drop (arp_off target_mac) B) None (replicate 18 0) = Some tmac"
    using format_mac_safe by metis
  have f: "rd16 B h_proto = Some (of_le_bytes [p0, p1])" "rd16 B (arp_off opcode) = Some (of_le_bytes [o0, o1])"
    using sub [of 12 2] sub [of 20 2] p o by (simp_all add: rd16_def arp_consts)
  have ip: "\<exists>x. rd_range B (arp_off sender_ip) 4 = Some x" "\<exists>x. rd_range B (arp_off target_ip) 4 = Some x"
    using sub [of 28 4] sub [of 38 4] by (simp_all add: arp_consts)
  have "recv_reply sys (length (filter is_recv tr)) \<longleftrightarrow> (p0 = 8 \<and> p1 = 6) \<and> (o0 = 0 \<and> o1 = 2)"
    using Some p o by (simp add: recv_reply_def arp_reply_def)
  then show ?thesis using Some ip
    by (auto simp: read_arp_def call_recvfrom_def Let_def b(1) f c m simp del: of_le_bytes.simps arp_header.simps)
qed

lemma read_loop_waits:
  assumes "length buffer = 60" "n = length (filter is_recv tr)" "\<And>j. j \<le> m \<Longrightarrow> recv_ok sys (n + j)"
    and "\<And>j. j < m \<Longrightarrow> \<not> recv_reply sys (n + j)" "recv_reply sys (n + m)"
  shows "\<exists>tr'. read_loop sys buffer fd tr = Some (Some tr') \<and>
    calls tr' = calls tr @ replicate (Suc m) (Recvfrom fd)"
  using assms(2-)
proof (induction m arbitrary: tr n)
  case 0
  from read_arp_result [OF assms(1), of sys tr fd] 0 obtain tr' where
    "read_arp sys buffer fd tr = Some (0, tr')" "calls tr' = calls tr @ [Recvfrom fd]" by auto
  then show ?case by (subst read_loop.simps) simp
next
  case (Suc m)
  from Suc.prems(2) [of 0] Suc.prems(3) [of 0] read_arp_result [OF assms(1), of sys tr fd] Suc.prems(1)
  obtain tr1 where tr1: "read_arp sys buffer fd tr = Some (-1, tr1)" "calls tr1 = calls tr @ [Recvfrom fd]"
    by auto
  have n: "Suc n = length (filter is_recv tr1)"
    using tr1(2) Suc.prems(1) filter_calls(2) [of tr] filter_calls(2) [of tr1] by simp
  have "\<exists>tr'. read_loop sys buffer fd tr1 = Some (Some tr') \<and>
      calls tr' = calls tr1 @ replicate (Suc m) (Recvfrom fd)"
    using Suc.prems(2) [of "Suc j" for j] Suc.prems(3) [of "Suc j" for j] Suc.prems(4)
    by (intro Suc.IH [OF n]) simp_all
  moreover have "read_loop sys buffer fd tr = read_loop sys buffer fd tr1"
    using tr1(1) by (subst read_loop.simps) simp
  ultimately show ?case using tr1(2) by auto
qed

section \<open>Properties\<close>

text \<open>The system knows the interface: its index, hardware address and IPv4 address.\<close>

definition has_interface :: "arp_sys \<Rightarrow> u8 list \<Rightarrow> u32 \<Rightarrow> u8 list \<Rightarrow> int \<Rightarrow> bool" where
  "has_interface sys ifname src sa ifindex \<longleftrightarrow> length ifname \<le> 15 \<and> 0 < sys_socket sys 0 \<and>
     sys_ifindex sys ifname = Some ifindex \<and> sys_hwaddr sys ifname = Some sa \<and> length sa = 14 \<and>
     sys_ifaddr sys ifname = Some (AF_INET, src)"

lemma get_if_info_known:
  assumes "has_interface sys ifname src sa ifindex"
  shows "\<exists>tr. get_if_info sys ifname [] = ((0, Some (src, take 6 sa, ifindex)), tr) \<and>
    calls tr = [Socket (sys_socket sys 0), Close (sys_socket sys 0)]"
  using assms
  by (auto simp: has_interface_def get_if_info_def call_socket_def Let_def if_info_out_def get_if_ip4_def int_ip4_def arp_consts)

lemma bind_arp_result:
  assumes "calls tr = [Socket sd, Close sd]" "0 < sys_socket sys 1"
  shows "\<exists>tr'. bind_arp sys ifindex tr =
      ((if sys_bind sys (sys_socket sys 1) ifindex then 0 else -1, sys_socket sys 1), tr') \<and>
    calls tr' = [Socket sd, Close sd, Socket (sys_socket sys 1), Bind (sys_socket sys 1) ifindex] @
      (if sys_bind sys (sys_socket sys 1) ifindex then [] else [Close (sys_socket sys 1)])"
proof -
  have "length (filter is_socket tr) = 1" using assms(1) filter_calls(1) [of tr] by simp
  then show ?thesis using assms by (auto simp: bind_arp_def call_socket_def Let_def)
qed

text \<open>C14. With a known interface, a socket that can be bound and a request that can be sent, the tool
  sends exactly the who-has frame, receives until the first ARP reply arrives (whatever other complete
  frames and failures come before it), returns 0, and closes each of its two descriptors exactly once.\<close>

theorem arping_completes:
  assumes "length buffer = 60" "sys_inet_addr sys ip = dst" "dst \<noteq> 0" "dst \<noteq> 0xffffffff"
    and "has_interface sys ifname src sa ifindex"
    and "fd = sys_socket sys 1" "0 < fd" "sys_bind sys fd ifindex" "sys_sendto sys (who_has (take 6 sa) src dst)"
    and "\<And>j. j \<le> m \<Longrightarrow> recv_ok sys j" "\<And>j. j < m \<Longrightarrow> \<not> recv_reply sys j" "recv_reply sys m"
  shows "\<exists>tr. test_arping sys buffer ifname ip [] = Some (Some (0, tr)) \<and>
    calls tr = [Socket (sys_socket sys 0), Close (sys_socket sys 0), Socket fd, Bind fd ifindex,
      Sendto fd (who_has (take 6 sa) src dst) (arp_sockaddr ifindex (take 6 sa))] @
      replicate (Suc m) (Recvfrom fd) @ [Close fd]"
proof -
  let ?sd = "sys_socket sys 0"
  have mac: "length (take 6 sa) = 6" using assms(5) by (simp add: has_interface_def)
  obtain tr1 where t1: "get_if_info sys ifname [] = ((0, Some (src, take 6 sa, ifindex)), tr1)"
    "calls tr1 = [Socket ?sd, Close ?sd]"
    using get_if_info_known [OF assms(5)] by blast
  obtain tr2 where t2: "bind_arp sys ifindex tr1 = ((0, fd), tr2)"
    "calls tr2 = [Socket ?sd, Close ?sd, Socket fd, Bind fd ifindex]"
    using bind_arp_result [OF t1(2), of sys ifindex] assms(6-8) by auto
  have "rd_range (who_has (take 6 sa) src dst @ replicate 18 0) 0 42 = Some (who_has (take 6 sa) src dst)"
    using mac by (simp add: rd_range_def who_has_def)
  then obtain tr3 where t3: "send_arp sys fd ifindex (take 6 sa) src dst tr2 = Some (0, tr3)"
    "calls tr3 = calls tr2 @ [Sendto fd (who_has (take 6 sa) src dst) (arp_sockaddr ifindex (take 6 sa))]"
    using arp_frame_who_has [OF mac] assms(9) by (simp add: send_arp_def MAC_LENGTH_def)
  have "0 = length (filter is_recv tr3)" using filter_calls(2) [of tr3] t3(2) t2(2) by simp
  then obtain tr4 where t4: "read_loop sys buffer fd tr3 = Some (Some tr4)"
    "calls tr4 = calls tr3 @ replicate (Suc m) (Recvfrom fd)"
    using read_loop_waits [OF assms(1), of 0 tr3 m sys fd] assms(10-12) by auto
  show ?thesis
    using assms(2-4,7) t1 t2 t3 t4 by (simp add: test_arping_def Let_def arping_out_def)
qed

text \<open>If the socket cannot be bound, its descriptor is closed twice: by \<^verbatim>\<open>bind_arp\<close> and again by its
  caller.\<close>

theorem arping_double_close:
  assumes "sys_inet_addr sys ip = dst" "dst \<noteq> 0" "dst \<noteq> 0xffffffff"
    and "has_interface sys ifname src sa ifindex"
    and "fd = sys_socket sys 1" "0 < fd" "\<not> sys_bind sys fd ifindex"
  shows "\<exists>tr. test_arping sys buffer ifname ip [] = Some (Some (-1, tr)) \<and>
    calls tr = [Socket (sys_socket sys 0), Close (sys_socket sys 0), Socket fd, Bind fd ifindex, Close fd, Close fd]"
proof -
  let ?sd = "sys_socket sys 0"
  obtain tr1 where t1: "get_if_info sys ifname [] = ((0, Some (src, take 6 sa, ifindex)), tr1)"
    "calls tr1 = [Socket ?sd, Close ?sd]"
    using get_if_info_known [OF assms(4)] by blast
  then obtain tr2 where t2: "bind_arp sys ifindex tr1 = ((-1, fd), tr2)"
    "calls tr2 = [Socket ?sd, Close ?sd, Socket fd, Bind fd ifindex, Close fd]"
    using bind_arp_result [OF t1(2), of sys ifindex] assms(5-7) by auto
  then show ?thesis
    using assms(1-3,6) t1 by (simp add: test_arping_def Let_def arping_out_def)
qed

definition sample_arp_sys :: "bool \<Rightarrow> arp_sys" where
  "sample_arp_sys b = \<lparr>sys_socket = (\<lambda>n. int n + 3), sys_ifindex = (\<lambda>_. Some 2),
     sys_hwaddr = (\<lambda>_. Some (replicate 14 1)), sys_ifaddr = (\<lambda>_. Some (2, 0x0100000a)),
     sys_bind = (\<lambda>_ _. b), sys_sendto = (\<lambda>_. True),
     sys_recvfrom = (\<lambda>n. if n = 0 then None else if n = 1 then Some (replicate 60 0)
        else Some (replicate 12 0 @ [8, 6] @ replicate 6 0 @ [0, 2] @ replicate 38 0)),
     sys_inet_addr = (\<lambda>_. 0x0200000a)\<rparr>"

lemma sample_arp_interface: "has_interface (sample_arp_sys b) [101] 0x0100000a (replicate 14 1) 2"
  by (simp add: has_interface_def sample_arp_sys_def AF_INET_def)

theorem arping_completes_witness:
  "\<exists>tr. test_arping (sample_arp_sys True) (replicate 60 7) [101] [] [] = Some (Some (0, tr)) \<and>
    last (calls tr) = Close 4"
proof -
  have "recv_ok (sample_arp_sys True) j" for j
    by (simp add: recv_ok_def sample_arp_sys_def)
  moreover have "\<not> recv_reply (sample_arp_sys True) j" if "j < 2" for j
    using that by (auto simp: recv_reply_def arp_reply_def sample_arp_sys_def less_2_cases_iff)
  moreover have "recv_reply (sample_arp_sys True) 2"
    by (simp add: recv_reply_def arp_reply_def sample_arp_sys_def)
  ultimately show ?thesis
    using arping_completes [of "replicate 60 7" "sample_arp_sys True" "[]" "0x0200000a" "[101]" "0x0100000a"
        "replicate 14 1" 2 4 2] sample_arp_interface [of True]
    by (fastforce simp: sample_arp_sys_def)
qed

theorem arping_double_close_witness:
  "\<exists>tr. test_arping (sample_arp_sys False) (replicate 60 7) [101] [] [] = Some (Some (-1, tr)) \<and>
    calls tr = [Socket 3, Close 3, Socket 4, Bind 4 2, Close 4, Close 4]"
  using arping_double_close [of "sample_arp_sys False" "[]" "0x0200000a" "[101]" "0x0100000a" "replicate 14 1" 2 4
      "replicate 60 7"] sample_arp_interface [of False]
  by (simp add: sample_arp_sys_def)

end
