(* ===== verification/Message.thy ===== *)
theory Message
  imports Libc
begin

text \<open>
  The message layer of the monitor, \<^verbatim>\<open>socket/monitor/message.h\<close> and \<^verbatim>\<open>message.cpp\<close>: the byte packer and
  unpacker, the four message types, and the framing of a raw message on a stream socket.

  An \<^verbatim>\<open>Unpacker\<close> is a window of a memory object. The functions that fill a C++ object take the old value
  of the object and return \<^verbatim>\<open>(success, new value, unpacker)\<close>; \<^term>\<open>None\<close> is an exception or an access
  outside the object. \<^verbatim>\<open>int\<close> fields are 32-bit words read as signed numbers, a \<^verbatim>\<open>double\<close> is its 64-bit
  pattern.
\<close>

section \<open>Unpacker\<close>

record Unpacker =
  up_mem :: "u8 list"
  up_data :: nat
  up_end :: nat

definition Unpacker_string :: "u8 list \<Rightarrow> Unpacker" where
  "Unpacker_string v = \<lparr>up_mem = v, up_data = 0, up_end = length v\<rparr>"

text \<open>\<open>unpack_T n\<close> is the template at a type of \<open>n\<close> bytes.\<close>

definition unpack_T :: "nat \<Rightarrow> 'a::len word \<Rightarrow> Unpacker \<Rightarrow> (bool \<times> 'a word \<times> Unpacker) option" where
  "unpack_T n t u =
     (if up_end u < up_data u + n then Some (False, t, u)
      else do {
        bs \<leftarrow> rd_range (up_mem u) (up_data u) n;
        Some (True, of_le_bytes bs, u\<lparr>up_data := up_data u + n\<rparr>)
      })"

abbreviation unpack_int :: "u32 \<Rightarrow> Unpacker \<Rightarrow> (bool \<times> u32 \<times> Unpacker) option" where
  "unpack_int \<equiv> unpack_T 4"

definition unpack_string :: "u8 list \<Rightarrow> Unpacker \<Rightarrow> (bool \<times> u8 list \<times> Unpacker) option" where
  "unpack_string t u = do {
     (ok, l, u) \<leftarrow> unpack_int 0 u;
     if ok then
       if l = 0 then Some (True, t, u)
       else if int (up_end u) < int (up_data u) + sint l + 1 then Some (False, t, u)
       else if sint l < 0 then None
       else do {
         s \<leftarrow> rd_range (up_mem u) (up_data u) (nat (sint l));
         Some (True, s, u\<lparr>up_data := up_data u + nat (sint l) + 1\<rparr>)
       }
     else Some (False, t, u)
   }"

definition unpack_vector :: "u8 list \<Rightarrow> Unpacker \<Rightarrow> (bool \<times> u8 list \<times> Unpacker) option" where
  "unpack_vector t u = do {
     (ok, l, u) \<leftarrow> unpack_int 0 u;
     if ok then
       if l = 0 then Some (True, t, u)
       else if int (up_end u) < int (up_data u) + sint l then Some (False, t, u)
       else if sint l < 0 then None
       else do {
         v \<leftarrow> rd_range (up_mem u) (up_data u) (nat (sint l));
         Some (True, v, u\<lparr>up_data := up_data u + nat (sint l)\<rparr>)
       }
     else Some (False, t, u)
   }"

text \<open>
  \<open>unpack_obj f\<close> unpacks an object through its virtual method \<open>f\<close>, which gets the window and reports
  the number of bytes it used.
\<close>

definition unpack_obj ::
  "('o \<Rightarrow> u8 list \<Rightarrow> nat \<Rightarrow> nat \<Rightarrow> (bool \<times> 'o \<times> nat) option) \<Rightarrow> 'o \<Rightarrow> Unpacker \<Rightarrow>
   (bool \<times> 'o \<times> Unpacker) option" where
  "unpack_obj f t u = do {
     (ok, t, l) \<leftarrow> f t (up_mem u) (up_data u) (up_end u);
     Some (ok, t, if ok then u\<lparr>up_data := up_data u + l\<rparr> else u)
   }"

definition cursor :: "Unpacker \<Rightarrow> nat" where
  "cursor u = up_data u"

section \<open>Packer\<close>

text \<open>A packer is the content of its string stream.\<close>

type_synonym Packer = "u8 list"

definition pack_T :: "nat \<Rightarrow> 'a::len word \<Rightarrow> Packer \<Rightarrow> Packer" where
  "pack_T n t w = w @ le_bytes n t"

abbreviation pack_int :: "u32 \<Rightarrow> Packer \<Rightarrow> Packer" where
  "pack_int \<equiv> pack_T 4"

definition pack_string :: "u8 list \<Rightarrow> Packer \<Rightarrow> Packer" where
  "pack_string t w =
     (if t = [] then pack_int 0 w
      else pack_T 1 (0 :: u8) (pack_int (of_nat (length t)) w @ t))"

definition pack_vector :: "u8 list \<Rightarrow> Packer \<Rightarrow> Packer" where
  "pack_vector t w = (if t = [] then pack_int 0 w else pack_int (of_nat (length t)) w @ t)"

definition pack_obj :: "('o \<Rightarrow> u8 list) \<Rightarrow> 'o \<Rightarrow> Packer \<Rightarrow> Packer" where
  "pack_obj f obj w = w @ f obj"

definition payload :: "Packer \<Rightarrow> u8 list" where
  "payload w = w"

section \<open>Message types\<close>

datatype MsgType = MSGNOTHING | MSGREQUEST | MSGRESPONSE | MSGPING | MSGPONG | MSGCMD

fun msg_code :: "MsgType \<Rightarrow> u32" where
  "msg_code MSGNOTHING = 0"
| "msg_code MSGREQUEST = 1"
| "msg_code MSGRESPONSE = 2"
| "msg_code MSGPING = 3"
| "msg_code MSGPONG = 4"
| "msg_code MSGCMD = 5"

definition strmsgtype :: "u32 \<Rightarrow> u8 list" where
  "strmsgtype t =
     (if t = msg_code MSGREQUEST then str ''MSGREQUEST''
      else if t = msg_code MSGRESPONSE then str ''MSGRESPONSE''
      else if t = msg_code MSGPING then str ''MSGPING''
      else if t = msg_code MSGPONG then str ''MSGPONG''
      else str ''UNKNOWN'')"

record MsgRequest =
  req_op :: u32
  req_arg :: u32

definition MsgRequest_default :: MsgRequest where
  "MsgRequest_default = \<lparr>req_op = 0, req_arg = 0\<rparr>"

definition MsgRequest_pack :: "MsgRequest \<Rightarrow> u8 list" where
  "MsgRequest_pack m = payload (pack_int (req_arg m) (pack_int (req_op m) []))"

definition MsgRequest_unpack :: "MsgRequest \<Rightarrow> Unpacker \<Rightarrow> (bool \<times> MsgRequest \<times> Unpacker) option" where
  "MsgRequest_unpack m r = do {
     (ok, x, r) \<leftarrow> unpack_int (req_op m) r;
     let m = m\<lparr>req_op := x\<rparr>;
     if ok then do {
       (ok, x, r) \<leftarrow> unpack_int (req_arg m) r;
       Some (ok, m\<lparr>req_arg := x\<rparr>, r)
     } else Some (False, m, r)
   }"

text \<open>The overload that works on a window of its own and reports the length it read.\<close>

definition MsgRequest_unpack_window ::
  "MsgRequest \<Rightarrow> u8 list \<Rightarrow> nat \<Rightarrow> nat \<Rightarrow> (bool \<times> MsgRequest \<times> nat) option" where
  "MsgRequest_unpack_window m mem data stop = do {
     (ok, m, r) \<leftarrow> MsgRequest_unpack m \<lparr>up_mem = mem, up_data = data, up_end = stop\<rparr>;
     Some (ok, m, if ok then cursor r - data else 0)
   }"

record MsgResponse =
  res_r1 :: "u8 list"
  res_r2 :: "u8 list"

definition MsgResponse_default :: MsgResponse where
  "MsgResponse_default = \<lparr>res_r1 = [], res_r2 = []\<rparr>"

definition MsgResponse_pack :: "MsgResponse \<Rightarrow> u8 list" where
  "MsgResponse_pack m = payload (pack_vector (res_r2 m) (pack_string (res_r1 m) []))"

definition MsgResponse_unpack :: "MsgResponse \<Rightarrow> Unpacker \<Rightarrow> (bool \<times> MsgResponse \<times> Unpacker) option" where
  "MsgResponse_unpack m r = do {
     (ok, x, r) \<leftarrow> unpack_string (res_r1 m) r;
     let m = m\<lparr>res_r1 := x\<rparr>;
     if ok then do {
       (ok, x, r) \<leftarrow> unpack_vector (res_r2 m) r;
       Some (ok, m\<lparr>res_r2 := x\<rparr>, r)
     } else Some (False, m, r)
   }"

definition MsgResponse_unpack_window ::
  "MsgResponse \<Rightarrow> u8 list \<Rightarrow> nat \<Rightarrow> nat \<Rightarrow> (bool \<times> MsgResponse \<times> nat) option" where
  "MsgResponse_unpack_window m mem data stop = do {
     (ok, m, r) \<leftarrow> MsgResponse_unpack m \<lparr>up_mem = mem, up_data = data, up_end = stop\<rparr>;
     Some (ok, m, if ok then cursor r - data else 0)
   }"

record MsgHeartbeat =
  ht_timestamp :: u64

definition MsgHeartbeat_pack :: "MsgHeartbeat \<Rightarrow> u8 list" where
  "MsgHeartbeat_pack m = payload (pack_T 8 (ht_timestamp m) [])"

definition MsgHeartbeat_unpack :: "MsgHeartbeat \<Rightarrow> Unpacker \<Rightarrow> (bool \<times> MsgHeartbeat \<times> Unpacker) option" where
  "MsgHeartbeat_unpack m r = do {
     (ok, x, r) \<leftarrow> unpack_T 8 (ht_timestamp m) r;
     Some (ok, m\<lparr>ht_timestamp := x\<rparr>, r)
   }"

definition MsgHeartbeat_unpack_window ::
  "MsgHeartbeat \<Rightarrow> u8 list \<Rightarrow> nat \<Rightarrow> nat \<Rightarrow> (bool \<times> MsgHeartbeat \<times> nat) option" where
  "MsgHeartbeat_unpack_window m mem data stop = do {
     (ok, m, r) \<leftarrow> MsgHeartbeat_unpack m \<lparr>up_mem = mem, up_data = data, up_end = stop\<rparr>;
     Some (ok, m, if ok then cursor r - data else 0)
   }"

record MsgCmd =
  cmd_op :: u32
  cmd_arg :: "u8 list"

definition MsgCmd_pack :: "MsgCmd \<Rightarrow> u8 list" where
  "MsgCmd_pack m = payload (pack_string (cmd_arg m) (pack_int (cmd_op m) []))"

section \<open>Raw messages on a socket\<close>

record MsgRaw =
  raw_type :: u32
  raw_payload :: "u8 list"

definition MsgRaw_new :: "u32 \<Rightarrow> MsgRaw" where
  "MsgRaw_new t = \<lparr>raw_type = t, raw_payload = []\<rparr>"

text \<open>
  Move construction and move assignment exchange the payloads; the type of the source stays. The
  results are the target and the source afterwards.
\<close>

definition MsgRaw_move_assign :: "MsgRaw \<Rightarrow> MsgRaw \<Rightarrow> MsgRaw \<times> MsgRaw" where
  "MsgRaw_move_assign this msg =
     (\<lparr>raw_type = raw_type msg, raw_payload = raw_payload msg\<rparr>, msg\<lparr>raw_payload := raw_payload this\<rparr>)"

definition MsgRaw_move_new :: "MsgRaw \<Rightarrow> MsgRaw \<times> MsgRaw" where
  "MsgRaw_move_new msg = MsgRaw_move_assign \<lparr>raw_type = raw_type msg, raw_payload = []\<rparr> msg"

text \<open>
  A socket is read as the bytes that arrive on it until its end; \<^verbatim>\<open>recv\<close> with \<^verbatim>\<open>MSG_WAITALL\<close> takes
  the number of bytes asked for, or all that are left.
\<close>

definition recv_waitall :: "u8 list \<Rightarrow> nat \<Rightarrow> u8 list \<times> u8 list" where
  "recv_waitall stream n = (take n stream, drop n stream)"

definition resize :: "u8 list \<Rightarrow> nat \<Rightarrow> u8 list" where
  "resize s n = take n s @ replicate (n - length s) 0"

definition MsgRaw_read :: "MsgRaw \<Rightarrow> u8 list \<Rightarrow> bool \<times> MsgRaw \<times> u8 list" where
  "MsgRaw_read m stream =
     (let (hdr, stream) = recv_waitall stream 8 in
      if length hdr \<noteq> 8 then (False, m, stream)
      else
        (let l = (of_le_bytes (drop 4 hdr) :: u32);
             m = m\<lparr>raw_type := of_le_bytes (take 4 hdr)\<rparr> in
         if sint l \<le> 0 then (True, m, stream)
         else
           (let p = resize (raw_payload m) (nat (sint l));
                (got, stream) = recv_waitall stream (nat (sint l)) in
            (length got = nat (sint l), m\<lparr>raw_payload := got @ drop (length got) p\<rparr>, stream))))"

definition MsgRaw_bytes :: "MsgRaw \<Rightarrow> u8 list" where
  "MsgRaw_bytes m =
     le_bytes 4 (raw_type m) @ le_bytes 4 (of_nat (length (raw_payload m)) :: u32) @ raw_payload m"

text \<open>\<open>writev\<close> is the system's answer to the attempt to write these bytes.\<close>

definition MsgRaw_write :: "(u8 list \<Rightarrow> int) \<Rightarrow> MsgRaw \<Rightarrow> bool" where
  "MsgRaw_write writev m =
     (writev (MsgRaw_bytes m) = sint (of_nat (8 + length (raw_payload m)) :: u32))"

section \<open>Packed data in a window\<close>

text \<open>An unpacker whose next bytes are \<open>s\<close>.\<close>

definition win :: "u8 list \<Rightarrow> u8 list \<Rightarrow> u8 list \<Rightarrow> Unpacker" where
  "win pre s post = \<lparr>up_mem = pre @ s @ post, up_data = length pre, up_end = length (pre @ s @ post)\<rparr>"

lemma win_shift: "win pre (a @ b) post = \<lparr>up_mem = (pre @ a) @ b @ post, up_data = length pre, up_end = length ((pre @ a) @ b @ post)\<rparr>"
  by (simp add: win_def)

lemma unpack_T_win:
  assumes "LENGTH('a::len) = 8 * n"
  shows "unpack_T n t (win pre (le_bytes n (x :: 'a word) @ b) post) = Some (True, x, win (pre @ le_bytes n x) b post)"
  using assms by (simp add: unpack_T_def win_def rd_range_def)

lemma sint_length: "length s < 2 ^ 31 \<Longrightarrow> sint (of_nat (length s) :: u32) = int (length s)"
  by (rule sint_of_nat_u32)

lemma length_word_eq_0:
  assumes "length s < 2 ^ 31"
  shows "(of_nat (length s) :: u32) = 0 \<longleftrightarrow> s = []"
proof
  assume z: "(of_nat (length s) :: u32) = 0"
  have "int (length s) = 0" using sint_length [OF assms] unfolding z by simp
  then show "s = []" by simp
qed simp

lemma pack_string_bytes:
  "pack_string s w = w @ (if s = [] then le_bytes 4 (0 :: u32) else le_bytes 4 (of_nat (length s) :: u32) @ s @ [0])"
  by (simp add: pack_string_def pack_T_def le_bytes_def byte_def)

lemma pack_vector_bytes:
  "pack_vector s w = w @ (if s = [] then le_bytes 4 (0 :: u32) else le_bytes 4 (of_nat (length s) :: u32) @ s)"
  by (simp add: pack_vector_def pack_T_def)

lemma unpack_string_win:
  assumes "length s < 2 ^ 31"
  shows "unpack_string t (win pre (pack_string s [] @ b) post) =
    Some (True, if s = [] then t else s, win (pre @ pack_string s []) b post)"
proof (cases "s = []")
  case True
  then show ?thesis
    by (simp add: unpack_string_def pack_string_bytes unpack_T_win)
next
  case False
  have "unpack_int 0 (win pre (pack_string s [] @ b) post) =
      Some (True, of_nat (length s), win (pre @ le_bytes 4 (of_nat (length s) :: u32)) (s @ 0 # b) post)"
    using False unpack_T_win [of 4 0 pre "of_nat (length s) :: u32" "s @ 0 # b" post] by (simp add: pack_string_bytes)
  then show ?thesis using False assms
    by (simp add: unpack_string_def length_word_eq_0 sint_length win_def rd_range_def pack_string_bytes)
qed

lemma unpack_vector_win:
  assumes "length s < 2 ^ 31"
  shows "unpack_vector t (win pre (pack_vector s [] @ b) post) =
    Some (True, if s = [] then t else s, win (pre @ pack_vector s []) b post)"
proof (cases "s = []")
  case True
  then show ?thesis
    by (simp add: unpack_vector_def pack_vector_bytes unpack_T_win)
next
  case False
  have "unpack_int 0 (win pre (pack_vector s [] @ b) post) =
      Some (True, of_nat (length s), win (pre @ le_bytes 4 (of_nat (length s) :: u32)) (s @ b) post)"
    using False unpack_T_win [of 4 0 pre "of_nat (length s) :: u32" "s @ b" post] by (simp add: pack_vector_bytes)
  then show ?thesis using False assms
    by (simp add: unpack_vector_def length_word_eq_0 sint_length win_def rd_range_def pack_vector_bytes)
qed

lemma Unpacker_string_win: "Unpacker_string v = win [] v []"
  by (simp add: Unpacker_string_def win_def)

lemma MsgRequest_pack_win:
  "MsgRequest_unpack m0 (win pre (MsgRequest_pack m @ b) post) = Some (True, m, win (pre @ MsgRequest_pack m) b post)"
  by (simp add: MsgRequest_unpack_def MsgRequest_pack_def payload_def pack_T_def unpack_T_win)

lemma MsgHeartbeat_pack_win:
  "MsgHeartbeat_unpack m0 (win pre (MsgHeartbeat_pack m @ b) post) = Some (True, m, win (pre @ MsgHeartbeat_pack m) b post)"
  by (simp add: MsgHeartbeat_unpack_def MsgHeartbeat_pack_def payload_def pack_T_def unpack_T_win)

lemma MsgResponse_pack_split: "MsgResponse_pack m = pack_string (res_r1 m) [] @ pack_vector (res_r2 m) []"
  by (simp add: MsgResponse_pack_def payload_def pack_vector_bytes)

lemma MsgResponse_pack_win:
  assumes "length (res_r1 m) < 2 ^ 31" "length (res_r2 m) < 2 ^ 31"
  shows "MsgResponse_unpack m0 (win pre (MsgResponse_pack m @ b) post) =
    Some (True, \<lparr>res_r1 = if res_r1 m = [] then res_r1 m0 else res_r1 m,
                 res_r2 = if res_r2 m = [] then res_r2 m0 else res_r2 m\<rparr>,
          win (pre @ MsgResponse_pack m) b post)"
  using assms by (simp add: MsgResponse_unpack_def MsgResponse_pack_split unpack_string_win unpack_vector_win)

section \<open>Framing\<close>

definition raw_ok :: "MsgRaw \<Rightarrow> bool" where
  "raw_ok m \<longleftrightarrow> length (raw_payload m) < 2 ^ 31"

lemma MsgRaw_read_bytes:
  assumes "raw_ok m" "raw_payload m0 = []"
  shows "MsgRaw_read m0 (MsgRaw_bytes m @ rest) = (True, m, rest)"
proof -
  have l: "sint (of_nat (length (raw_payload m)) :: u32) = int (length (raw_payload m))"
    using assms(1) by (simp add: raw_ok_def sint_length)
  let ?h = "le_bytes 4 (raw_type m) @ le_bytes 4 (of_nat (length (raw_payload m)) :: u32)"
  have h: "recv_waitall (MsgRaw_bytes m @ rest) 8 = (?h, raw_payload m @ rest)"
    by (simp add: MsgRaw_bytes_def recv_waitall_def)
  have p: "recv_waitall (raw_payload m @ rest) (length (raw_payload m)) = (raw_payload m, rest)"
    by (simp add: recv_waitall_def)
  show ?thesis using assms
    by (simp add: MsgRaw_read_def h p l resize_def Let_def)
qed

text \<open>A connection read message by message, each into a fresh object, until a read fails.\<close>

definition read_one :: "u8 list \<Rightarrow> (MsgRaw \<times> nat) option" where
  "read_one stream =
     (case MsgRaw_read (MsgRaw_new 0) stream of
        (ok, m, rest) \<Rightarrow> if ok then Some (m, length stream - length rest) else None)"

lemma read_one_advances: "read_one stream = Some (m, n) \<Longrightarrow> 0 < n \<and> n \<le> length stream"
  by (auto simp: read_one_def MsgRaw_read_def recv_waitall_def Let_def split: if_splits)

function read_stream :: "u8 list \<Rightarrow> MsgRaw list" where
  "read_stream stream =
     (case read_one stream of None \<Rightarrow> [] | Some (m, n) \<Rightarrow> m # read_stream (drop n stream))"
  by pat_completeness auto
termination
  by (relation "measure length") (auto dest!: read_one_advances)

declare read_stream.simps [simp del]

interpretation raw: codec_loop MsgRaw_bytes read_one raw_ok read_stream
proof
  show "raw_ok x \<Longrightarrow> read_one (MsgRaw_bytes x @ rest) = Some (x, length (MsgRaw_bytes x))" for x rest
    by (simp add: read_one_def MsgRaw_read_bytes MsgRaw_new_def)
  show "read_one [] = None"
    by (simp add: read_one_def MsgRaw_read_def recv_waitall_def)
  show "read_one bs = None \<Longrightarrow> read_stream bs = []" for bs
    by (subst read_stream.simps) simp
  show "read_one bs = Some (x, n) \<Longrightarrow> read_stream bs = x # read_stream (drop n bs)" for bs x n
    by (subst read_stream.simps) simp
qed

section \<open>Properties\<close>

text \<open>C21. Every message type that has both directions is read back from its packed form as it was, with
  the whole packed form consumed and whatever follows it left; a response is read into a fresh object
  (an empty text leaves the old text of the object in place).\<close>

theorem message_roundtrip:
  assumes "length (res_r1 res) < 2 ^ 31" "length (res_r2 res) < 2 ^ 31"
  shows "(\<exists>u. MsgRequest_unpack req0 (Unpacker_string (MsgRequest_pack req @ rest)) = Some (True, req, u) \<and>
            cursor u = length (MsgRequest_pack req)) \<and>
         (\<exists>u. MsgHeartbeat_unpack ht0 (Unpacker_string (MsgHeartbeat_pack ht @ rest)) = Some (True, ht, u) \<and>
            cursor u = length (MsgHeartbeat_pack ht)) \<and>
         (\<exists>u. MsgResponse_unpack MsgResponse_default (Unpacker_string (MsgResponse_pack res @ rest)) =
              Some (True, res, u) \<and> cursor u = length (MsgResponse_pack res))"
proof (intro conjI)
  show "\<exists>u. MsgRequest_unpack req0 (Unpacker_string (MsgRequest_pack req @ rest)) = Some (True, req, u) \<and>
      cursor u = length (MsgRequest_pack req)"
    using MsgRequest_pack_win [of req0 "[]" req rest "[]"] by (simp add: Unpacker_string_win cursor_def) (simp add: win_def)
  show "\<exists>u. MsgHeartbeat_unpack ht0 (Unpacker_string (MsgHeartbeat_pack ht @ rest)) = Some (True, ht, u) \<and>
      cursor u = length (MsgHeartbeat_pack ht)"
    using MsgHeartbeat_pack_win [of ht0 "[]" ht rest "[]"] by (simp add: Unpacker_string_win cursor_def) (simp add: win_def)
  have "\<lparr>res_r1 = if res_r1 res = [] then res_r1 MsgResponse_default else res_r1 res,
         res_r2 = if res_r2 res = [] then res_r2 MsgResponse_default else res_r2 res\<rparr> = res"
    by (simp add: MsgResponse_default_def)
  then show "\<exists>u. MsgResponse_unpack MsgResponse_default (Unpacker_string (MsgResponse_pack res @ rest)) =
      Some (True, res, u) \<and> cursor u = length (MsgResponse_pack res)"
    using MsgResponse_pack_win [OF assms, of MsgResponse_default "[]" rest "[]"]
    by (simp only: Unpacker_string_win cursor_def append_Nil) (simp add: win_def)
qed

theorem message_roundtrip_witness:
  "\<exists>u. MsgResponse_unpack MsgResponse_default (Unpacker_string (MsgResponse_pack \<lparr>res_r1 = [104, 105], res_r2 = [9]\<rparr> @ [7])) =
     Some (True, \<lparr>res_r1 = [104, 105], res_r2 = [9]\<rparr>, u)"
  using message_roundtrip [of "\<lparr>res_r1 = [104, 105], res_r2 = [9]\<rparr>" MsgRequest_default MsgRequest_default "[7]"
      "\<lparr>ht_timestamp = 0\<rparr>" "\<lparr>ht_timestamp = 0\<rparr>"] by auto

text \<open>C6. A connection that carries any sequence of messages (payloads below 2 GiB) is read back as that
  sequence, and the bytes on the wire determine it.\<close>

theorem raw_stream_roundtrip:
  assumes "list_all raw_ok ms"
  shows "read_stream (concat (map MsgRaw_bytes ms)) = ms \<and>
    (\<forall>ms'. list_all raw_ok ms' \<and> concat (map MsgRaw_bytes ms') = concat (map MsgRaw_bytes ms) \<longrightarrow> ms' = ms)"
  using raw.loop_concat [OF assms] raw.concat_enc_inj [OF _ assms] by auto

theorem raw_stream_roundtrip_witness:
  "read_stream (concat (map MsgRaw_bytes [\<lparr>raw_type = 3, raw_payload = [1, 2]\<rparr>, MsgRaw_new 4])) =
     [\<lparr>raw_type = 3, raw_payload = [1, 2]\<rparr>, MsgRaw_new 4]"
  using raw_stream_roundtrip [of "[\<lparr>raw_type = 3, raw_payload = [1, 2]\<rparr>, MsgRaw_new 4]"]
  by (simp add: raw_ok_def MsgRaw_new_def)

text \<open>The next four bytes of the window are a negative length.\<close>

definition negative_length :: "Unpacker \<Rightarrow> bool" where
  "negative_length u \<longleftrightarrow> up_data u + 4 \<le> up_end u \<and>
     sint (of_le_bytes (take 4 (drop (up_data u) (up_mem u))) :: u32) < 0"

lemma unpack_int_window:
  assumes "up_end u \<le> length (up_mem u)"
  shows "unpack_int t u =
    (if up_data u + 4 \<le> up_end u
     then Some (True, of_le_bytes (take 4 (drop (up_data u) (up_mem u))), u\<lparr>up_data := up_data u + 4\<rparr>)
     else Some (False, t, u))"
  using assms by (auto simp: unpack_T_def rd_range_def)

lemma rd_range_window:
  "nat l + d \<le> length mem \<Longrightarrow> rd_range mem d (nat l) = Some (take (nat l) (drop d mem))"
  by (simp add: rd_range_def)

text \<open>C35. Reading a text or a byte array from any window of a memory object stays inside the window,
  except that a negative length field passes the bounds check and raises an exception. Otherwise the
  cursor stays inside the window.\<close>

theorem unpack_window_bounds:
  assumes "up_data u \<le> up_end u" "up_end u \<le> length (up_mem u)"
  shows "(unpack_string t u = None \<longleftrightarrow> negative_length u) \<and> (unpack_vector t u = None \<longleftrightarrow> negative_length u) \<and>
    (\<forall>ok s u'. unpack_string t u = Some (ok, s, u') \<or> unpack_vector t u = Some (ok, s, u') \<longrightarrow>
       up_data u' \<le> up_end u \<and> up_end u' = up_end u)"
proof (cases "up_data u + 4 \<le> up_end u")
  case False
  then show ?thesis using assms
    by (auto simp: unpack_string_def unpack_vector_def unpack_int_window negative_length_def)
next
  case True
  define l where "l = (of_le_bytes (take 4 (drop (up_data u) (up_mem u))) :: u32)"
  have neg: "negative_length u \<longleftrightarrow> sint l < 0" using True by (simp add: negative_length_def l_def)
  have i: "unpack_int 0 u = Some (True, l, u\<lparr>up_data := up_data u + 4\<rparr>)"
    using True assms by (simp add: unpack_int_window l_def)
  consider "l = 0" | "sint l < 0" | "0 < sint l" "l \<noteq> 0"
    by (metis linorder_neqE_linordered_idom sint_0 signed_0 signed_eq_0_iff)
  then show ?thesis
  proof cases
    case 1
    then show ?thesis using True neg by (auto simp: unpack_string_def unpack_vector_def i)
  next
    case 2
    then have "l \<noteq> 0" by auto
    with 2 True show ?thesis by (auto simp: neg unpack_string_def unpack_vector_def i)
  next
    case 3
    then show ?thesis using assms True
      by (auto simp: neg unpack_string_def unpack_vector_def i rd_range_window split: if_splits)
  qed
qed

theorem unpack_window_bounds_witness:
  "unpack_string [] (Unpacker_string [255, 255, 255, 255, 1]) = None \<and>
   unpack_vector [] (Unpacker_string [2, 0, 0, 0, 1]) \<noteq> None"
proof -
  have "negative_length (Unpacker_string [255, 255, 255, 255, 1])"
    "\<not> negative_length (Unpacker_string [2, 0, 0, 0, 1])"
    by (code_simp, code_simp)
  then show ?thesis
    using unpack_window_bounds [of "Unpacker_string [255, 255, 255, 255, 1]" "[]"]
      unpack_window_bounds [of "Unpacker_string [2, 0, 0, 0, 1]" "[]"] by (simp add: Unpacker_string_def)
qed

end
