(* ===== verification/Runner.thy ===== *)
theory Runner
  imports Complex_Main Libc "HOL-Library.Multiset"
begin

text \<open>
  The threads of the monitor: the life-cycle state and the deferred closures (\<^verbatim>\<open>state.h\<close>,
  \<^verbatim>\<open>base.h\<close>), the event counter that wakes a thread, the id allocator, the task runner and the timer
  runner (\<^verbatim>\<open>runner.h\<close>, \<^verbatim>\<open>runner.cpp\<close>), the timer configuration (\<^verbatim>\<open>timer.h\<close>, \<^verbatim>\<open>timer.cpp\<close>), the time
  wheel and the pipe.

  \<open>'w\<close> is the state of the world that the jobs, hooks and closures of the client act on. A time in
  milliseconds, a \<^verbatim>\<open>double\<close> in the code, is a real number. A poll loop is the function of one round;
  the steps of several threads are interleaved by a step relation.
\<close>

section \<open>State\<close>

datatype State = NOTHINGNESS | INITIALIZED | TRANSFERRED | IDLE | WORK | TERMINATED

fun state_code :: "State \<Rightarrow> nat" where
  "state_code NOTHINGNESS = 0"
| "state_code INITIALIZED = 1"
| "state_code TRANSFERRED = 2"
| "state_code IDLE = 3"
| "state_code WORK = 4"
| "state_code TERMINATED = 5"

lemma state_code_inj: "state_code a = state_code b \<Longrightarrow> a = b"
  by (cases a; cases b) simp_all

instantiation State :: linorder
begin

definition less_eq_State :: "State \<Rightarrow> State \<Rightarrow> bool" where
  "less_eq_State a b \<longleftrightarrow> state_code a \<le> state_code b"

definition less_State :: "State \<Rightarrow> State \<Rightarrow> bool" where
  "less_State a b \<longleftrightarrow> state_code a < state_code b"

instance
  by standard (auto simp: less_eq_State_def less_State_def intro: state_code_inj)

end

definition initialized :: "State \<Rightarrow> bool" where
  "initialized s \<longleftrightarrow> INITIALIZED \<le> s"

section \<open>Deferred closures\<close>

text \<open>A \<^verbatim>\<open>Defer\<close> holds a closure or nothing. Moving exchanges the closures of two objects.\<close>

type_synonym 'w Closure = "('w \<Rightarrow> 'w) option"

record 'w Defer =
  closure :: "'w Closure"

definition Defer_new :: "'w Closure \<Rightarrow> 'w Defer" where
  "Defer_new c = \<lparr>closure = c\<rparr>"

definition Defer_move_assign :: "'w Defer \<Rightarrow> 'w Defer \<Rightarrow> 'w Defer \<times> 'w Defer" where
  "Defer_move_assign this d = (\<lparr>closure = closure d\<rparr>, \<lparr>closure = closure this\<rparr>)"

definition Defer_move_new :: "'w Defer \<Rightarrow> 'w Defer \<times> 'w Defer" where
  "Defer_move_new d = Defer_move_assign (Defer_new None) d"

definition Defer_destroy :: "'w Defer \<Rightarrow> 'w \<Rightarrow> 'w" where
  "Defer_destroy d w = (case closure d of None \<Rightarrow> w | Some c \<Rightarrow> c w)"

definition Defer_cancel :: "'w Defer \<Rightarrow> 'w Defer" where
  "Defer_cancel d = \<lparr>closure = None\<rparr>"

definition Defer_trigger :: "'w Defer \<Rightarrow> 'w \<Rightarrow> 'w Defer \<times> 'w" where
  "Defer_trigger d w =
     (case closure d of None \<Rightarrow> (d, w) | Some c \<Rightarrow> (let w = c w in (\<lparr>closure = None\<rparr>, w)))"

section \<open>Pipe and terminator\<close>

text \<open>The two descriptors; \<open>cs\<close> is the list of descriptors handed to \<^verbatim>\<open>close\<close>.\<close>

record Pipe =
  fd_read :: int
  fd_write :: int

definition closeReadEnd :: "Pipe \<Rightarrow> int list \<Rightarrow> Pipe \<times> int list" where
  "closeReadEnd p cs =
     (if fd_read p \<noteq> -1 then (p\<lparr>fd_read := -1\<rparr>, cs @ [fd_read p]) else (p, cs))"

definition closeWriteEnd :: "Pipe \<Rightarrow> int list \<Rightarrow> Pipe \<times> int list" where
  "closeWriteEnd p cs =
     (if fd_write p \<noteq> -1 then (p\<lparr>fd_write := -1\<rparr>, cs @ [fd_write p]) else (p, cs))"

definition Pipe_destroy :: "Pipe \<Rightarrow> int list \<Rightarrow> Pipe \<times> int list" where
  "Pipe_destroy p cs = (case closeReadEnd p cs of (p, cs) \<Rightarrow> closeWriteEnd p cs)"

definition giveupOwnership :: "Pipe \<Rightarrow> Pipe" where
  "giveupOwnership p = \<lparr>fd_read = -1, fd_write = -1\<rparr>"

section \<open>Notifier\<close>

text \<open>
  An event counter of the kernel: a write adds to it and blocks (\<^term>\<open>None\<close>) when the sum would pass
  its maximum, a read returns its value and clears it, and blocks when it is 0.
\<close>

record Notifier =
  n_fd :: int
  n_counter :: nat

definition kNotifyQuit :: nat where "kNotifyQuit = 0x1ffffffff"
definition kNotifyOne :: nat where "kNotifyOne = 1"

definition notify :: "nat \<Rightarrow> Notifier \<Rightarrow> Notifier option" where
  "notify event n =
     (if n_fd n \<noteq> -1 then
        if n_counter n + event \<le> 2 ^ 64 - 2 then Some (n\<lparr>n_counter := n_counter n + event\<rparr>) else None
      else Some n)"

definition retrieve :: "Notifier \<Rightarrow> (nat \<times> Notifier) option" where
  "retrieve n =
     (if n_fd n \<noteq> -1 then
        if n_counter n = 0 then None else Some (n_counter n, n\<lparr>n_counter := 0\<rparr>)
      else Some (0, n))"

section \<open>Id manager\<close>

text \<open>The bit set is the list of its N bits.\<close>

fun alloc_loop :: "bool list \<Rightarrow> nat \<Rightarrow> nat \<Rightarrow> int \<times> bool list" where
  "alloc_loop bits i 0 = (-1, bits)"
| "alloc_loop bits i (Suc k) =
     (if \<not> bits ! i then (int i, bits[i := True]) else alloc_loop bits (Suc i) k)"

definition alloc :: "bool list \<Rightarrow> int \<times> bool list" where
  "alloc bits = alloc_loop bits 0 (length bits)"

definition dealloc :: "int \<Rightarrow> bool list \<Rightarrow> bool list" where
  "dealloc i bits = (if 0 \<le> i \<and> i < int (length bits) then bits[nat i := False] else bits)"

definition valid :: "int \<Rightarrow> bool list \<Rightarrow> bool" where
  "valid i bits = (if 0 \<le> i \<and> i < int (length bits) then bits ! nat i else False)"

section \<open>Tasks\<close>

text \<open>
  A job returns a pointer or throws an exception, given by its text. A null function pointer or hook is
  \<^term>\<open>None\<close>. \<open>kClosureTag\<close> is the pointer value that marks a task as a closure.
\<close>

record 'w Task =
  tk_id :: int
  tk_fn :: "(nat \<Rightarrow> 'w \<Rightarrow> 'w \<times> (u8 list + nat)) option"
  tk_arg :: nat
  tk_dispose :: "(nat \<Rightarrow> 'w \<Rightarrow> 'w) option"
  tk_closure :: "('w \<Rightarrow> 'w \<times> (u8 list + unit)) option"
  tk_oncall :: "(nat \<Rightarrow> 'w \<Rightarrow> 'w) option"
  tk_onreturn :: "(nat \<Rightarrow> 'w \<Rightarrow> 'w) option"
  tk_onexception :: "(u8 list \<Rightarrow> 'w \<Rightarrow> 'w) option"

definition kClosureTag :: nat where "kClosureTag = 2 ^ 64 - 1"

definition CALL :: "('a \<Rightarrow> 'w \<Rightarrow> 'w) option \<Rightarrow> 'a \<Rightarrow> 'w \<Rightarrow> 'w" where
  "CALL fn x w = (case fn of None \<Rightarrow> w | Some f \<Rightarrow> f x w)"

text \<open>An empty closure throws \<^verbatim>\<open>bad_function_call\<close>; a null function pointer is undefined.\<close>

definition Task_run :: "('w, 'x) Task_scheme \<Rightarrow> 'w \<Rightarrow> 'w option" where
  "Task_run t w = do {
     let w = CALL (tk_oncall t) (tk_arg t) w;
     (w, r) \<leftarrow>
       (if tk_arg t = kClosureTag then
          (case tk_closure t of
             None \<Rightarrow> Some (w, Inl (str ''bad_function_call''))
           | Some c \<Rightarrow> (case c w of (w, r) \<Rightarrow> Some (w, map_sum id (\<lambda>_. 0) r)))
        else (case tk_fn t of None \<Rightarrow> None | Some f \<Rightarrow> Some (f (tk_arg t) w)));
     Some (case r of
       Inl ex \<Rightarrow> CALL (tk_onreturn t) 0 (CALL (tk_onexception t) ex w)
     | Inr p \<Rightarrow> CALL (tk_onreturn t) p w)
   }"

fun run_tasks :: "('w, 'x) Task_scheme list \<Rightarrow> 'w \<Rightarrow> 'w option" where
  "run_tasks [] w = Some w"
| "run_tasks (t # ts) w = do { w \<leftarrow> Task_run t w; run_tasks ts w }"

section \<open>Task runner\<close>

record 'w TaskRunner =
  tr_state :: State
  tr_notifier :: Notifier
  tr_tasks :: "'w Task list"

text \<open>\<^verbatim>\<open>start\<close> returns once the thread has announced itself.\<close>

definition start :: "State \<Rightarrow> State" where
  "start s = (if initialized s then s else IDLE)"

definition stop :: "Notifier \<Rightarrow> (State \<times> Notifier) option" where
  "stop n = map_option (Pair TERMINATED) (notify kNotifyQuit n)"

text \<open>\<^verbatim>\<open>post\<close> is two steps: the insertion under the lock, then the notification.\<close>

definition TaskRunner_push :: "'w Task \<Rightarrow> 'w TaskRunner \<Rightarrow> 'w TaskRunner" where
  "TaskRunner_push task r = r\<lparr>tr_tasks := task # tr_tasks r\<rparr>"

definition TaskRunner_notify :: "'w TaskRunner \<Rightarrow> 'w TaskRunner option" where
  "TaskRunner_notify r = map_option (\<lambda>n. r\<lparr>tr_notifier := n\<rparr>) (notify kNotifyOne (tr_notifier r))"

definition TaskRunner_post :: "'w Task \<Rightarrow> 'w TaskRunner \<Rightarrow> 'w TaskRunner option" where
  "TaskRunner_post task r =
     (if tk_fn task \<noteq> None then TaskRunner_notify (TaskRunner_push task r) else Some r)"

text \<open>
  The part of a round under the lock: \<open>e\<close> times the front of the deque is moved to a vector; taking
  the front of an empty deque is undefined.
\<close>

fun take_tasks :: "nat \<Rightarrow> 'w Task list \<Rightarrow> 'w Task list \<Rightarrow> ('w Task list \<times> 'w Task list) option" where
  "take_tasks 0 q ts = Some (q, ts)"
| "take_tasks (Suc e) [] ts = None"
| "take_tasks (Suc e) (t # q) ts = take_tasks e q (ts @ [t])"

text \<open>
  One wake-up: \<^term>\<open>None\<close> when the counter says to quit. The result is the batch to run and the runner
  with the batch removed.
\<close>

definition TaskRunner_wake :: "'w TaskRunner \<Rightarrow> ('w Task list \<times> 'w TaskRunner) option option option" where
  "TaskRunner_wake r =
     (case retrieve (tr_notifier r) of
        None \<Rightarrow> None
      | Some (e, n) \<Rightarrow>
          if kNotifyQuit \<le> e then Some None
          else Some (Some (do {
            (q, ts) \<leftarrow> take_tasks e (tr_tasks r) [];
            Some (ts, r\<lparr>tr_notifier := n, tr_tasks := q, tr_state := WORK\<rparr>)
          })))"

definition TaskRunner_round :: "'w TaskRunner \<Rightarrow> 'w \<Rightarrow> ('w TaskRunner \<times> 'w) option option option" where
  "TaskRunner_round r w =
     (case TaskRunner_wake r of
        None \<Rightarrow> None
      | Some None \<Rightarrow> Some None
      | Some (Some None) \<Rightarrow> Some (Some None)
      | Some (Some (Some (ts, r))) \<Rightarrow>
          Some (Some (map_option (Pair (r\<lparr>tr_state := IDLE\<rparr>)) (run_tasks ts w))))"

definition TaskRunner_idle :: "'w TaskRunner \<Rightarrow> bool" where
  "TaskRunner_idle r \<longleftrightarrow> tr_state r = IDLE"

section \<open>Timer\<close>

record Config =
  interval_second :: u32
  interval_millisecond :: u32
  value_second :: u32
  value_millisecond :: u32

definition Config_null :: Config where
  "Config_null = \<lparr>interval_second = 0, interval_millisecond = 0, value_second = 0, value_millisecond = 0\<rparr>"

definition kThousand :: u32 where "kThousand = 1000"
definition kMillion :: nat where "kMillion = 1000000"
definition kLeastDuration :: u32 where "kLeastDuration = 10"

record timespec =
  tv_sec :: nat
  tv_nsec :: nat

definition SETTIMESPEC :: "u32 \<Rightarrow> u32 \<Rightarrow> timespec" where
  "SETTIMESPEC x y =
     (let (x, y) = (if kThousand \<le> y then (x + y div kThousand, y mod kThousand) else (x, y)) in
      \<lparr>tv_sec = unat x, tv_nsec = (if y \<noteq> 0 then unat y * kMillion else 0)\<rparr>)"

text \<open>The conversion to \<^verbatim>\<open>itimerspec\<close>: the interval and the first expiration.\<close>

definition itimerspec :: "Config \<Rightarrow> timespec \<times> timespec" where
  "itimerspec cfg =
     (SETTIMESPEC (interval_second cfg) (interval_millisecond cfg),
      SETTIMESPEC (value_second cfg) (value_millisecond cfg))"

definition notnull :: "Config \<Rightarrow> bool" where
  "notnull cfg \<longleftrightarrow> interval_second cfg \<noteq> 0 \<or> kLeastDuration \<le> interval_millisecond cfg \<or>
     value_second cfg \<noteq> 0 \<or> kLeastDuration \<le> value_millisecond cfg"

text \<open>\<^verbatim>\<open>timerfd_settime\<close>: what the timer is armed with.\<close>

definition Timer_reset :: "Config \<Rightarrow> timespec \<times> timespec" where
  "Timer_reset cfg = itimerspec cfg"

definition Timer_new :: "Config \<Rightarrow> (timespec \<times> timespec) option" where
  "Timer_new cfg = (if notnull cfg then Some (itimerspec cfg) else None)"

section \<open>Timer runner\<close>

definition TIMERTASK_ONCE :: u32 where "TIMERTASK_ONCE = 0"
definition TIMERTASK_REPEATED :: u32 where "TIMERTASK_REPEATED = 1"
definition kTypeMask :: u32 where "kTypeMask = 0xff"

record 'w tTask = "'w Task" +
  runat :: real
  duration :: u32
  ttype :: u32

definition task_greater :: "'w tTask \<Rightarrow> 'w tTask \<Rightarrow> bool" where
  "task_greater t1 t2 \<longleftrightarrow> runat t2 < runat t1"

text \<open>
  The heap holds its tasks in the order of insertion; its top is the first task that no other is
  earlier than. (Which of several equally early tasks comes first is not specified by the library.)
\<close>

fun heap_top :: "'w tTask list \<Rightarrow> 'w tTask option" where
  "heap_top [] = None"
| "heap_top (t # ts) =
     (case heap_top ts of None \<Rightarrow> Some t | Some s \<Rightarrow> if task_greater t s then Some s else Some t)"

fun heap_pop :: "'w tTask list \<Rightarrow> 'w tTask list" where
  "heap_pop [] = []"
| "heap_pop (t # ts) =
     (case heap_top ts of None \<Rightarrow> [] | Some s \<Rightarrow> if task_greater t s then t # heap_pop ts else ts)"

definition heap_push :: "'w tTask \<Rightarrow> 'w tTask list \<Rightarrow> 'w tTask list" where
  "heap_push t ts = ts @ [t]"

record 'w tRunner =
  tm_state :: State
  tm_notifier :: Notifier
  tm_timer :: "timespec \<times> timespec"
  tm_tasks :: "'w tTask list"
  tm_id :: u32
  tm_marks :: "int set"

definition tTask_Nil :: "real \<Rightarrow> 'w tTask" where
  "tTask_Nil now = \<lparr>tk_id = -1, tk_fn = None, tk_arg = 0, tk_dispose = None, tk_closure = None,
     tk_oncall = None, tk_onreturn = None, tk_onexception = None, runat = now, duration = 0, ttype = 0\<rparr>"

definition tm_arm :: "u32 \<Rightarrow> timespec \<times> timespec" where
  "tm_arm ms = Timer_reset \<lparr>interval_second = 0, interval_millisecond = 0, value_second = 0,
     value_millisecond = ms\<rparr>"

definition tm_notify_one :: "'w tRunner \<Rightarrow> 'w tRunner option" where
  "tm_notify_one r = map_option (\<lambda>n. r\<lparr>tm_notifier := n\<rparr>) (notify kNotifyOne (tm_notifier r))"

definition tRunner_post :: "'w tTask \<Rightarrow> 'w tRunner \<Rightarrow> (int \<times> 'w tRunner) option" where
  "tRunner_post task r =
     (if tk_fn task \<noteq> None \<or> tk_closure task \<noteq> None then
        (let i = tm_id r + 1;
             task = task\<lparr>tk_id := sint i\<rparr>;
             r = r\<lparr>tm_id := i, tm_marks := insert (sint i) (tm_marks r),
                   tm_tasks := heap_push task (tm_tasks r)\<rparr> in
         if duration task < kLeastDuration then map_option (Pair (sint i)) (tm_notify_one r)
         else if tm_state r = IDLE then
           Some (sint i, r\<lparr>tm_timer := tm_arm (duration task), tm_state := WORK\<rparr>)
         else
           (case heap_top (tm_tasks r) of
              None \<Rightarrow> None
            | Some tp \<Rightarrow>
                Some (sint i, if runat tp = runat task then r\<lparr>tm_timer := tm_arm (duration task)\<rparr> else r)))
      else map_option (Pair (-1)) (tm_notify_one r))"

definition tRunner_cancel :: "int \<Rightarrow> 'w tRunner \<Rightarrow> 'w tRunner" where
  "tRunner_cancel i r =
     (if 0 < i \<and> i < sint (tm_id r) then r\<lparr>tm_marks := tm_marks r - {i}\<rparr> else r)"

text \<open>A task is due when it should run within the least duration of the timer.\<close>

definition is_due :: "real \<Rightarrow> 'w tTask \<Rightarrow> bool" where
  "is_due now t \<longleftrightarrow> runat t < now + real_of_int (uint kLeastDuration)"

lemma heap_top_None_iff [simp]: "heap_top ts = None \<longleftrightarrow> ts = []"
  by (cases ts) (auto split: option.splits)

lemma length_heap_pop: "ts \<noteq> [] \<Longrightarrow> Suc (length (heap_pop ts)) = length ts"
  by (induction ts rule: heap_pop.induct) (fastforce split: option.splits)+

text \<open>The loop under the lock: the due tasks that are still marked, the heap left, and the world after
  the disposal of the cancelled ones.\<close>

function collect ::
  "real \<Rightarrow> int set \<Rightarrow> 'w tTask list \<Rightarrow> 'w tTask list \<Rightarrow> 'w \<Rightarrow> 'w tTask list \<times> 'w tTask list \<times> 'w" where
  "collect now marks heap tasks w =
     (case heap_top heap of
        None \<Rightarrow> (tasks, heap, w)
      | Some tp \<Rightarrow>
          if is_due now tp then
            if tk_id tp \<in> marks then collect now marks (heap_pop heap) (tasks @ [tp]) w
            else collect now marks (heap_pop heap) tasks (CALL (tk_dispose tp) (tk_arg tp) w)
          else (tasks, heap, w))"
  by pat_completeness auto
termination
proof (relation "measure (\<lambda>(now, marks, heap, tasks, w). length heap)", goal_cases)
  case (2 now marks heap tasks w tp)
  then have "heap \<noteq> []" by auto
  then show ?case using length_heap_pop [of heap] by simp
next
  case (3 now marks heap tasks w tp)
  then have "heap \<noteq> []" by auto
  then show ?case using length_heap_pop [of heap] by simp
qed simp

declare collect.simps [simp del]

text \<open>After the run: a repeated task is queued again, any other is disposed of and unmarked.\<close>

fun requeue :: "real \<Rightarrow> 'w tTask list \<Rightarrow> 'w tTask list \<Rightarrow> int set \<Rightarrow> 'w \<Rightarrow> 'w tTask list \<times> int set \<times> 'w" where
  "requeue now [] heap marks w = (heap, marks, w)"
| "requeue now (t # ts) heap marks w =
     (if ttype t AND kTypeMask = TIMERTASK_REPEATED then
        requeue now ts (heap_push (t\<lparr>runat := now + real_of_int (uint (duration t))\<rparr>) heap) marks w
      else requeue now ts heap (marks - {tk_id t}) (CALL (tk_dispose t) (tk_arg t) w))"

text \<open>The first half of a round, up to the end of the first critical section.\<close>

definition tRunner_wake ::
  "real \<Rightarrow> 'w tRunner \<Rightarrow> 'w \<Rightarrow> ('w tTask list \<times> 'w tRunner \<times> 'w) option option" where
  "tRunner_wake now r w =
     (case retrieve (tm_notifier r) of
        None \<Rightarrow> None
      | Some (e, n) \<Rightarrow>
          if kNotifyQuit \<le> e then Some None
          else
            (case collect now (tm_marks r) (tm_tasks r) [] w of
               (ts, heap, w) \<Rightarrow> Some (Some (ts, r\<lparr>tm_notifier := n, tm_tasks := heap\<rparr>, w))))"

text \<open>The second half; \<open>now\<close> is the time after the tasks have run.\<close>

definition tRunner_finish ::
  "real \<Rightarrow> 'w tTask list \<Rightarrow> 'w tRunner \<Rightarrow> 'w \<Rightarrow> ('w tRunner \<times> 'w) option" where
  "tRunner_finish now ts r w =
     (case requeue now ts (tm_tasks r) (tm_marks r) w of
        (heap, marks, w) \<Rightarrow>
          (let r = r\<lparr>tm_tasks := heap, tm_marks := marks\<rparr> in
           case heap_top heap of
             None \<Rightarrow> Some (r\<lparr>tm_timer := Timer_reset Config_null, tm_state := IDLE\<rparr>, w)
           | Some tp \<Rightarrow>
               if is_due now tp then map_option (\<lambda>(_, r). (r, w)) (tRunner_post (tTask_Nil now) r)
               else Some (r\<lparr>tm_timer := tm_arm (of_int (floor (runat tp - now)))\<rparr>, w)))"

definition tRunner_round ::
  "real \<Rightarrow> real \<Rightarrow> 'w tRunner \<Rightarrow> 'w \<Rightarrow> ('w tRunner \<times> 'w) option option option" where
  "tRunner_round now1 now2 r w =
     (case tRunner_wake now1 r w of
        None \<Rightarrow> None
      | Some None \<Rightarrow> Some None
      | Some (Some (ts, r, w)) \<Rightarrow>
          Some (Some (do { w \<leftarrow> run_tasks ts w; tRunner_finish now2 ts r w })))"

section \<open>Time wheel\<close>

record 'a TimeWheel =
  wheel :: "'a list list"
  wheel_i :: nat

definition TimeWheel_new :: "nat \<Rightarrow> 'a TimeWheel" where
  "TimeWheel_new N = \<lparr>wheel = replicate N [], wheel_i = N - 1\<rparr>"

definition tick :: "'a TimeWheel \<Rightarrow> 'a list \<times> 'a TimeWheel" where
  "tick tw =
     (let i = (if wheel_i tw = 0 then length (wheel tw) else wheel_i tw) - 1 in
      (wheel tw ! i, \<lparr>wheel = (wheel tw)[i := []], wheel_i = i\<rparr>))"

definition current_add :: "'a \<Rightarrow> 'a TimeWheel \<Rightarrow> 'a TimeWheel" where
  "current_add x tw = tw\<lparr>wheel := (wheel tw)[wheel_i tw := wheel tw ! wheel_i tw @ [x]]\<rparr>"

section \<open>Deferred closures run once\<close>

lemma Defer_trigger_destroy:
  "(case Defer_trigger d w of (d', w') \<Rightarrow> Defer_destroy d' w') = Defer_destroy d w"
  by (simp add: Defer_trigger_def Defer_destroy_def Let_def split: option.splits)

lemma Defer_cancel_destroy: "Defer_destroy (Defer_cancel d) w = w"
  by (simp add: Defer_cancel_def Defer_destroy_def)

lemma Defer_move_destroy:
  "(case Defer_move_new d of (new, old) \<Rightarrow> Defer_destroy old (Defer_destroy new w)) = Defer_destroy d w"
  by (simp add: Defer_move_new_def Defer_move_assign_def Defer_new_def Defer_destroy_def split: option.splits)

lemma Pipe_destroy_closes_once:
  "snd (Pipe_destroy (fst (Pipe_destroy p cs)) cs') = cs'"
  by (simp add: Pipe_destroy_def closeReadEnd_def closeWriteEnd_def)

section \<open>Ids\<close>

lemma alloc_loop_result:
  "i + k = length bits \<Longrightarrow> alloc_loop bits i k = (j, bits') \<Longrightarrow>
     (j = -1 \<and> bits' = bits \<and> (\<forall>m. i \<le> m \<and> m < length bits \<longrightarrow> bits ! m)) \<or>
     (\<exists>m. j = int m \<and> i \<le> m \<and> m < length bits \<and> \<not> bits ! m \<and> bits' = bits[m := True] \<and>
        (\<forall>n. i \<le> n \<and> n < m \<longrightarrow> bits ! n))"
proof (induction k arbitrary: i)
  case (Suc k)
  show ?case
  proof (cases "bits ! i")
    case True
    then have "alloc_loop bits (Suc i) k = (j, bits')" using Suc.prems by simp
    then have IH: "(j = -1 \<and> bits' = bits \<and> (\<forall>m. Suc i \<le> m \<and> m < length bits \<longrightarrow> bits ! m)) \<or>
       (\<exists>m. j = int m \<and> Suc i \<le> m \<and> m < length bits \<and> \<not> bits ! m \<and> bits' = bits[m := True] \<and>
          (\<forall>n. Suc i \<le> n \<and> n < m \<longrightarrow> bits ! n))"
      using Suc.IH [of "Suc i"] Suc.prems(1) by simp
    have "i \<le> m \<longleftrightarrow> m = i \<or> Suc i \<le> m" for m by auto
    with IH True show ?thesis by auto
  next
    case False
    then show ?thesis using Suc.prems by auto
  qed
qed auto

text \<open>The id handed out is the smallest free one and is valid afterwards; -1 means that none is free.\<close>

lemma alloc_correct:
  assumes "alloc bits = (j, bits')"
  shows "if list_all id bits then j = -1 \<and> bits' = bits
    else 0 \<le> j \<and> \<not> valid j bits \<and> bits' = bits[nat j := True] \<and> valid j bits' \<and>
      (\<forall>m. int m < j \<longrightarrow> valid (int m) bits)"
proof -
  have "(j = -1 \<and> bits' = bits \<and> (\<forall>m. m < length bits \<longrightarrow> bits ! m)) \<or>
     (\<exists>m. j = int m \<and> m < length bits \<and> \<not> bits ! m \<and> bits' = bits[m := True] \<and> (\<forall>n. n < m \<longrightarrow> bits ! n))"
    using alloc_loop_result [of 0 "length bits" bits j bits'] assms by (simp add: alloc_def)
  then show ?thesis
  proof
    assume "j = -1 \<and> bits' = bits \<and> (\<forall>m. m < length bits \<longrightarrow> bits ! m)"
    then show ?thesis by (simp add: list_all_length)
  next
    assume "\<exists>m. j = int m \<and> m < length bits \<and> \<not> bits ! m \<and> bits' = bits[m := True] \<and> (\<forall>n. n < m \<longrightarrow> bits ! n)"
    then show ?thesis by (auto simp: list_all_length valid_def)
  qed
qed

section \<open>Timer configuration\<close>

lemma timespec_normal:
  "tv_nsec (SETTIMESPEC x y) < 1000000000 \<and>
   (unat x + unat y div 1000 < 2 ^ 32 \<longrightarrow>
      tv_sec (SETTIMESPEC x y) * 1000 + tv_nsec (SETTIMESPEC x y) div 1000000 = unat x * 1000 + unat y)"
proof (cases "kThousand \<le> y")
  case True
  have k: "unat kThousand = 1000" by (simp add: kThousand_def)
  have d: "unat (y div kThousand) = unat y div 1000" "unat (y mod kThousand) = unat y mod 1000"
    by (simp_all add: unat_div_distrib unat_mod_distrib k)
  have "unat (x + y div kThousand) = unat x + unat y div 1000" if "unat x + unat y div 1000 < 2 ^ 32"
    using that unat_add_lem [of x "y div kThousand"] by (simp add: d)
  moreover have "unat y mod 1000 * 1000000 < 1000000000"
    using mod_less_divisor [of 1000 "unat y"] by simp
  moreover have "unat y div 1000 * 1000 + unat y mod 1000 = unat y" by simp
  ultimately show ?thesis using True
    by (auto simp: SETTIMESPEC_def kMillion_def d unat_eq_zero [symmetric] algebra_simps simp del: unat_eq_zero)
next
  case False
  then have "unat y < 1000" by (simp add: kThousand_def word_le_nat_alt)
  then show ?thesis using False by (auto simp: SETTIMESPEC_def kMillion_def)
qed

section \<open>Time wheel\<close>

fun ticks :: "nat \<Rightarrow> 'a TimeWheel \<Rightarrow> 'a TimeWheel" where
  "ticks 0 tw = tw"
| "ticks (Suc k) tw = ticks k (snd (tick tw))"

definition wheel_ok :: "'a TimeWheel \<Rightarrow> bool" where
  "wheel_ok tw \<longleftrightarrow> wheel_i tw < length (wheel tw)"

lemma tick_ok: "wheel_ok tw \<Longrightarrow> wheel_ok (snd (tick tw)) \<and> length (wheel (snd (tick tw))) = length (wheel tw)"
  by (auto simp: wheel_ok_def tick_def Let_def)

lemma ticks_Suc: "ticks (Suc k) tw = snd (tick (ticks k tw))"
  by (induction k arbitrary: tw) simp_all

lemma back_mod: "(if (i + N - k) mod N = 0 then N else (i + N - k) mod N) - 1 = (i + N - Suc k) mod N"
  if "k < N" "i < N" for i N k :: nat
proof (cases "k \<le> i")
  case True
  then have "(i + N - k) mod N = i - k" using that
    by (metis Nat.add_diff_assoc2 less_imp_diff_less mod_add_self2 mod_less)
  moreover have "(i + N - Suc k) mod N = (if k = i then N - 1 else i - Suc k)"
  proof (cases "k = i")
    case False
    then have "i + N - Suc k = (i - Suc k) + N" using True by simp
    then have "(i + N - Suc k) mod N = (i - Suc k) mod N" by (simp only: mod_add_self2)
    then show ?thesis using False that True by simp
  qed (use that in simp)
  ultimately show ?thesis using True by auto
next
  case False
  then have "(i + N - k) mod N = i + N - k" "(i + N - Suc k) mod N = i + N - Suc k" using that by simp_all
  then show ?thesis using that by simp
qed

lemma back_mod_inj:
  fixes i N a b :: nat
  assumes "(i + N - a) mod N = (i + N - b) mod N" "a < b" "b \<le> N" "i < N" "0 < a"
  shows False
proof -
  have "(i + N - b) + (b - a) = i + N - a" using assms(2,3) by linarith
  then have "((i + N - b) + (b - a)) mod N = (i + N - b) mod N" using assms by simp
  then have "(b - a) mod N = 0"
    by (metis add_diff_cancel_left' mod_eq_0_iff_dvd mod_eq_dvd_iff_nat le_add1)
  then show False using assms by (simp add: mod_less)
qed

lemma ticks_state:
  assumes "wheel_ok tw" "k \<le> length (wheel tw)"
  defines "i \<equiv> wheel_i tw" and "N \<equiv> length (wheel tw)"
  shows "length (wheel (ticks k tw)) = N \<and> wheel_i (ticks k tw) = (i + N - k) mod N \<and>
     (\<forall>j<N. (\<forall>m. 0 < m \<and> m \<le> k \<longrightarrow> (i + N - m) mod N \<noteq> j) \<longrightarrow> wheel (ticks k tw) ! j = wheel tw ! j)"
  using assms(2)
proof (induction k)
  case 0
  then show ?case using assms(1) by (simp add: i_def N_def wheel_ok_def)
next
  case (Suc k)
  then have IH: "length (wheel (ticks k tw)) = N" "wheel_i (ticks k tw) = (i + N - k) mod N"
    "\<forall>j<N. (\<forall>m. 0 < m \<and> m \<le> k \<longrightarrow> (i + N - m) mod N \<noteq> j) \<longrightarrow> wheel (ticks k tw) ! j = wheel tw ! j"
    by simp_all
  have "(if (i + N - k) mod N = 0 then N else (i + N - k) mod N) - 1 = (i + N - Suc k) mod N"
    using Suc.prems assms(1) by (intro back_mod) (simp_all add: N_def i_def wheel_ok_def)
  note bk = this
  have t: "snd (tick (ticks k tw)) =
      \<lparr>wheel = (wheel (ticks k tw))[(i + N - Suc k) mod N := []], wheel_i = (i + N - Suc k) mod N\<rparr>"
    by (simp only: tick_def Let_def IH(1,2) bk snd_conv)
  show ?case
    unfolding ticks_Suc t using IH by (auto simp: nth_list_update)
qed

text \<open>
  The k-th tick (counted from 0) returns the slot k+1 positions back: what was added to the current slot
  comes out of the N-th tick and of none before.
\<close>

lemma tick_returns_slot:
  assumes "wheel_ok tw" "k < length (wheel tw)"
  shows "fst (tick (ticks k tw)) = wheel tw ! ((wheel_i tw + length (wheel tw) - Suc k) mod length (wheel tw))"
proof -
  let ?N = "length (wheel tw)"
  let ?j = "(wheel_i tw + ?N - Suc k) mod ?N"
  have i: "wheel_i tw < ?N" using assms(1) by (simp add: wheel_ok_def)
  have st: "length (wheel (ticks k tw)) = ?N" "wheel_i (ticks k tw) = (wheel_i tw + ?N - k) mod ?N"
    "\<forall>j<?N. (\<forall>m. 0 < m \<and> m \<le> k \<longrightarrow> (wheel_i tw + ?N - m) mod ?N \<noteq> j) \<longrightarrow> wheel (ticks k tw) ! j = wheel tw ! j"
    using ticks_state [OF assms(1), of k] assms(2) by simp_all
  have "(wheel_i tw + ?N - m) mod ?N \<noteq> ?j" if "0 < m" "m \<le> k" for m
    using back_mod_inj [of "wheel_i tw" ?N m "Suc k"] that i assms(2) by auto
  moreover have "?j < ?N" using i by (intro mod_less_divisor) linarith
  ultimately have "wheel (ticks k tw) ! ?j = wheel tw ! ?j" using st(3) by blast
  then show ?thesis
    by (simp only: tick_def Let_def st(1,2) back_mod [OF assms(2) i] fst_conv)
qed

lemma current_add_after_N_ticks:
  assumes "wheel_ok tw"
  shows "fst (tick (ticks (length (wheel tw) - 1) (current_add x tw))) = wheel tw ! wheel_i tw @ [x]"
proof -
  let ?tw = "current_add x tw"
  have "wheel_ok ?tw" "length (wheel ?tw) = length (wheel tw)" "wheel_i ?tw = wheel_i tw"
    "wheel ?tw ! wheel_i tw = wheel tw ! wheel_i tw @ [x]"
    using assms by (simp_all add: current_add_def wheel_ok_def)
  then show ?thesis
    using tick_returns_slot [of ?tw "length (wheel tw) - 1"] assms by (simp add: wheel_ok_def)
qed

section \<open>Task runner: interleaving of posts and wake-ups\<close>

lemma take_tasks_take:
  "take_tasks e q ts = (if e \<le> length q then Some (drop e q, ts @ take e q) else None)"
  by (induction e q ts rule: take_tasks.induct) auto

text \<open>
  The state of a run: the runner, the number of posts that have inserted their task but not yet
  notified, all tasks posted and all tasks handed out, in order.
\<close>

inductive runner_step ::
  "'w TaskRunner \<times> nat \<times> 'w Task list \<times> 'w Task list \<Rightarrow>
   'w TaskRunner \<times> nat \<times> 'w Task list \<times> 'w Task list \<Rightarrow> bool" where
  step_push: "tk_fn t \<noteq> None \<Longrightarrow>
    runner_step (r, k, posted, executed) (TaskRunner_push t r, Suc k, posted @ [t], executed)"
| step_notify: "TaskRunner_notify r = Some r' \<Longrightarrow>
    runner_step (r, Suc k, posted, executed) (r', k, posted, executed)"
| step_wake: "TaskRunner_wake r = Some (Some (Some (ts, r'))) \<Longrightarrow>
    runner_step (r, k, posted, executed) (r'\<lparr>tr_state := IDLE\<rparr>, k, posted, executed @ ts)"

inductive runner_reachable :: "'w TaskRunner \<times> nat \<times> 'w Task list \<times> 'w Task list \<Rightarrow> bool" where
  runner_init: "n_fd (tr_notifier r) \<noteq> -1 \<Longrightarrow> n_counter (tr_notifier r) = 0 \<Longrightarrow> tr_tasks r = [] \<Longrightarrow>
    runner_reachable (r, 0, [], [])"
| runner_next: "runner_reachable s \<Longrightarrow> runner_step s s' \<Longrightarrow> runner_reachable s'"

definition runner_inv :: "'w TaskRunner \<times> nat \<times> 'w Task list \<times> 'w Task list \<Rightarrow> bool" where
  "runner_inv s = (case s of (r, k, posted, executed) \<Rightarrow>
     n_fd (tr_notifier r) \<noteq> -1 \<and> length (tr_tasks r) = n_counter (tr_notifier r) + k \<and>
     mset posted = mset executed + mset (tr_tasks r))"

lemma TaskRunner_wake_cases:
  assumes "n_fd (tr_notifier r) \<noteq> -1" "n_counter (tr_notifier r) \<le> length (tr_tasks r)"
  shows "TaskRunner_wake r =
    (let e = n_counter (tr_notifier r) in
     if e = 0 then None else if kNotifyQuit \<le> e then Some None
     else Some (Some (Some (take e (tr_tasks r),
            r\<lparr>tr_notifier := (tr_notifier r)\<lparr>n_counter := 0\<rparr>, tr_tasks := drop e (tr_tasks r), tr_state := WORK\<rparr>))))"
  using assms by (simp add: TaskRunner_wake_def retrieve_def take_tasks_take Let_def)

lemma runner_inv_step:
  assumes "runner_step s s'" "runner_inv s"
  shows "runner_inv s'"
  using assms
proof (induction rule: runner_step.induct)
  case (step_push t r k posted executed)
  then show ?case by (simp add: runner_inv_def TaskRunner_push_def)
next
  case (step_notify r r' k posted executed)
  then show ?case
    by (auto simp: runner_inv_def TaskRunner_notify_def notify_def kNotifyOne_def split: if_splits)
next
  case (step_wake r ts r' k posted executed)
  let ?e = "n_counter (tr_notifier r)"
  have inv: "n_fd (tr_notifier r) \<noteq> -1" "length (tr_tasks r) = ?e + k" "mset posted = mset executed + mset (tr_tasks r)"
    using step_wake(2) by (simp_all add: runner_inv_def)
  then have "ts = take ?e (tr_tasks r)"
    "r' = r\<lparr>tr_notifier := (tr_notifier r)\<lparr>n_counter := 0\<rparr>, tr_tasks := drop ?e (tr_tasks r), tr_state := WORK\<rparr>"
    using step_wake(1) by (auto simp: TaskRunner_wake_cases Let_def split: if_splits)
  moreover have "mset (take ?e (tr_tasks r)) + mset (drop ?e (tr_tasks r)) = mset (tr_tasks r)"
    by (metis append_take_drop_id mset_append)
  ultimately show ?case using inv by (simp add: runner_inv_def ac_simps)
qed

lemma runner_reachable_inv: "runner_reachable s \<Longrightarrow> runner_inv s"
  by (induction rule: runner_reachable.induct) (auto simp: runner_inv_def [of "(_, _)"] intro: runner_inv_step)

section \<open>Timer runner: the due tasks\<close>

lemma heap_top_least: "heap_top ts = Some s \<Longrightarrow> s \<in> set ts \<and> (\<forall>t\<in>set ts. runat s \<le> runat t)"
  by (induction ts arbitrary: s) (fastforce simp: task_greater_def split: option.splits if_splits)+

lemma mset_heap_pop: "heap_top ts = Some s \<Longrightarrow> mset ts = add_mset s (mset (heap_pop ts))"
  by (induction ts arbitrary: s) (auto split: option.splits if_splits)

lemma collect_spec:
  "collect now marks heap tasks w = (tasks', heap', w') \<Longrightarrow>
   \<exists>ds. tasks' = tasks @ filter (\<lambda>t. tk_id t \<in> marks) ds \<and> sorted (map runat ds) \<and>
     mset heap = mset ds + mset heap' \<and> (\<forall>t\<in>set ds. is_due now t) \<and> (\<forall>t\<in>set heap'. \<not> is_due now t)"
proof (induction now marks heap tasks w rule: collect.induct)
  case (1 now marks heap tasks w)
  show ?case
  proof (cases "heap_top heap")
    case None
    then show ?thesis using 1(3) by (subst (asm) collect.simps) auto
  next
    case (Some s)
    note top = heap_top_least [OF Some] mset_heap_pop [OF Some]
    show ?thesis
    proof (cases "is_due now s")
      case False
      then have "\<forall>t\<in>set heap. \<not> is_due now t" using top by (force simp: is_due_def)
      then show ?thesis using 1(3) Some False by (subst (asm) collect.simps) auto
    next
      case True
      define w1 where "w1 = (if tk_id s \<in> marks then w else CALL (tk_dispose s) (tk_arg s) w)"
      define t1 where "t1 = (if tk_id s \<in> marks then tasks @ [s] else tasks)"
      have eq: "collect now marks (heap_pop heap) t1 w1 = (tasks', heap', w')"
        using 1(3) Some True by (subst (asm) collect.simps) (simp add: w1_def t1_def split: if_splits)
      have "\<exists>ds. tasks' = t1 @ filter (\<lambda>t. tk_id t \<in> marks) ds \<and> sorted (map runat ds) \<and>
          mset (heap_pop heap) = mset ds + mset heap' \<and> (\<forall>t\<in>set ds. is_due now t) \<and> (\<forall>t\<in>set heap'. \<not> is_due now t)"
        using 1(1,2) [OF Some True] eq by (cases "tk_id s \<in> marks") (simp_all add: w1_def t1_def)
      then obtain ds where ds: "tasks' = t1 @ filter (\<lambda>t. tk_id t \<in> marks) ds" "sorted (map runat ds)"
        "mset (heap_pop heap) = mset ds + mset heap'" "\<forall>t\<in>set ds. is_due now t" "\<forall>t\<in>set heap'. \<not> is_due now t"
        by blast
      have "set ds \<subseteq> set heap"
        using ds(3) top(2) by (metis Un_iff insert_iff set_mset_add_mset_insert set_mset_mset set_mset_union subsetI)
      then have "sorted (map runat (s # ds))" using top(1) ds(2) by auto
      moreover have "tasks' = tasks @ filter (\<lambda>t. tk_id t \<in> marks) (s # ds)" using ds(1) by (simp add: t1_def)
      moreover have "mset heap = mset (s # ds) + mset heap'" using top(2) ds(3) by simp
      ultimately show ?thesis using True ds(4,5) by (intro exI [of _ "s # ds"]) simp
    qed
  qed
qed

section \<open>Properties\<close>

text \<open>C2. Whatever the interleaving of posting threads and the runner, in every reachable state the
  wake-up never takes a task from an empty queue, and the tasks handed out together with those still
  queued are exactly the tasks posted, each once. A wake-up with no post in progress hands out
  everything that is queued.\<close>

theorem taskrunner_exactly_once:
  assumes "runner_reachable (r, k, posted, executed)"
  shows "TaskRunner_wake r \<noteq> Some (Some None) \<and> mset posted = mset executed + mset (tr_tasks r) \<and>
    (k = 0 \<and> 0 < length (tr_tasks r) \<and> length (tr_tasks r) < kNotifyQuit \<longrightarrow>
       (\<exists>r'. TaskRunner_wake r = Some (Some (Some (tr_tasks r, r'))) \<and> tr_tasks r' = []))"
proof -
  have inv: "n_fd (tr_notifier r) \<noteq> -1" "length (tr_tasks r) = n_counter (tr_notifier r) + k"
    "mset posted = mset executed + mset (tr_tasks r)"
    using runner_reachable_inv [OF assms] by (simp_all add: runner_inv_def)
  then show ?thesis by (auto simp: TaskRunner_wake_cases Let_def)
qed

definition sample_task :: "int \<Rightarrow> nat Task" where
  "sample_task i = \<lparr>tk_id = i, tk_fn = Some (\<lambda>a w. (w + a, Inr 0)), tk_arg = 1, tk_dispose = None,
     tk_closure = None, tk_oncall = None, tk_onreturn = None, tk_onexception = None\<rparr>"

theorem taskrunner_exactly_once_witness:
  "TaskRunner_wake (TaskRunner_push (sample_task 1)
     \<lparr>tr_state = IDLE, tr_notifier = \<lparr>n_fd = 3, n_counter = 0\<rparr>, tr_tasks = []\<rparr>) \<noteq> Some (Some None)"
proof -
  let ?r = "\<lparr>tr_state = IDLE, tr_notifier = \<lparr>n_fd = 3, n_counter = 0\<rparr>, tr_tasks = []\<rparr> :: nat TaskRunner"
  have "runner_reachable (?r, 0, [], [])" by (rule runner_init) simp_all
  then have "runner_reachable (TaskRunner_push (sample_task 1) ?r, Suc 0, [] @ [sample_task 1], [])"
    by (rule runner_next) (rule step_push, simp add: sample_task_def)
  then show ?thesis using taskrunner_exactly_once by blast
qed

text \<open>C15. When the timer runner wakes up it hands out exactly the queued tasks that are due and not
  cancelled, the earliest first, and leaves exactly the tasks that are not due.\<close>

theorem timer_collect_correct:
  assumes "tRunner_wake now r w = Some (Some (ts, r', w'))"
  shows "sorted (map runat ts) \<and>
    mset ts = filter_mset (\<lambda>t. is_due now t \<and> tk_id t \<in> tm_marks r) (mset (tm_tasks r)) \<and>
    mset (tm_tasks r') = filter_mset (\<lambda>t. \<not> is_due now t) (mset (tm_tasks r))"
proof -
  obtain heap where c: "collect now (tm_marks r) (tm_tasks r) [] w = (ts, heap, w')" and r': "tm_tasks r' = heap"
    using assms by (auto simp: tRunner_wake_def split: option.splits if_splits prod.splits)
  obtain ds where ds: "ts = filter (\<lambda>t. tk_id t \<in> tm_marks r) ds" "sorted (map runat ds)"
    "mset (tm_tasks r) = mset ds + mset heap" "\<forall>t\<in>set ds. is_due now t" "\<forall>t\<in>set heap. \<not> is_due now t"
    using collect_spec [OF c] by auto
  have "filter_mset (\<lambda>t. is_due now t \<and> P t) (mset ds + mset heap) = filter_mset P (mset ds)" for P
  proof -
    have "filter_mset (\<lambda>t. is_due now t \<and> P t) (mset heap) = {#}"
      using ds(5) by (simp flip: mset_filter add: filter_empty_conv)
    moreover have "filter_mset (\<lambda>t. is_due now t \<and> P t) (mset ds) = filter_mset P (mset ds)"
      using ds(4) by (simp flip: mset_filter cong: filter_cong)
    ultimately show ?thesis by simp
  qed
  moreover have "filter_mset (\<lambda>t. \<not> is_due now t) (mset ds + mset heap) = mset heap"
    using ds(4,5) by (simp flip: mset_filter add: filter_empty_conv filter_id_conv)
  ultimately show ?thesis
    using ds(1,3) r' sorted_filter [OF ds(2)] by simp
qed


definition sample_timer :: "nat tRunner" where
  "sample_timer = \<lparr>tm_state = WORK, tm_notifier = \<lparr>n_fd = 3, n_counter = 1\<rparr>, tm_timer = Timer_reset Config_null,
     tm_tasks = [(tTask_Nil 500)\<lparr>tk_id := 1\<rparr>, (tTask_Nil 100)\<lparr>tk_id := 2\<rparr>, (tTask_Nil 50)\<lparr>tk_id := 3\<rparr>],
     tm_id = 3, tm_marks = {1, 2}\<rparr>"

theorem timer_collect_correct_witness:
  "\<exists>ts r' w'. tRunner_wake 200 sample_timer (0 :: nat) = Some (Some (ts, r', w')) \<and>
     mset (tm_tasks r') = {#(tTask_Nil 500)\<lparr>tk_id := 1\<rparr>#}"
proof -
  have "\<exists>ts r' w'. tRunner_wake 200 sample_timer (0 :: nat) = Some (Some (ts, r', w'))"
    by (simp add: tRunner_wake_def sample_timer_def retrieve_def kNotifyQuit_def split: prod.splits)
  then obtain ts r' w' where *: "tRunner_wake 200 sample_timer (0 :: nat) = Some (Some (ts, r', w'))" by blast
  then show ?thesis
    using timer_collect_correct [OF *]
    by (auto simp: sample_timer_def is_due_def tTask_Nil_def kLeastDuration_def)
qed

text \<open>The timer specification computed from a configuration is always normalised (less than a second
  of nanoseconds), and it is the configured time whenever the seconds do not overflow 32 bits.\<close>

theorem itimerspec_normal:
  assumes "itimerspec cfg = (interval, val)"
  shows "tv_nsec interval < 1000000000 \<and> tv_nsec val < 1000000000 \<and>
    (unat (interval_second cfg) + unat (interval_millisecond cfg) div 1000 < 2 ^ 32 \<longrightarrow>
       tv_sec interval * 1000 + tv_nsec interval div 1000000 =
         unat (interval_second cfg) * 1000 + unat (interval_millisecond cfg)) \<and>
    (unat (value_second cfg) + unat (value_millisecond cfg) div 1000 < 2 ^ 32 \<longrightarrow>
       tv_sec val * 1000 + tv_nsec val div 1000000 =
         unat (value_second cfg) * 1000 + unat (value_millisecond cfg))"
  using assms timespec_normal [of "interval_second cfg" "interval_millisecond cfg"]
    timespec_normal [of "value_second cfg" "value_millisecond cfg"]
  by (auto simp: itimerspec_def)

theorem itimerspec_normal_witness:
  "\<exists>i v. itimerspec \<lparr>interval_second = 0, interval_millisecond = 0, value_second = 2, value_millisecond = 2500\<rparr> = (i, v) \<and>
     tv_sec v * 1000 + tv_nsec v div 1000000 = 4500"
  using itimerspec_normal [of "\<lparr>interval_second = 0, interval_millisecond = 0, value_second = 2, value_millisecond = 2500\<rparr>"]
  by (cases "itimerspec \<lparr>interval_second = 0, interval_millisecond = 0, value_second = 2, value_millisecond = 2500\<rparr>") simp

text \<open>The tasks posted between two wake-ups run in the reverse of the order in which they were posted.\<close>

lemma taskrunner_newest_first:
  "tr_tasks r = [] \<Longrightarrow> list_all (\<lambda>t. tk_fn t \<noteq> None) ts \<Longrightarrow>
   tr_tasks (fold TaskRunner_push ts r) = rev ts"
proof -
  have "tr_tasks (fold TaskRunner_push ts r) = rev ts @ tr_tasks r" for ts :: "'a Task list"
    by (induction ts arbitrary: r) (simp_all add: TaskRunner_push_def)
  then show "tr_tasks r = [] \<Longrightarrow> tr_tasks (fold TaskRunner_push ts r) = rev ts" by simp
qed

text \<open>The task posted last cannot be cancelled.\<close>

lemma cancel_latest_ignored: "tRunner_cancel (sint (tm_id r)) r = r"
  by (simp add: tRunner_cancel_def)

text \<open>C34. The id manager is well-formed under its operations: an allocation returns the smallest id that was
  not in use (or -1 when all are in use), changes the validity of that id only and keeps the number of
  bits; a deallocation ends the validity of its id only.\<close>

theorem id_manager_wf:
  assumes "alloc bits = (j, bits')"
  shows "length bits' = length bits \<and> length (dealloc k bits) = length bits \<and>
    (\<forall>i. valid i (dealloc k bits) \<longleftrightarrow> valid i bits \<and> i \<noteq> k) \<and>
    (if list_all id bits then j = -1 \<and> bits' = bits
     else \<not> valid j bits \<and> (\<forall>i. 0 \<le> i \<and> i < j \<longrightarrow> valid i bits) \<and>
       (\<forall>i. valid i bits' \<longleftrightarrow> valid i bits \<or> i = j))"
proof -
  have d: "length (dealloc k bits) = length bits" "valid i (dealloc k bits) \<longleftrightarrow> valid i bits \<and> i \<noteq> k" for i
    by (auto simp: dealloc_def valid_def nth_list_update split: if_splits)
  show ?thesis
  proof (cases "list_all id bits")
    case True
    then show ?thesis using alloc_correct [OF assms] d by simp
  next
    case False
    then have a: "0 \<le> j" "\<not> valid j bits" "bits' = bits[nat j := True]" "valid j bits'"
      "\<forall>m. int m < j \<longrightarrow> valid (int m) bits"
      using alloc_correct [OF assms] by auto
    then have "valid i bits' \<longleftrightarrow> valid i bits \<or> i = j" for i
      by (auto simp: valid_def nth_list_update split: if_splits)
    moreover have "valid i bits" if "0 \<le> i" "i < j" for i
      using a(5) that by (metis int_nat_eq)
    ultimately show ?thesis using False a d by simp
  qed
qed

theorem id_manager_wf_witness:
  "alloc [True, False, False] = (1, [True, True, False]) \<and> valid 1 [True, True, False]"
proof -
  have *: "alloc [True, False, False] = (1, [True, True, False])" by (simp add: alloc_def)
  then show ?thesis using id_manager_wf [OF *, of 0] by (auto split: if_splits)
qed

end
