(* ===== verification/Listener.thy ===== *)
theory Listener
  imports Message Runner
begin

text \<open>
  The server loop of the monitor, \<^verbatim>\<open>socket/monitor/listener.h\<close> and \<^verbatim>\<open>listener.cpp\<close>: one peer at a time,
  whose requests are handed to a task runner, a queue of outgoing messages, a heartbeat that drops a
  silent peer, and closures to be run on the loop.

  The loop is given by the function of one round over what \<^verbatim>\<open>poll\<close> and the sockets deliver in that
  round. The jobs of the two runners act on a world \<open>'w\<close>; a closure is a value of type \<open>'c\<close> whose effect
  on the listener is the parameter \<open>call\<close>. A \<^verbatim>\<open>double\<close> in a message is a 64-bit pattern; \<open>enc\<close> and
  \<open>dec\<close> convert it. Log lines are left out. A blocked write to the event counter is \<^term>\<open>None\<close>.
\<close>

unbundle bit_operations_syntax

section \<open>State\<close>

definition HEARTBEAT_MAXRETRY :: int where "HEARTBEAT_MAXRETRY = 5"
definition HEARTBEAT_DURATION :: real where "HEARTBEAT_DURATION = 5000"

record Heartbeat =
  lastest_pingts :: real
  lastest_pongts :: real
  rtt :: real
  minrtt :: real
  maxrtt :: real
  retry :: int

definition Heartbeat_new :: Heartbeat where
  "Heartbeat_new = \<lparr>lastest_pingts = -1, lastest_pongts = -1, rtt = -1, minrtt = HEARTBEAT_DURATION,
     maxrtt = - HEARTBEAT_DURATION, retry = HEARTBEAT_MAXRETRY\<rparr>"

record Reader =
  msgreq :: MsgRequest
  msght :: MsgHeartbeat
  lastest_readts :: real

record Metrics =
  m_work :: int
  m_idle :: int
  m_times :: int
  m_ops :: u64

definition OPMASK :: u64 where "OPMASK = push_bit 63 1"

record ('w, 'c) Listener =
  l_state :: State
  activefd :: int
  peerfd :: int
  msghub :: Notifier
  worker :: "'w TaskRunner"
  timer :: "'w tRunner"
  heartbeat :: Heartbeat
  reader :: Reader
  msgs :: "MsgRaw list"
  metrics :: Metrics
  closures :: "'c list"
  l_sent :: "u8 list"
  l_closed :: "int list"

definition kNotifySmall :: nat where "kNotifySmall = 1"
definition kNotifyMedium :: nat where "kNotifyMedium = 2 ^ 31"
definition kNotifyLarge :: nat where "kNotifyLarge = 2 ^ 63"

definition idle :: "('w, 'c) Listener \<Rightarrow> bool" where
  "idle l \<longleftrightarrow> l_state l = IDLE"

definition work :: "('w, 'c) Listener \<Rightarrow> bool" where
  "work l \<longleftrightarrow> l_state l = WORK"


definition onIdle :: "('w, 'c) Listener \<Rightarrow> ('w, 'c) Listener" where
  "onIdle l = l\<lparr>l_state := IDLE\<rparr>"

section \<open>Heartbeat and connection\<close>

definition Heartbeat_reset :: "Heartbeat \<Rightarrow> Heartbeat" where
  "Heartbeat_reset h = h\<lparr>lastest_pingts := -1, lastest_pongts := -1, rtt := -1, minrtt := HEARTBEAT_DURATION,
     maxrtt := - HEARTBEAT_DURATION, retry := HEARTBEAT_MAXRETRY\<rparr>"


definition Reader_reset :: "Reader \<Rightarrow> Reader" where
  "Reader_reset r = r\<lparr>lastest_readts := -1\<rparr>"

definition onDisconnect :: "('w, 'c) Listener \<Rightarrow> ('w, 'c) Listener" where
  "onDisconnect l =
     (let l = l\<lparr>l_closed := l_closed l @ [peerfd l], peerfd := -1\<rparr>;
          l = onIdle l in
      l\<lparr>reader := Reader_reset (reader l), heartbeat := Heartbeat_reset (heartbeat l),
        metrics := (metrics l)\<lparr>m_ops := 0\<rparr>\<rparr>)"


definition Writer_pub :: "MsgRaw \<Rightarrow> ('w, 'c) Listener \<Rightarrow> ('w, 'c) Listener option" where
  "Writer_pub msg l =
     map_option (\<lambda>n. l\<lparr>msgs := msgs l @ [msg], msghub := n\<rparr>) (notify kNotifySmall (msghub l))"



text \<open>The pong of the last ping is missing or late.\<close>

definition no_pong :: "real \<Rightarrow> Heartbeat \<Rightarrow> bool" where
  "no_pong now h \<longleftrightarrow> 0 < lastest_pingts h \<and>
     (rtt h < 0 \<or> HEARTBEAT_DURATION + 10 * maxrtt h < now - lastest_pongts h)"

definition ping :: "(real \<Rightarrow> u64) \<Rightarrow> real \<Rightarrow> ('w, 'c) Listener \<Rightarrow> (bool \<times> ('w, 'c) Listener) option" where
  "ping enc now l =
     (if now - lastest_readts (reader l) < HEARTBEAT_DURATION then Some (True, l)
      else if retry (heartbeat l) = 0 then Some (False, l)
      else
        (let h = heartbeat l;
             h = (if no_pong now h then h\<lparr>retry := retry h - 1\<rparr> else h);
             raw = \<lparr>raw_type = msg_code MSGPING, raw_payload = MsgHeartbeat_pack \<lparr>ht_timestamp = enc now\<rparr>\<rparr>;
             h = h\<lparr>lastest_pingts := now\<rparr> in
         map_option (Pair True) (Writer_pub raw (l\<lparr>heartbeat := h\<rparr>))))"

text \<open>The repeated timer task.\<close>

definition Ping :: "(real \<Rightarrow> u64) \<Rightarrow> real \<Rightarrow> ('w, 'c) Listener \<Rightarrow> ('w, 'c) Listener option" where
  "Ping enc now l =
     (if idle l then Some (l\<lparr>metrics := (metrics l)\<lparr>m_idle := m_idle (metrics l) + 5000\<rparr>\<rparr>)
      else
        (let l = l\<lparr>metrics := (metrics l)\<lparr>m_work := m_work (metrics l) + 5000\<rparr>\<rparr> in
         map_option (\<lambda>(ok, l). if ok then l else onDisconnect l) (ping enc now l)))"

section \<open>Reading and writing\<close>


text \<open>The operation counter after a response has gone out.\<close>

definition count_response :: "u64 \<Rightarrow> u64" where
  "count_response ops = (if ops AND OPMASK \<noteq> 0 then (ops AND NOT OPMASK) + 1 else ops)"

fun write_all :: "(u8 list \<Rightarrow> int) \<Rightarrow> MsgRaw list \<Rightarrow> ('w, 'c) Listener \<Rightarrow> ('w, 'c) Listener" where
  "write_all writev [] l = l"
| "write_all writev (msg # t) l =
     (if MsgRaw_write writev msg then
        (let l = l\<lparr>l_sent := l_sent l @ MsgRaw_bytes msg\<rparr>;
             l = (if raw_type msg = msg_code MSGRESPONSE
                  then l\<lparr>metrics := (metrics l)\<lparr>m_ops := count_response (m_ops (metrics l))\<rparr>\<rparr> else l) in
         write_all writev t l)
      else onDisconnect l)"

definition Writer_write :: "(u8 list \<Rightarrow> int) \<Rightarrow> ('w, 'c) Listener \<Rightarrow> ('w, 'c) Listener" where
  "Writer_write writev l = write_all writev (msgs l) (l\<lparr>msgs := []\<rparr>)"

section \<open>The worker's job\<close>




section \<open>The listener\<close>

text \<open>\<open>server\<close> is the descriptor of the listening socket, if it could be opened.\<close>

definition Listener_new :: "int option \<Rightarrow> Notifier \<Rightarrow> 'w TaskRunner \<Rightarrow> 'w tRunner \<Rightarrow> ('w, 'c) Listener" where
  "Listener_new server hub wk tm =
     \<lparr>l_state = (case server of None \<Rightarrow> NOTHINGNESS | Some _ \<Rightarrow> INITIALIZED),
      activefd = (case server of None \<Rightarrow> -1 | Some fd \<Rightarrow> fd), peerfd = -1, msghub = hub, worker = wk,
      timer = tm, heartbeat = Heartbeat_new,
      reader = \<lparr>msgreq = MsgRequest_default, msght = \<lparr>ht_timestamp = 0\<rparr>, lastest_readts = -1\<rparr>,
      msgs = [], metrics = \<lparr>m_work = 0, m_idle = 0, m_times = 0, m_ops = 0\<rparr>, closures = [],
      l_sent = [], l_closed = []\<rparr>"

definition Listener_destroy :: "('w, 'c) Listener \<Rightarrow> ('w, 'c) Listener option" where
  "Listener_destroy l =
     (if initialized (l_state l) then do {
        hub \<leftarrow> notify kNotifyLarge (msghub l);
        (ts, tn) \<leftarrow> stop (tm_notifier (timer l));
        (ws, wn) \<leftarrow> stop (tr_notifier (worker l));
        let l = l\<lparr>msghub := hub, timer := (timer l)\<lparr>tm_state := ts, tm_notifier := tn\<rparr>,
                  worker := (worker l)\<lparr>tr_state := ws, tr_notifier := wn\<rparr>\<rparr>;
        Some (if activefd l \<noteq> -1 then l\<lparr>l_closed := l_closed l @ [activefd l]\<rparr> else l)
      } else Some l)"

definition runOnLoop :: "'c option \<Rightarrow> ('w, 'c) Listener \<Rightarrow> ('w, 'c) Listener option" where
  "runOnLoop c l =
     (case c of
        None \<Rightarrow> Some l
      | Some f \<Rightarrow>
          map_option (\<lambda>n. l\<lparr>closures := closures l @ [f], msghub := n\<rparr>) (notify kNotifyMedium (msghub l)))"

text \<open>\<open>task\<close> is the timer task made of the job, its argument, the delay and the type.\<close>

definition runAfter :: "'w tTask \<Rightarrow> ('w, 'c) Listener \<Rightarrow> ('w, 'c) Listener option" where
  "runAfter task l =
     (if tk_fn task = None \<or> (ttype task \<noteq> TIMERTASK_ONCE \<and> ttype task \<noteq> TIMERTASK_REPEATED) then Some l
      else map_option (\<lambda>(_, tm). l\<lparr>timer := tm\<rparr>) (tRunner_post task (timer l)))"


text \<open>The first part of a round; \<^term>\<open>None\<close> inside is the end of the loop.\<close>

definition handle_hub ::
  "('c \<Rightarrow> ('w, 'c) Listener \<Rightarrow> ('w, 'c) Listener) \<Rightarrow> (u8 list \<Rightarrow> int) \<Rightarrow> ('w, 'c) Listener \<Rightarrow>
   ('w, 'c) Listener option option" where
  "handle_hub call writev l =
     (case retrieve (msghub l) of
        None \<Rightarrow> None
      | Some (ev, hub) \<Rightarrow>
          (let l = l\<lparr>msghub := hub\<rparr> in
           Some (if kNotifyLarge \<le> ev then None
                 else if kNotifyMedium \<le> ev then Some (fold call (closures l) (l\<lparr>closures := []\<rparr>))
                 else if kNotifySmall \<le> ev then Some (Writer_write writev l)
                 else Some l)))"


text \<open>The tasks with which \<^verbatim>\<open>run\<close> starts, given by their jobs.\<close>

definition run_start :: "'w tTask list \<Rightarrow> ('w, 'c) Listener \<Rightarrow> ('w, 'c) Listener option" where
  "run_start tasks l =
     (let l = onIdle l;
          l = l\<lparr>worker := (worker l)\<lparr>tr_state := start (tr_state (worker l))\<rparr>,
                timer := (timer l)\<lparr>tm_state := start (tm_state (timer l))\<rparr>\<rparr> in
      foldl (\<lambda>r t. do { l \<leftarrow> r; (_, tm) \<leftarrow> tRunner_post t (timer l); Some (l\<lparr>timer := tm\<rparr>) }) (Some l) tasks)"

section \<open>Connection invariant\<close>

definition listener_inv :: "('w, 'c) Listener \<Rightarrow> bool" where
  "listener_inv l \<longleftrightarrow> (idle l \<and> peerfd l = -1 \<or> work l \<and> peerfd l \<noteq> -1) \<and>
     0 \<le> retry (heartbeat l) \<and> retry (heartbeat l) \<le> HEARTBEAT_MAXRETRY"

lemmas listener_simps = listener_inv_def idle_def work_def


lemma Writer_pub_fields:
  assumes "Writer_pub m l = Some l'"
  shows "l_state l' = l_state l" "peerfd l' = peerfd l" "heartbeat l' = heartbeat l" "reader l' = reader l"
    "l_closed l' = l_closed l" "n_counter (msghub l') \<le> n_counter (msghub l) + 1"
  using assms by (auto simp: Writer_pub_def notify_def kNotifySmall_def split: if_splits)

lemma listener_inv_cong:
  "l_state l' = l_state l \<Longrightarrow> peerfd l' = peerfd l \<Longrightarrow> heartbeat l' = heartbeat l \<Longrightarrow> listener_inv l' = listener_inv l"
  by (simp add: listener_simps)

lemma listener_inv_updates [simp]:
  "listener_inv (l\<lparr>reader := r\<rparr>) = listener_inv l" "listener_inv (l\<lparr>metrics := m\<rparr>) = listener_inv l"
  "listener_inv (l\<lparr>worker := wk\<rparr>) = listener_inv l" "listener_inv (l\<lparr>timer := tm\<rparr>) = listener_inv l"
  "listener_inv (l\<lparr>msgs := ms\<rparr>) = listener_inv l" "listener_inv (l\<lparr>msghub := hub\<rparr>) = listener_inv l"
  "listener_inv (l\<lparr>closures := cs\<rparr>) = listener_inv l" "listener_inv (l\<lparr>l_sent := bs\<rparr>) = listener_inv l"
  by (simp_all add: listener_simps)














section \<open>Heartbeat of a silent peer\<close>

fun ping_all :: "(real \<Rightarrow> u64) \<Rightarrow> real list \<Rightarrow> ('w, 'c) Listener \<Rightarrow> ('w, 'c) Listener option" where
  "ping_all enc [] l = Some l"
| "ping_all enc (t # ts) l = do { l \<leftarrow> Ping enc t l; ping_all enc ts l }"

definition silent :: "int \<Rightarrow> nat \<Rightarrow> ('w, 'c) Listener \<Rightarrow> bool" where
  "silent k room l \<longleftrightarrow> work l \<and> lastest_readts (reader l) = -1 \<and> rtt (heartbeat l) < 0 \<and>
     0 < lastest_pingts (heartbeat l) \<and> retry (heartbeat l) = k \<and> n_counter (msghub l) + room \<le> 2 ^ 64 - 2"

lemma Ping_first:
  assumes "work l" "lastest_readts (reader l) = -1" "heartbeat l = Heartbeat_new"
    "n_counter (msghub l) + Suc room \<le> 2 ^ 64 - 2" "5000 \<le> t"
  shows "\<exists>l'. Ping enc t l = Some l' \<and> silent 5 room l' \<and> peerfd l' = peerfd l \<and> l_closed l' = l_closed l"
  using assms
  by (auto simp: Ping_def idle_def work_def ping_def HEARTBEAT_DURATION_def Heartbeat_new_def HEARTBEAT_MAXRETRY_def
        Let_def no_pong_def Writer_pub_def notify_def kNotifySmall_def silent_def)

lemma Ping_again:
  assumes "silent k (Suc room) l" "k \<noteq> 0" "5000 \<le> t"
  shows "\<exists>l'. Ping enc t l = Some l' \<and> silent (k - 1) room l' \<and> peerfd l' = peerfd l \<and> l_closed l' = l_closed l"
  using assms
  by (auto simp: Ping_def idle_def work_def ping_def HEARTBEAT_DURATION_def
        Let_def no_pong_def Writer_pub_def notify_def kNotifySmall_def silent_def)

lemma Ping_last:
  assumes "silent 0 room l" "5000 \<le> t"
  shows "\<exists>l'. Ping enc t l = Some l' \<and> idle l' \<and> peerfd l' = -1 \<and> l_closed l' = l_closed l @ [peerfd l]"
  using assms
  by (auto simp: Ping_def idle_def work_def ping_def HEARTBEAT_DURATION_def Let_def silent_def onDisconnect_def onIdle_def)

lemma ping_all_silent:
  "silent (int (length ts)) (length ts + room) l \<Longrightarrow> list_all ((\<le>) 5000) ts \<Longrightarrow>
   \<exists>l'. ping_all enc ts l = Some l' \<and> silent 0 room l' \<and> peerfd l' = peerfd l \<and> l_closed l' = l_closed l"
proof (induction ts arbitrary: l)
  case (Cons t ts)
  obtain l1 where l1: "Ping enc t l = Some l1" "silent (int (length (t # ts)) - 1) (length ts + room) l1"
    "peerfd l1 = peerfd l" "l_closed l1 = l_closed l"
    using Ping_again [of "int (length (t # ts))" "length ts + room" l t enc] Cons.prems by auto
  then obtain l' where "ping_all enc ts l1 = Some l'" "silent 0 room l'" "peerfd l' = peerfd l1" "l_closed l' = l_closed l1"
    using Cons.IH [of l1] Cons.prems by auto
  then show ?case using l1 by simp
qed simp

section \<open>Properties\<close>


text \<open>C23. A peer that connects and never sends anything is dropped: the first six heartbeat ticks leave it
  connected, the seventh closes its descriptor and makes the listener idle.\<close>

theorem silent_peer_dropped:
  assumes "work l" "lastest_readts (reader l) = -1" "heartbeat l = Heartbeat_new"
    and "n_counter (msghub l) + 6 \<le> 2 ^ 64 - 2" "length ts = 6" "list_all ((\<le>) 5000) (ts @ [t])"
  shows "\<exists>l6 l7. ping_all enc ts l = Some l6 \<and> work l6 \<and> peerfd l6 = peerfd l \<and>
    Ping enc t l6 = Some l7 \<and> idle l7 \<and> peerfd l7 = -1 \<and> l_closed l7 = l_closed l @ [peerfd l]"
proof -
  obtain t1 ts' where ts: "ts = t1 # ts'" "length ts' = 5" using assms(5) by (cases ts) auto
  obtain l1 where l1: "Ping enc t1 l = Some l1" "silent 5 (5 + 0) l1" "peerfd l1 = peerfd l" "l_closed l1 = l_closed l"
    using Ping_first [OF assms(1-3), of 5 t1 enc] assms(4,6) ts by auto
  obtain l6 where l6: "ping_all enc ts' l1 = Some l6" "silent 0 0 l6" "peerfd l6 = peerfd l1" "l_closed l6 = l_closed l1"
    using ping_all_silent [of ts' 0 l1 enc] l1 ts assms(6) by auto
  obtain l7 where "Ping enc t l6 = Some l7" "idle l7" "peerfd l7 = -1" "l_closed l7 = l_closed l6 @ [peerfd l6]"
    using Ping_last [OF l6(2), of t enc] assms(6) by auto
  then show ?thesis using l1 l6 ts by (auto simp: silent_def)
qed

text \<open>C39. A message published before a closure is posted, both before the loop looks at its event counter,
  is left unsent: the round runs the closure only, the counter is cleared, and nothing is left that would
  wake the loop for the message.\<close>

theorem message_wakeup_lost:
  assumes "n_fd (msghub l) \<noteq> -1" "n_counter (msghub l) = 0" "closures l = []"
    and "Writer_pub m l = Some l1" "runOnLoop (Some c) l1 = Some l2"
    and "\<And>x. msgs (call c x) = msgs x \<and> msghub (call c x) = msghub x"
  shows "\<exists>l3. handle_hub call writev l2 = Some (Some l3) \<and> m \<in> set (msgs l3) \<and> retrieve (msghub l3) = None"
proof -
  have "msgs l2 = msgs l @ [m]" "closures l2 = [c]" "n_fd (msghub l2) \<noteq> -1" "n_counter (msghub l2) = 1 + 2 ^ 31"
    using assms(1-5)
    by (auto simp: Writer_pub_def runOnLoop_def notify_def kNotifySmall_def kNotifyMedium_def split: if_splits)
  then show ?thesis using assms(6)
    by (simp add: handle_hub_def retrieve_def kNotifyLarge_def kNotifyMedium_def)
qed

definition sample_listener :: "State \<Rightarrow> int \<Rightarrow> (nat, unit) Listener" where
  "sample_listener s fd = (Listener_new (Some 3) \<lparr>n_fd = 5, n_counter = 0\<rparr>
     \<lparr>tr_state = IDLE, tr_notifier = \<lparr>n_fd = 6, n_counter = 0\<rparr>, tr_tasks = []\<rparr> sample_timer)
     \<lparr>l_state := s, peerfd := fd\<rparr>"

lemmas sample_listener_simps = sample_listener_def Listener_new_def


theorem silent_peer_dropped_witness:
  "\<exists>l6 l7. ping_all (\<lambda>_. 0) [5000, 10000, 15000, 20000, 25000, 30000] (sample_listener WORK 9) = Some l6 \<and>
     work l6 \<and> Ping (\<lambda>_. 0) 35000 l6 = Some l7 \<and> l_closed l7 = [9]"
proof -
  have "work (sample_listener WORK 9)" "lastest_readts (reader (sample_listener WORK 9)) = -1"
    "heartbeat (sample_listener WORK 9) = Heartbeat_new" "n_counter (msghub (sample_listener WORK 9)) + 6 \<le> 2 ^ 64 - 2"
    "l_closed (sample_listener WORK 9) = []" "peerfd (sample_listener WORK 9) = 9"
    by (simp_all add: work_def sample_listener_simps)
  then show ?thesis
    using silent_peer_dropped [of "sample_listener WORK 9" "[5000, 10000, 15000, 20000, 25000, 30000]" 35000 "\<lambda>_. 0"]
    by auto
qed

theorem message_wakeup_lost_witness:
  "\<exists>l1 l2 l3. Writer_pub (MsgRaw_new 3) (sample_listener WORK 9) = Some l1 \<and> runOnLoop (Some ()) l1 = Some l2 \<and>
     handle_hub (\<lambda>_ l. l) (\<lambda>_. 0) l2 = Some (Some l3) \<and> MsgRaw_new 3 \<in> set (msgs l3)"
proof -
  let ?l = "sample_listener WORK 9"
  have h: "n_fd (msghub ?l) \<noteq> -1" "n_counter (msghub ?l) = 0" "closures ?l = []"
    by (simp_all add: sample_listener_simps)
  obtain l1 where l1: "Writer_pub (MsgRaw_new 3) ?l = Some l1" "n_fd (msghub l1) \<noteq> -1" "n_counter (msghub l1) = 1"
    using h by (auto simp: Writer_pub_def notify_def kNotifySmall_def)
  obtain l2 where "runOnLoop (Some ()) l1 = Some l2"
    using l1 by (auto simp: runOnLoop_def notify_def kNotifyMedium_def)
  then show ?thesis
    using message_wakeup_lost [OF h l1(1), of "()" l2 "\<lambda>_ l. l" "\<lambda>_. 0"] l1(1) by auto
qed

end
