(* ===== verification/Telemetry.thy ===== *)
theory Telemetry
  imports Libc
begin

text \<open>
  The telemetry records of \<^verbatim>\<open>socket/codec.h\<close>, \<^verbatim>\<open>socket/codec.cpp\<close> and their masking in
  \<^verbatim>\<open>socket/secure.h\<close>, \<^verbatim>\<open>socket/secure.cpp\<close>: the fields of a record are parsed from texts, packed into a
  32-bit and a 64-bit word, masked with a random byte for the wire, and formatted as a line of JSON on the
  other side. Texts are given without their terminating NUL; the random byte is a parameter.
\<close>

unbundle bit_operations_syntax

section \<open>Records\<close>

definition ERROR_OFFSET :: nat where "ERROR_OFFSET = 56"
definition IP_OFFSET :: nat where "IP_OFFSET = 48"
definition WEIGHT_OFFSET :: nat where "WEIGHT_OFFSET = 32"
definition WEIGHT_MASK :: u64 where "WEIGHT_MASK = 0xffff"
definition BLOCK_MASK :: u64 where "BLOCK_MASK = 0xffffffff"

record Data =
  d_a :: u32
  d_b :: u64

definition kDataSize :: nat where "kDataSize = 12"

text \<open>The memory of the packed structure.\<close>

definition Data_bytes :: "Data \<Rightarrow> u8 list" where
  "Data_bytes d = le_bytes 4 (d_a d) @ le_bytes 8 (d_b d)"

definition Data_of_bytes :: "u8 list \<Rightarrow> Data" where
  "Data_of_bytes bs = \<lparr>d_a = of_le_bytes (take 4 bs), d_b = of_le_bytes (take 8 (drop 4 bs))\<rparr>"

record Input =
  in_error :: u8
  in_ip :: u8
  in_weight :: u16
  in_block :: u32
  in_serial :: u32

definition Input_new :: Input where
  "Input_new = \<lparr>in_error = 0, in_ip = 0, in_weight = 0, in_block = 0, in_serial = 0\<rparr>"

section \<open>Parsing\<close>

text \<open>The text behind the last, and behind the first, occurrence of a character.\<close>

definition after_last :: "u8 \<Rightarrow> u8 list \<Rightarrow> u8 list option" where
  "after_last c s = (if c \<in> set s then Some (rev (takeWhile (\<lambda>b. b \<noteq> c) (rev s))) else None)"

definition after_first :: "u8 \<Rightarrow> u8 list \<Rightarrow> u8 list option" where
  "after_first c s = (if c \<in> set s then Some (tl (dropWhile (\<lambda>b. b \<noteq> c) s)) else None)"

definition BAD :: "u8 list" where "BAD = str ''-65535''"
definition BAD_LEN :: nat where "BAD_LEN = 6"

definition parseIp :: "u8 list \<Rightarrow> Input \<Rightarrow> Input option" where
  "parseIp data i =
     (case after_last 46 data of
        None \<Rightarrow> Some i
      | Some s \<Rightarrow> map_option (\<lambda>n. i\<lparr>in_ip := of_int n\<rparr>) (atoi s))"

definition parseWeight :: "u8 list \<Rightarrow> Input \<Rightarrow> Input option" where
  "parseWeight data i =
     (case after_last 64 data of
        None \<Rightarrow> Some i
      | Some s \<Rightarrow>
          if take BAD_LEN s = BAD then Some (i\<lparr>in_error := 1, in_weight := ucast WEIGHT_MASK\<rparr>)
          else map_option (\<lambda>n. i\<lparr>in_weight := of_int n\<rparr>) (atoi s))"

definition parseBlock :: "u8 list \<Rightarrow> Input \<Rightarrow> Input option" where
  "parseBlock data i =
     (case after_first 64 data of
        None \<Rightarrow> Some i
      | Some s \<Rightarrow> map_option (\<lambda>n. i\<lparr>in_block := of_int n\<rparr>) (atoi s))"

definition parseSerial :: "u8 list \<Rightarrow> Input \<Rightarrow> Input" where
  "parseSerial data i = i\<lparr>in_serial := ucast (strtoull data)\<rparr>"

section \<open>Packing and formatting\<close>

definition Encode :: "Input \<Rightarrow> Data" where
  "Encode i =
     (let x = 0;
          x = x OR push_bit ERROR_OFFSET (ucast (in_error i));
          x = x OR push_bit IP_OFFSET (ucast (in_ip i));
          x = x OR push_bit WEIGHT_OFFSET (ucast (in_weight i));
          x = x OR ucast (in_block i) in
      \<lparr>d_a = in_serial i, d_b = x\<rparr>)"

definition RetrieveTopic :: "u64 \<Rightarrow> u8 list" where
  "RetrieveTopic x = fmt_d (unat (ucast (drop_bit IP_OFFSET x) :: u8))"

text \<open>\<^verbatim>\<open>i2s\<close> fills its buffer backwards from index 8, two digits per byte, the lowest byte first.\<close>

definition i2s_cs :: "u8 list" where "i2s_cs = str ''0123456789ABCDEF''"

fun i2s_loop :: "u8 list \<Rightarrow> nat \<Rightarrow> u8 list \<Rightarrow> u8 list option" where
  "i2s_loop buf p [] = Some buf"
| "i2s_loop buf p (i # is) = do {
     lo \<leftarrow> rd i2s_cs (unat (i AND 0xf));
     buf \<leftarrow> wr buf (p + 1) lo;
     hi \<leftarrow> rd i2s_cs (unat (drop_bit 4 i AND 0xf));
     buf \<leftarrow> wr buf p hi;
     i2s_loop buf (p - 2) is
   }"

definition i2s :: "u8 list \<Rightarrow> u32 \<Rightarrow> u8 list option" where
  "i2s buf x = do {
     buf \<leftarrow> wr buf 8 0;
     i2s_loop buf 6 (le_bytes 4 x)
   }"

record Output =
  out_payload :: "u8 list"
  out_topic :: "u8 list"

text \<open>The text that is formatted into the 64-byte array.\<close>

definition json_line :: "u32 \<Rightarrow> u8 list \<Rightarrow> int \<Rightarrow> u8 list \<Rightarrow> u8 list" where
  "json_line serial topic weight block =
     str ''{\"serial\":'' @ fmt_d (unat serial) @ str '',\"topic\":\"'' @ topic @ str ''\",\"weight\":'' @
     fmt_int weight @ str '',\"id\":\"'' @ block @ str ''\"}''"

definition load :: "u8 list \<Rightarrow> u8 list \<Rightarrow> Data \<Rightarrow> Output option" where
  "load buf i2s_buf data = do {
     let x = d_b data;
     let error = (ucast (drop_bit ERROR_OFFSET x) :: u8);
     let block = x AND BLOCK_MASK;
     let topic = RetrieveTopic x;
     let weight = (if error \<noteq> 0 then - 65535 else sint (ucast (drop_bit WEIGHT_OFFSET x AND WEIGHT_MASK) :: u16));
     ident \<leftarrow> (if block \<noteq> 0 then do {
         b \<leftarrow> i2s i2s_buf (ucast (x AND BLOCK_MASK));
         cstring b
       } else Some (str ''NONE''));
     (_, buf) \<leftarrow> sprintf buf 0 (json_line (d_a data) topic weight ident);
     payload \<leftarrow> cstring buf;
     Some \<lparr>out_payload = payload, out_topic = topic\<rparr>
   }"

section \<open>Masking\<close>

definition SECRET :: "u8 list" where "SECRET = str ''SUN''"
definition SECRET_LEN :: nat where "SECRET_LEN = 3"
definition kDataLen :: nat where "kDataLen = 16"

function xor_loop :: "u8 list \<Rightarrow> nat \<Rightarrow> u8 \<Rightarrow> u8 list option" where
  "xor_loop p i msk =
     (if i = SECRET_LEN then Some p
      else
        (let i = (if i = kDataLen then 0 else i) in
         case rd p i of
           None \<Rightarrow> None
         | Some x \<Rightarrow> xor_loop (p[i := x XOR msk]) (i + 1) msk))"
  by pat_completeness auto
termination
  by (relation "measure (\<lambda>(p, i, msk). if i \<le> 3 then 3 - i else if i \<le> 16 then 20 - i else 20 + (length p - i))")
     (auto simp: SECRET_LEN_def kDataLen_def rd_eq_Some_iff)

declare xor_loop.simps [simp del]

definition Encrypt :: "u8 \<Rightarrow> u8 list \<Rightarrow> nat \<Rightarrow> u8 list option" where
  "Encrypt msk data len = do {
     let res = SECRET @ replicate (kDataLen - SECRET_LEN) 0;
     d \<leftarrow> rd_range data 0 len;
     res \<leftarrow> wr_range res (SECRET_LEN + 1) d;
     res \<leftarrow> wr res SECRET_LEN msk;
     xor_loop res (SECRET_LEN + 1) msk
   }"

text \<open>The results: success, the buffer after the call, and the copied data.\<close>

definition Decrypt :: "u8 list \<Rightarrow> nat \<Rightarrow> (bool \<times> u8 list \<times> u8 list) option" where
  "Decrypt s len =
     (if length s = kDataLen then do {
        msk \<leftarrow> rd s SECRET_LEN;
        s \<leftarrow> xor_loop s (SECRET_LEN + 1) msk;
        if take SECRET_LEN s = SECRET then do {
          d \<leftarrow> rd_range s (SECRET_LEN + 1) len;
          Some (True, s, d)
        } else Some (False, s, [])
      } else Some (False, s, []))"

text \<open>The cyclic table of pointers.\<close>

record 'a Ring =
  ring_i :: nat
  ring_data :: "'a list"

definition Ring_next :: "'a Ring \<Rightarrow> ('a \<times> 'a Ring) option" where
  "Ring_next r = do {
     p \<leftarrow> rd (ring_data r) (ring_i r);
     Some (p, r\<lparr>ring_i := (if ring_i r + 1 = length (ring_data r) then 0 else ring_i r + 1)\<rparr>)
   }"

interpretation ring_next: ring_index "\<lambda>i. if i + 1 = N then 0 else i + 1" N for N
  by unfold_locales auto

text \<open>The ring hands out its pointers in turn and comes back to the first after all of them.\<close>

lemma Ring_next_index:
  assumes "ring_i r < length (ring_data r)"
  shows "\<exists>r'. Ring_next r = Some (ring_data r ! ring_i r, r') \<and> ring_data r' = ring_data r \<and>
    ring_i r' = Suc (ring_i r) mod length (ring_data r)"
  using assms ring_next.adv_mod [OF assms] by (simp add: Ring_next_def rd_Some)

section \<open>Fields of a packed record\<close>

lemma Encode_fields:
  "ucast (drop_bit 56 (d_b (Encode i))) = in_error i" "ucast (drop_bit 48 (d_b (Encode i))) = in_ip i"
  "(ucast (drop_bit 32 (d_b (Encode i)) AND WEIGHT_MASK) :: u16) = in_weight i"
  "(ucast (d_b (Encode i) AND BLOCK_MASK) :: u32) = in_block i" "d_a (Encode i) = in_serial i"
proof -
  have m: "WEIGHT_MASK = Bit_Operations.mask 16" "BLOCK_MASK = Bit_Operations.mask 32"
    by (simp_all add: WEIGHT_MASK_def BLOCK_MASK_def mask_eq_exp_minus_1)
  note d = Encode_def Let_def ERROR_OFFSET_def IP_OFFSET_def WEIGHT_OFFSET_def
  have hi: "\<not> bit (x :: u8) n" if "8 \<le> n" for x n using that by (rule u8_bit_high)
  have hi16: "\<not> bit (x :: u16) n" if "16 \<le> n" for x n using that by (simp add: bit_word.rep_eq)
  have hi32: "\<not> bit (x :: u32) n" if "32 \<le> n" for x n using that by (simp add: bit_word.rep_eq)
  show "ucast (drop_bit 56 (d_b (Encode i))) = in_error i"
    by (rule bit_word_eqI) (auto simp: d bit_simps hi hi16 hi32)
  show "ucast (drop_bit 48 (d_b (Encode i))) = in_ip i"
    by (rule bit_word_eqI) (auto simp: d bit_simps hi hi16 hi32)
  show "(ucast (drop_bit 32 (d_b (Encode i)) AND WEIGHT_MASK) :: u16) = in_weight i"
    unfolding m by (rule bit_word_eqI) (auto simp: d bit_simps hi hi16 hi32)
  show "(ucast (d_b (Encode i) AND BLOCK_MASK) :: u32) = in_block i"
    unfolding m by (rule bit_word_eqI) (auto simp: d bit_simps hi hi16 hi32)
  show "d_a (Encode i) = in_serial i" by (simp add: d)
qed

lemma block_mask_ucast: "(ucast (x AND BLOCK_MASK) :: u32) = 0 \<longleftrightarrow> x AND BLOCK_MASK = 0"
proof -
  have m: "BLOCK_MASK = Bit_Operations.mask 32" by (simp add: BLOCK_MASK_def mask_eq_exp_minus_1)
  have "x AND BLOCK_MASK = ucast (ucast (x AND BLOCK_MASK) :: u32)"
    unfolding m by (rule bit_word_eqI) (auto simp: bit_simps)
  then show ?thesis by (metis unsigned_0)
qed

lemma Data_of_bytes_Data_bytes: "Data_of_bytes (Data_bytes d) = d"
  by (simp add: Data_of_bytes_def Data_bytes_def)

section \<open>Masking\<close>

definition masked :: "u8 \<Rightarrow> u8 list \<Rightarrow> u8 list" where
  "masked m s = map (\<lambda>b. b XOR m) (take 3 s) @ take 1 (drop 3 s) @ map (\<lambda>b. b XOR m) (drop 4 s)"

lemma xor_loop_masked:
  assumes "length s = 16"
  shows "xor_loop s 4 m = Some (masked m s)"
proof -
  obtain a0 a1 a2 a3 a4 a5 a6 a7 a8 a9 a10 a11 a12 a13 a14 a15 where
    s: "s = [a0, a1, a2, a3, a4, a5, a6, a7, a8, a9, a10, a11, a12, a13, a14, a15]"
    using length_16 [OF assms] by blast
  show ?thesis
    unfolding s by (simp add: xor_loop.simps SECRET_LEN_def kDataLen_def rd_def masked_def)
qed

lemma masked_twice:
  assumes "length s = 16"
  shows "masked m (masked m s) = s"
proof -
  obtain a0 a1 a2 a3 a4 a5 a6 a7 a8 a9 a10 a11 a12 a13 a14 a15 where
    s: "s = [a0, a1, a2, a3, a4, a5, a6, a7, a8, a9, a10, a11, a12, a13, a14, a15]"
    using length_16 [OF assms] by blast
  show ?thesis unfolding s masked_def by (simp add: xor.assoc)
qed

lemma length_masked [simp]: "length s = 16 \<Longrightarrow> length (masked m s) = 16"
  by (simp add: masked_def)

lemma masked_key: "length s = 16 \<Longrightarrow> masked m s ! 3 = s ! 3"
proof -
  assume "length s = 16"
  then have "masked m s = map (\<lambda>b. b XOR m) (take 3 s) @ [s ! 3] @ map (\<lambda>b. b XOR m) (drop 4 s)"
    by (simp add: masked_def take_Suc_conv_app_nth [of 0 "drop 3 s", simplified])
  then show ?thesis using \<open>length s = 16\<close> by (simp add: nth_append)
qed

lemma SECRET_bytes: "SECRET = [83, 85, 78]"
  by (simp add: SECRET_def)

lemma Encrypt_masked:
  assumes "length data = 12"
  shows "Encrypt m data 12 = Some (masked m (SECRET @ m # data))"
proof -
  have r: "replicate 13 0 = [0 :: u8, 0, 0, 0, 0, 0, 0, 0, 0, 0, 0, 0, 0]" by (simp add: numeral_eq_Suc)
  have "xor_loop (SECRET @ m # data) 4 m = Some (masked m (SECRET @ m # data))"
    using assms by (intro xor_loop_masked) (simp add: SECRET_bytes)
  then show ?thesis using assms
    by (simp add: Encrypt_def SECRET_LEN_def kDataLen_def rd_range_def wr_range_def wr_def r SECRET_bytes)
qed

lemma Decrypt_masked:
  assumes "length data = 12"
  shows "Decrypt (masked m (SECRET @ m # data)) 12 = Some (True, SECRET @ m # data, data)"
proof -
  let ?s = "SECRET @ m # data"
  have len: "length ?s = 16" using assms by (simp add: SECRET_bytes)
  have "rd (masked m ?s) 3 = Some m"
    using masked_key [OF len, of m] len by (simp add: rd_def SECRET_bytes)
  moreover have "xor_loop (masked m ?s) 4 m = Some ?s"
    using xor_loop_masked [of "masked m ?s" m] len masked_twice [OF len, of m] by simp
  ultimately show ?thesis using assms len
    by (simp add: Decrypt_def SECRET_LEN_def kDataLen_def rd_range_def SECRET_bytes)
qed

section \<open>Formatting\<close>

lemma nibble_less: "unat (b AND 0xf) < 16" for b :: u8
proof -
  have "b AND 0xf = take_bit 4 b" by (simp add: take_bit_eq_mask mask_eq_exp_minus_1)
  then have "unat (b AND 0xf) = take_bit 4 (unat b)" by (simp only: unsigned_take_bit_eq)
  then show ?thesis using take_bit_nat_less_exp [of 4 "unat b"] by simp
qed

lemma i2s_cs_ok: "k < 16 \<Longrightarrow> rd i2s_cs k = Some (i2s_cs ! k) \<and> i2s_cs ! k \<noteq> 0"
proof -
  assume "k < 16"
  moreover have "length i2s_cs = 16" "list_all (\<lambda>c. c \<noteq> 0) i2s_cs" by (simp_all add: i2s_cs_def)
  ultimately show ?thesis by (simp add: rd_def list_all_length)
qed

lemma i2s_digits:
  assumes "length buf = 16"
  shows "\<exists>t u. i2s buf x = Some t \<and> cstring t = Some u \<and> length u = 8"
proof -
  obtain b0 b1 b2 b3 where b: "le_bytes 4 x = [b0, b1, b2, b3]"
    using length_4 [of "le_bytes 4 x"] by auto
  obtain a0 a1 a2 a3 a4 a5 a6 a7 a8 a9 a10 a11 a12 a13 a14 a15 where
    buf: "buf = [a0, a1, a2, a3, a4, a5, a6, a7, a8, a9, a10, a11, a12, a13, a14, a15]"
    using length_16 [OF assms] by blast
  define lo where "lo = (\<lambda>i :: u8. i2s_cs ! unat (i AND 0xf))"
  let ?d = "[lo (drop_bit 4 b3), lo b3, lo (drop_bit 4 b2), lo b2, lo (drop_bit 4 b1), lo b1, lo (drop_bit 4 b0), lo b0]"
  have c: "rd i2s_cs (unat (i AND 0xf)) = Some (lo i)" "lo i \<noteq> 0" "0 \<noteq> lo i" for i
    using i2s_cs_ok [OF nibble_less, of i] by (auto simp: lo_def)
  have "i2s buf x = Some (?d @ 0 # [a9, a10, a11, a12, a13, a14, a15])"
    by (simp add: i2s_def b buf c(1) wr_def)
  moreover have "cstring (?d @ 0 # [a9, a10, a11, a12, a13, a14, a15]) = Some ?d"
    using c(2,3) by (intro cstring_append_NUL) simp
  moreover have "length ?d = 8" by simp
  ultimately show ?thesis by blast
qed

lemma length_json_line:
  "length (json_line serial topic weight block) =
     40 + length (fmt_d (unat serial)) + length topic + length (fmt_int weight) + length block"
  by (simp add: json_line_def)

section \<open>Properties\<close>

text \<open>C20. A record survives the whole path: for every input and every random mask, encrypting the packed
  record and decrypting the result succeeds and gives back a record with the same serial number, error
  flag, address, weight and block.\<close>

theorem telemetry_roundtrip:
  "\<exists>s s' d. Encrypt m (Data_bytes (Encode i)) kDataSize = Some s \<and> length s = kDataLen \<and>
     Decrypt s kDataSize = Some (True, s', d) \<and> d_a (Data_of_bytes d) = in_serial i \<and>
     ucast (drop_bit ERROR_OFFSET (d_b (Data_of_bytes d))) = in_error i \<and>
     ucast (drop_bit IP_OFFSET (d_b (Data_of_bytes d))) = in_ip i \<and>
     ucast (drop_bit WEIGHT_OFFSET (d_b (Data_of_bytes d)) AND WEIGHT_MASK) = in_weight i \<and>
     ucast (d_b (Data_of_bytes d) AND BLOCK_MASK) = in_block i"
proof -
  have len: "length (Data_bytes (Encode i)) = 12" by (simp add: Data_bytes_def)
  have "length (masked m (SECRET @ m # Data_bytes (Encode i))) = 16"
    using len by (simp add: SECRET_bytes)
  then show ?thesis
    using Encrypt_masked [OF len, of m] Decrypt_masked [OF len, of m] Encode_fields [of i]
    by (simp add: kDataSize_def kDataLen_def Data_of_bytes_Data_bytes ERROR_OFFSET_def IP_OFFSET_def WEIGHT_OFFSET_def)
qed

text \<open>The text of a record, and what formatting it does.\<close>

definition record_line :: "Input \<Rightarrow> u8 list \<Rightarrow> u8 list" where
  "record_line i ident =
     json_line (in_serial i) (fmt_d (unat (in_ip i))) (if in_error i \<noteq> 0 then - 65535 else sint (in_weight i)) ident"

lemma load_line:
  assumes "length i2s_buf = 16"
  shows "\<exists>ident. length ident = (if in_block i = 0 then 4 else 8) \<and> (in_block i = 0 \<longrightarrow> ident = str ''NONE'') \<and>
    (in_block i \<noteq> 0 \<longrightarrow> (\<exists>t. i2s i2s_buf (in_block i) = Some t \<and> cstring t = Some ident)) \<and>
    load buf i2s_buf (Encode i) = do {
      (_, buf) \<leftarrow> sprintf buf 0 (record_line i ident);
      payload \<leftarrow> cstring buf;
      Some \<lparr>out_payload = payload, out_topic = fmt_d (unat (in_ip i))\<rparr> }"
proof -
  note off = ERROR_OFFSET_def IP_OFFSET_def WEIGHT_OFFSET_def
  obtain t u where i2s: "i2s i2s_buf (in_block i) = Some t" "cstring t = Some u" "length u = 8"
    using i2s_digits [OF assms] by blast
  have "d_b (Encode i) AND BLOCK_MASK = 0 \<longleftrightarrow> in_block i = 0"
    using block_mask_ucast [of "d_b (Encode i)"] by (simp add: Encode_fields)
  then show ?thesis
    using i2s by (intro exI [of _ "if in_block i = 0 then str ''NONE'' else u"])
      (simp add: load_def RetrieveTopic_def off Encode_fields record_line_def Let_def)
qed

lemma length_record_line:
  "length (record_line i ident) = 40 + length (fmt_d (unat (in_serial i))) + length (fmt_d (unat (in_ip i))) +
     length (fmt_int (if in_error i \<noteq> 0 then - 65535 else sint (in_weight i))) + length ident"
  by (simp add: record_line_def length_json_line)

lemma record_line_no_NUL:
  assumes "0 \<notin> set ident"
  shows "0 \<notin> set (record_line i ident)"
proof -
  have "0 \<notin> set (fmt_d n)" for n using fmt_d_set(2) [of 0 n] by auto
  moreover have "0 \<notin> set (fmt_int w)" for w using fmt_int_set [of 0 w] by auto
  ultimately show ?thesis using assms by (simp add: record_line_def json_line_def)
qed

lemma cstring_no_NUL: "cstring t = Some u \<Longrightarrow> 0 \<notin> set u"
  by (auto simp: cstring_def split: if_splits dest: set_takeWhileD)

lemma load_fits:
  assumes "length buf = 64" "length i2s_buf = 16"
    "length (fmt_d (unat (in_serial i))) + length (fmt_d (unat (in_ip i))) +
      length (fmt_int (if in_error i \<noteq> 0 then - 65535 else sint (in_weight i))) + (if in_block i = 0 then 4 else 8) < 24"
  obtains ident where "in_block i = 0 \<Longrightarrow> ident = str ''NONE''"
    "in_block i \<noteq> 0 \<Longrightarrow> \<exists>t. i2s i2s_buf (in_block i) = Some t \<and> cstring t = Some ident"
    "load buf i2s_buf (Encode i) = Some \<lparr>out_payload = record_line i ident, out_topic = fmt_d (unat (in_ip i))\<rparr>"
proof -
  obtain ident where ident: "length ident = (if in_block i = 0 then 4 else 8)"
    "in_block i = 0 \<Longrightarrow> ident = str ''NONE''"
    "in_block i \<noteq> 0 \<Longrightarrow> \<exists>t. i2s i2s_buf (in_block i) = Some t \<and> cstring t = Some ident"
    "load buf i2s_buf (Encode i) = do {
       (_, buf) \<leftarrow> sprintf buf 0 (record_line i ident);
       payload \<leftarrow> cstring buf;
       Some \<lparr>out_payload = payload, out_topic = fmt_d (unat (in_ip i))\<rparr> }"
    using load_line [OF assms(2), of i buf] by blast
  have "0 \<notin> set ident" using ident(2) ident(3) cstring_no_NUL by (cases "in_block i = 0") auto
  then have z: "0 \<notin> set (record_line i ident)" by (rule record_line_no_NUL)
  have "length (record_line i ident) < 64" using assms(3) ident(1) by (simp add: length_record_line split: if_splits)
  then have "sprintf buf 0 (record_line i ident) =
      Some (length (record_line i ident), record_line i ident @ 0 # drop (Suc (length (record_line i ident))) buf)"
    using assms(1) by (simp add: sprintf_def wr_range_def)
  then show thesis using that [OF ident(2,3)] ident(4) z by simp
qed

text \<open>Formatting a record overflows the 64-byte array exactly when the digits of the serial number, the
  address and the weight and the block id take 24 characters or more.\<close>

theorem load_overflows_iff:
  assumes "length buf = 64" "length i2s_buf = 16"
  shows "load buf i2s_buf (Encode i) = None \<longleftrightarrow>
    24 \<le> length (fmt_d (unat (in_serial i))) + length (fmt_d (unat (in_ip i))) +
      length (fmt_int (if in_error i \<noteq> 0 then - 65535 else sint (in_weight i))) + (if in_block i = 0 then 4 else 8)"
proof -
  obtain ident where ident: "length ident = (if in_block i = 0 then 4 else 8)"
    "load buf i2s_buf (Encode i) = do {
       (_, buf) \<leftarrow> sprintf buf 0 (record_line i ident);
       payload \<leftarrow> cstring buf;
       Some \<lparr>out_payload = payload, out_topic = fmt_d (unat (in_ip i))\<rparr> }"
    using load_line [OF assms(2), of i buf] by blast
  have "sprintf buf 0 (record_line i ident) = None \<longleftrightarrow> 64 \<le> length (record_line i ident)"
    using assms(1) by (auto simp: sprintf_def wr_range_def)
  moreover have "cstring b \<noteq> None" if "sprintf buf 0 (record_line i ident) = Some (n, b)" for n b
    using that by (auto simp: sprintf_def wr_range_def cstring_def split: if_splits)
  ultimately have "load buf i2s_buf (Encode i) = None \<longleftrightarrow> 64 \<le> length (record_line i ident)"
    unfolding ident(2) by (cases "sprintf buf 0 (record_line i ident)") auto
  then show ?thesis using ident(1) by (simp add: length_record_line)
qed

theorem load_overflows_iff_witness:
  "load (replicate 64 0) (replicate 16 0)
     (Encode \<lparr>in_error = 1, in_ip = 200, in_weight = 0xffff, in_block = 7, in_serial = 1000000000\<rparr>) = None"
proof -
  let ?i = "\<lparr>in_error = 1, in_ip = 200, in_weight = 0xffff, in_block = 7, in_serial = 1000000000\<rparr>"
  have "length (fmt_d 1000000000) = 10" "length (fmt_d 200) = 3" "length (fmt_int (- 65535)) = 6"
    by (simp_all add: fmt_d.simps fmt_int_def)
  then show ?thesis
    using load_overflows_iff [of "replicate 64 0" "replicate 16 0" ?i] by simp
qed

end
