(* ===== verification/SmallTools.thy ===== *)
theory SmallTools
  imports Libc "HOL-Library.Multiset"
begin

text \<open>
  Four small programs: the majority vote \<^verbatim>\<open>trivial/quorum_vote.c\<close>, the decoder of process names
  \<^verbatim>\<open>string/id_decoder.c\<close>, the readers of variable-length columns \<^verbatim>\<open>codec/clip_varchar.c\<close> and the
  converter of column declarations \<^verbatim>\<open>string/ddl_conv.c\<close>.
\<close>

section \<open>Majority vote\<close>

text \<open>\<open>v = None\<close> is the uninitialised variable; \<open>k\<close> is the number of elements left.\<close>

fun vote_loop :: "int list \<Rightarrow> nat \<Rightarrow> nat \<Rightarrow> int \<Rightarrow> int option \<Rightarrow> int option" where
  "vote_loop a i 0 c v = v"
| "vote_loop a i (Suc k) c v = do {
     x \<leftarrow> rd a i;
     let v = (if c = 0 then Some x else v);
     y \<leftarrow> v;
     vote_loop a (Suc i) k (c + (if y = x then 1 else -1)) v
   }"

definition quorum_vote :: "int list \<Rightarrow> nat \<Rightarrow> int option" where
  "quorum_vote a len = vote_loop a 0 len 0 None"

section \<open>Process names\<close>

definition LASTCHAR :: nat where "LASTCHAR = 90"
definition TABLESIZE :: nat where "TABLESIZE = 32"

definition id_table :: "u8 list" where
  "id_table = str ''0123456789BCDEFGHJKLMNPQRSTVWXYZ''"

fun reverse_loop :: "int list \<Rightarrow> nat \<Rightarrow> u8 list \<Rightarrow> int list option" where
  "reverse_loop a i [] = Some a"
| "reverse_loop a i (c # cs) = do { a \<leftarrow> wr a (unat c) (int i); reverse_loop a (Suc i) cs }"

text \<open>The constructor that fills the array of \<^verbatim>\<open>LASTCHAR\<close> entries.\<close>

definition reverse_table :: "int list option" where
  "reverse_table = reverse_loop (replicate LASTCHAR (-1)) 0 id_table"

text \<open>An entry of the array; a \<^verbatim>\<open>char\<close> is signed, so a byte from 128 on is a negative index.\<close>

definition id_entry :: "int list \<Rightarrow> u8 \<Rightarrow> int option" where
  "id_entry a c = (if unat c < 128 then rd a (unat c) else None)"

definition to_int :: "int \<Rightarrow> int option" where
  "to_int n = (if - (2 ^ 31) \<le> n \<and> n < 2 ^ 31 then Some n else None)"

text \<open>With length 0 the unsigned length wraps around and the recursion leaves the text.\<close>

fun id_decode :: "int list \<Rightarrow> u8 list \<Rightarrow> nat \<Rightarrow> int option" where
  "id_decode a p 0 = None"
| "id_decode a p (Suc 0) = do { c \<leftarrow> rd p 0; id_entry a c }"
| "id_decode a p (Suc (Suc l)) = do {
     h \<leftarrow> id_decode a p (Suc l);
     h \<leftarrow> to_int (h * int TABLESIZE);
     c \<leftarrow> rd p (Suc l);
     d \<leftarrow> id_entry a c;
     to_int (h + d)
   }"

definition PREFIXLEN :: nat where "PREFIXLEN = 2"
definition NIDLEN :: nat where "NIDLEN = 4"
definition PIDLEN :: nat where "PIDLEN = 6"
definition NAMELEN :: nat where "NAMELEN = PREFIXLEN + NIDLEN + PIDLEN"

fun check_loop :: "int list \<Rightarrow> u8 list \<Rightarrow> nat \<Rightarrow> nat \<Rightarrow> int option" where
  "check_loop a p i 0 = Some 0"
| "check_loop a p i (Suc k) = do {
     c \<leftarrow> rd p i;
     d \<leftarrow> id_entry a c;
     if d = -1 then Some 1 else check_loop a p (Suc i) k
   }"

text \<open>The argument is a text with its terminator; the results are the code and the text to decode.\<close>

definition check_id :: "int list \<Rightarrow> u8 list \<Rightarrow> (int \<times> u8 list) option" where
  "check_id a arg = do {
     l \<leftarrow> strlen arg;
     c \<leftarrow> rd arg 0;
     let (ok, p) = (if c \<noteq> 36 then (l + 1 = NAMELEN, 36 # take (NAMELEN - 1) arg) else (l = NAMELEN, arg));
     if \<not> ok then Some (1, arg)
     else do {
       z \<leftarrow> rd p 1;
       if z \<noteq> 90 then Some (1, p)
       else do {
         r \<leftarrow> check_loop a p PREFIXLEN (NAMELEN - PREFIXLEN);
         Some (r, p)
       }
     }
   }"

definition id_main :: "int list \<Rightarrow> u8 list list \<Rightarrow> (int \<times> log_line list) option" where
  "id_main a argv =
     (if length argv = 1 then Some (1, [LOG_ERROR (str ''missing name'')])
      else do {
        arg \<leftarrow> rd argv 1;
        (r, p) \<leftarrow> check_id a arg;
        if r \<noteq> 0 then Some (1, [LOG_ERROR (str ''invalid name'')])
        else do {
          nid \<leftarrow> id_decode a (drop PREFIXLEN p) NIDLEN;
          pid \<leftarrow> id_decode a (drop (PREFIXLEN + NIDLEN) p) PIDLEN;
          Some (0, [LOG_INFO (str ''nid,'' @ fmt_int nid @ str '';pid,'' @ fmt_int pid)])
        }
      })"

section \<open>Variable-length columns\<close>

record byte_reader =
  br_mem :: "u8 list"
  br_data :: nat
  br_end :: nat
  br_ref :: int

record desc =
  ds_data :: "u8 list"
  ds_null :: "u8 list option"
  ds_type :: int
  ds_charset :: int
  ds_len :: int
  ds_mode :: int

definition SQLTYPECODE_VARCHAR_WITH_LENGTH :: int where "SQLTYPECODE_VARCHAR_WITH_LENGTH = -601"

definition byte_reader_new :: "u8 list \<Rightarrow> nat \<Rightarrow> byte_reader" where
  "byte_reader_new data len = \<lparr>br_mem = data, br_data = 0, br_end = len, br_ref = 1\<rparr>"

text \<open>
  \<open>dest\<close> is the memory from the destination pointer on; a negative count passes the test and is an
  enormous \<^verbatim>\<open>size_t\<close> for \<^verbatim>\<open>memcpy\<close>.
\<close>

definition byte_reader_peak :: "byte_reader \<Rightarrow> u8 list \<Rightarrow> int \<Rightarrow> (int \<times> u8 list) option" where
  "byte_reader_peak r dest n =
     (if int (br_end r) < int (br_data r) + n then Some (-1, dest)
      else if n < 0 then None
      else do {
        bs \<leftarrow> rd_range (br_mem r) (br_data r) (nat n);
        dest \<leftarrow> wr_range dest 0 bs;
        Some (0, dest)
      })"

definition byte_reader_read :: "byte_reader \<Rightarrow> u8 list \<Rightarrow> int \<Rightarrow> (int \<times> u8 list \<times> byte_reader) option" where
  "byte_reader_read r dest n = do {
     (rc, dest) \<leftarrow> byte_reader_peak r dest n;
     Some (if rc = 0 then (0, dest, r\<lparr>br_data := br_data r + nat n\<rparr>) else (-1, dest, r))
   }"

definition byte_reader_ref :: "byte_reader \<Rightarrow> byte_reader" where
  "byte_reader_ref r = r\<lparr>br_ref := br_ref r + 1\<rparr>"

text \<open>\<^term>\<open>None\<close> is the freed object.\<close>

definition byte_reader_unref :: "byte_reader \<Rightarrow> byte_reader option" where
  "byte_reader_unref r = (if br_ref r - 1 = 0 then None else Some (r\<lparr>br_ref := br_ref r - 1\<rparr>))"

definition copy_column_varchar_notnull :: "byte_reader \<Rightarrow> desc \<Rightarrow> (byte_reader \<times> desc) option" where
  "copy_column_varchar_notnull r d = do {
     l \<leftarrow> (if 0x7fff < ds_len d then do {
         (_, t) \<leftarrow> byte_reader_peak r (replicate 4 0) 4;
         Some (sint (of_le_bytes t :: u32))
       } else do {
         (_, t) \<leftarrow> byte_reader_peak r (replicate 2 0) 2;
         Some (sint (of_le_bytes t :: u16))
       });
     n \<leftarrow> to_int (l + 2);
     (_, data, r) \<leftarrow> byte_reader_read r (ds_data d) n;
     Some (r, d\<lparr>ds_data := data\<rparr>)
   }"

definition copy_column_varchar_nullable :: "byte_reader \<Rightarrow> desc \<Rightarrow> (byte_reader \<times> desc) option" where
  "copy_column_varchar_nullable r d = do {
     (_, t) \<leftarrow> byte_reader_peak r (replicate 2 0) 2;
     nl \<leftarrow> ds_null d;
     (_, nl, r) \<leftarrow> byte_reader_read r nl 2;
     let d = d\<lparr>ds_null := Some nl\<rparr>;
     if sint (of_le_bytes t :: u16) \<noteq> -1 then copy_column_varchar_notnull r d else Some (r, d)
   }"

definition copy_column_varchar_general :: "byte_reader \<Rightarrow> desc \<Rightarrow> (byte_reader \<times> desc) option" where
  "copy_column_varchar_general r d = do {
     (r, d) \<leftarrow> (case ds_null d of
       None \<Rightarrow> Some (r, d)
     | Some nl \<Rightarrow> do {
         (_, nl, r) \<leftarrow> byte_reader_read r nl 2;
         Some (r, d\<lparr>ds_null := Some nl\<rparr>)
       });
     let l = ds_len d;
     let l = (if ds_type d = SQLTYPECODE_VARCHAR_WITH_LENGTH then
                if 0x7fff < l then (l + 3) div 4 * 4 + 4 else (l + 1) div 2 * 2 + 2
              else l);
     l \<leftarrow> to_int l;
     (_, data, r) \<leftarrow> byte_reader_read r (ds_data d) l;
     Some (r, d\<lparr>ds_data := data\<rparr>)
   }"

section \<open>Column declarations\<close>

definition toupper :: "u8 \<Rightarrow> u8" where
  "toupper c = (if 97 \<le> c \<and> c \<le> 122 then c - 32 else c)"

definition tolower :: "u8 \<Rightarrow> u8" where
  "tolower c = (if 65 \<le> c \<and> c \<le> 90 then c + 32 else c)"

text \<open>
  The loop of \<^verbatim>\<open>next_item\<close> tests its pointer, not the character, so it does not stop at the end of the
  text. The results are the memory and the new position.
\<close>

function next_item_loop :: "u8 list \<Rightarrow> nat \<Rightarrow> nat \<Rightarrow> (u8 list \<times> nat) option" where
  "next_item_loop m s jump =
     (case rd m s of
        None \<Rightarrow> None
      | Some c \<Rightarrow>
          if jump = 0 \<and> isspace c then next_item_loop (m[s := 0]) (s + 1) 1
          else if 0 < jump then
            if isspace c then next_item_loop m (s + 1) (jump + 1) else Some (m, s)
          else next_item_loop m (s + 1) jump)"
  by pat_completeness auto
termination
  by (relation "measure (\<lambda>(m, s, jump). length m - s)") (auto simp: rd_eq_Some_iff)

declare next_item_loop.simps [simp del]

definition next_item :: "u8 list \<Rightarrow> nat \<Rightarrow> (u8 list \<times> nat) option" where
  "next_item m s = next_item_loop m s 0"

function key_end :: "u8 list \<Rightarrow> nat \<Rightarrow> nat option \<Rightarrow> (nat \<times> nat option) option" where
  "key_end m e d =
     (case rd m e of
        None \<Rightarrow> None
      | Some c \<Rightarrow> if isspace c then Some (e, d) else key_end m (e + 1) (if c = 95 then Some e else d))"
  by pat_completeness auto
termination
  by (relation "measure (\<lambda>(m, e, d). length m - e)") (auto simp: rd_eq_Some_iff)

declare key_end.simps [simp del]

text \<open>\<^verbatim>\<open>memcpy\<close> inside one object is defined only if the two ranges do not overlap.\<close>

definition memcpy_within :: "u8 list \<Rightarrow> nat \<Rightarrow> nat \<Rightarrow> nat \<Rightarrow> u8 list option" where
  "memcpy_within m dst src n =
     (if dst < src + n \<and> src < dst + n \<and> 0 < n then None
      else do { bs \<leftarrow> rd_range m src n; wr_range m dst bs })"

definition handle_key :: "u8 list \<Rightarrow> nat \<Rightarrow> u8 list option" where
  "handle_key m s = do {
     (e, d) \<leftarrow> key_end m s None;
     c \<leftarrow> rd m s;
     m \<leftarrow> wr m s (toupper c);
     (case d of
        None \<Rightarrow> Some m
      | Some d \<Rightarrow> do {
          x \<leftarrow> rd m (d + 1);
          if x \<noteq> 0 then do {
            m \<leftarrow> wr m (d + 1) (toupper x);
            m \<leftarrow> memcpy_within m d (d + 1) (e - d - 1);
            wr m (e - 1) 32
          } else Some m
        })
   }"

definition handle_type :: "u8 list \<Rightarrow> nat \<Rightarrow> (u8 list \<times> u8 list) option" where
  "handle_type m s = do {
     c \<leftarrow> rd m s;
     let c = tolower c;
     if c = 98 then Some (m, str ''int64'')
     else if c = 105 then do {
       (m, s) \<leftarrow> next_item m s;
       u \<leftarrow> rd m s;
       Some (m, if u = 117 then str ''uint32'' else str ''int32'')
     }
     else if c = 100 \<or> c = 116 then Some (m, str ''time.Time'')
     else if c = 99 \<or> c = 118 then Some (m, str ''string'')
     else Some (m, str ''interface{}'')
   }"

text \<open>The line printed for a declaration at position \<open>s\<close>.\<close>

definition handle_line :: "u8 list \<Rightarrow> nat \<Rightarrow> u8 list option" where
  "handle_line m s = do {
     m \<leftarrow> handle_key m s;
     (m, s') \<leftarrow> next_item m s;
     (m, type) \<leftarrow> handle_type m s';
     key \<leftarrow> cstring (drop s m);
     Some (key @ [32] @ type)
   }"

text \<open>\<open>lines\<close> are the buffers \<^verbatim>\<open>getline\<close> returns, each a line with its newline and terminator.\<close>

fun ddl_main :: "u8 list list \<Rightarrow> u8 list list option" where
  "ddl_main [] = Some []"
| "ddl_main (line # lines) = do {
     let s = length (takeWhile isspace line);
     t \<leftarrow> handle_line line s;
     ts \<leftarrow> ddl_main lines;
     Some (t # ts)
   }"

section \<open>Lemmas\<close>

text \<open>
  Twice the number of votes for a candidate never exceeds the number of votes seen, plus the lead of the
  current candidate for itself and minus it for any other.
\<close>

definition vote_inv :: "int list \<Rightarrow> int \<Rightarrow> int option \<Rightarrow> bool" where
  "vote_inv seen c v \<longleftrightarrow> 0 \<le> c \<and> (v = None \<longrightarrow> c = 0) \<and>
     (\<forall>x. 2 * int (count_list seen x) \<le> int (length seen) + (if v = Some x then c else - c))"

lemma vote_inv_step:
  assumes "vote_inv seen c v" "v' = (if c = 0 then Some x else v)" "v' = Some y"
  shows "vote_inv (seen @ [x]) (c + (if y = x then 1 else -1)) v'"
proof -
  have "0 < c \<or> y = x" using assms by (auto simp: vote_inv_def split: if_splits)
  moreover have "2 * int (count_list (seen @ [x]) z) \<le> int (length (seen @ [x])) + (if v' = Some z then c' else - c')"
    if c': "c' = c + (if y = x then 1 else -1)" for z c'
  proof -
    have "2 * int (count_list seen z) \<le> int (length seen) + (if v = Some z then c else - c)"
      using assms(1) by (simp add: vote_inv_def)
    then show ?thesis using assms(2,3) c' by (auto split: if_splits)
  qed
  ultimately show ?thesis using assms by (auto simp: vote_inv_def)
qed

lemma vote_loop_inv:
  "vote_inv (take i a) c v \<Longrightarrow> i + k = length a \<Longrightarrow> 0 < k \<or> v \<noteq> None \<Longrightarrow>
   \<exists>w c'. vote_loop a i k c v = Some w \<and> vote_inv a c' (Some w)"
proof (induction k arbitrary: i c v)
  case 0
  then show ?case by (auto simp: take_all)
next
  case (Suc k)
  define v' where "v' = (if c = 0 then Some (a ! i) else v)"
  obtain y where y: "v' = Some y"
    using Suc.prems(1) by (cases v; cases "c = 0") (auto simp: v'_def vote_inv_def)
  have i: "i < length a" using Suc.prems(2) by simp
  then have "vote_inv (take (Suc i) a) (c + (if y = a ! i then 1 else -1)) v'"
    using vote_inv_step [OF Suc.prems(1) v'_def y] by (simp add: take_Suc_conv_app_nth)
  from Suc.IH [OF this] Suc.prems(2) y
  obtain w c' where "vote_loop a (Suc i) k (c + (if y = a ! i then 1 else -1)) v' = Some w" "vote_inv a c' (Some w)"
    by auto
  then show ?case using i y by (auto simp: rd_Some v'_def [symmetric])
qed

text \<open>The array of the decoder has no entry for its last character.\<close>

lemma reverse_table_overflows: "reverse_table = None"
proof -
  have r: "reverse_loop a i (xs @ ys) = do { a \<leftarrow> reverse_loop a i xs; reverse_loop a (i + length xs) ys }" for a i xs ys
    by (induction xs arbitrary: a i) (auto simp: Option.bind_eq_None_conv split: bind_splits)
  have len: "reverse_loop a i xs = Some b \<Longrightarrow> length b = length a" for a b i xs
    by (induction xs arbitrary: a i) (auto simp: bind_eq_Some_conv dest!: length_wr)
  have t: "id_table = str ''0123456789BCDEFGHJKLMNPQRSTVWXY'' @ [90]" by (simp add: id_table_def)
  show ?thesis
    unfolding reverse_table_def t r
    by (cases "reverse_loop (replicate LASTCHAR (- 1)) 0 (str ''0123456789BCDEFGHJKLMNPQRSTVWXY'')")
       (auto simp: LASTCHAR_def wr_def dest!: len)
qed

text \<open>With a complete table the decoder computes the number written in base 32.\<close>

fun base32 :: "int list \<Rightarrow> int" where
  "base32 [] = 0"
| "base32 (d # ds) = d * 32 ^ length ds + base32 ds"

lemma base32_snoc: "base32 (ds @ [d]) = base32 ds * 32 + d"
  by (induction ds) (simp_all add: algebra_simps)

lemma base32_bounds: "list_all (\<lambda>d. 0 \<le> d \<and> d < 32) ds \<Longrightarrow> 0 \<le> base32 ds \<and> base32 ds < 32 ^ length ds"
proof (induction ds)
  case (Cons d ds)
  then have "d * 32 ^ length ds \<le> 31 * 32 ^ length ds" by (intro mult_right_mono) auto
  moreover have "0 \<le> d * 32 ^ length ds" using Cons.prems by simp
  moreover have "0 \<le> base32 ds \<and> base32 ds < 32 ^ length ds" using Cons by simp
  ultimately show ?case unfolding base32.simps length_Cons power_Suc by (intro conjI) linarith+
qed simp

lemma id_decode_base32:
  "length ds = l \<Longrightarrow> 0 < l \<Longrightarrow> l \<le> 6 \<Longrightarrow> l \<le> length p \<Longrightarrow> list_all (\<lambda>d. 0 \<le> d \<and> d < 32) ds \<Longrightarrow>
   (\<And>i. i < l \<Longrightarrow> id_entry a (p ! i) = Some (ds ! i)) \<Longrightarrow> id_decode a p l = Some (base32 ds)"
proof (induction a p l arbitrary: ds rule: id_decode.induct)
  case (2 a p)
  then obtain d where "ds = [d]" by (auto simp: length_Suc_conv)
  then show ?case using 2 by (auto simp: rd_def)
next
  case (3 a p l)
  then obtain es d where ds: "ds = es @ [d]" "length es = Suc l" by (metis length_Suc_conv_rev)
  have es: "list_all (\<lambda>d. 0 \<le> d \<and> d < 32) es" "0 \<le> d" "d < 32" using 3(6) ds by auto
  have "id_decode a p (Suc l) = Some (base32 es)"
  proof (rule 3(1))
    fix i assume "i < Suc l"
    then show "id_entry a (p ! i) = Some (es ! i)" using 3(7) [of i] ds by (simp add: nth_append)
  qed (use 3 ds es in auto)
  moreover have "id_entry a (p ! Suc l) = Some d" using 3(7) [of "Suc l"] ds by (simp add: nth_append)
  moreover have "base32 es * 32 + d < 2 ^ 31" "0 \<le> base32 es"
  proof -
    have "(32 :: int) ^ length ds \<le> 32 ^ 6" using 3(2,4) by (intro power_increasing) auto
    then show "base32 es * 32 + d < 2 ^ 31" using base32_bounds [OF 3(6)] ds base32_snoc [of es d] by simp
    show "0 \<le> base32 es" using base32_bounds [OF es(1)] by simp
  qed
  ultimately show ?case using 3(5) es ds by (simp add: to_int_def TABLESIZE_def rd_def base32_snoc)
qed simp

section \<open>Properties\<close>

text \<open>C40. Whenever some value makes up more than half of the array, the vote returns it.\<close>

theorem quorum_vote_majority:
  assumes "length a < 2 * count_list a m"
  shows "quorum_vote a (length a) = Some m"
proof -
  have "a \<noteq> []" using assms by auto
  then obtain w c where w: "quorum_vote a (length a) = Some w" "vote_inv a c (Some w)"
    using vote_loop_inv [of 0 a 0 None "length a"] by (auto simp: quorum_vote_def vote_inv_def)
  then have "2 * int (count_list a m) \<le> int (length a) + (if w = m then c else - c)" "0 \<le> c"
    by (auto simp: vote_inv_def)
  then show ?thesis using assms w(1) by (cases "w = m") auto
qed

theorem quorum_vote_majority_witness: "quorum_vote [1, 2, 3, 2, 5, 2, 2] 7 = Some 2"
  using quorum_vote_majority [of "[1, 2, 3, 2, 5, 2, 2]" 2] by (simp add: numeral_eq_Suc)

text \<open>Reading a non-null variable-length column advances by the length of its value plus two and copies
  that many bytes, whatever the width of the length field: right for the two-byte field of short columns,
  two bytes short for the four-byte field of columns declared longer than 32767.\<close>

theorem varchar_advance:
  assumes "fld = (if 0x7fff < ds_len d then le_bytes 4 (of_nat (length val) :: u32)
                  else le_bytes 2 (of_nat (length val) :: u16))"
    and "br_mem r = pre @ fld @ val @ post" "br_data r = length pre" "br_end r = length (br_mem r)"
    and "length val < 2 ^ 15" "length val + 2 \<le> length (ds_data d)"
  shows "\<exists>r' d'. copy_column_varchar_notnull r d = Some (r', d') \<and> br_data r' = length pre + length val + 2 \<and>
    take (length val + 2) (ds_data d') = take (length val + 2) (fld @ val)"
proof -
  let ?n = "length val + 2"
  define w where "w = length fld"
  have w: "w = (if 0x7fff < ds_len d then 4 else 2)" using assms(1) by (simp add: w_def)
  have peak: "byte_reader_peak r (replicate w 0) (int w) = Some (0, fld)"
    using assms(2-4) by (simp add: byte_reader_peak_def rd_range_def wr_range_def w_def)
  have l: "sint (of_nat (length val) :: u32) = int (length val)" "sint (of_nat (length val) :: u16) = int (length val)"
    using assms(5) by (simp_all add: signed_of_nat signed_take_bit_int_eq_self)
  have n: "int (length val) + 2 = int ?n" by simp
  have "byte_reader_read r (ds_data d) (int ?n) =
      Some (0, take ?n (fld @ val) @ drop ?n (ds_data d), r\<lparr>br_data := length pre + ?n\<rparr>)"
  proof -
    have "rd_range (br_mem r) (length pre) ?n = Some (take ?n (fld @ val))"
      using assms(2) w by (auto simp: rd_range_def w_def)
    moreover have "length (take ?n (fld @ val)) = ?n" using w by (auto simp: w_def)
    ultimately show ?thesis
      using assms(2-4,6) w
      by (auto simp: byte_reader_read_def byte_reader_peak_def wr_range_def w_def nat_add_distrib)
  qed
  moreover have "length (take ?n (fld @ val)) = ?n" using w by (auto simp: w_def)
  moreover have "to_int (int ?n) = Some (int ?n)" using assms(5) by (simp add: to_int_def)
  ultimately show ?thesis using peak l w assms(1)
    by (cases "0x7fff < ds_len d") (simp_all add: copy_column_varchar_notnull_def n min_def del: of_nat_add)
qed

theorem varchar_advance_witness:
  "\<exists>r' d'. copy_column_varchar_notnull (byte_reader_new [3, 0, 97, 98, 99, 7] 6)
      \<lparr>ds_data = replicate 8 0, ds_null = None, ds_type = 0, ds_charset = 0, ds_len = 8, ds_mode = 0\<rparr> = Some (r', d') \<and>
    br_data r' = 5 \<and> take 5 (ds_data d') = [3, 0, 97, 98, 99]"
proof -
  have f: "le_bytes 2 (of_nat (length [97 :: u8, 98, 99]) :: u16) = [3, 0]" by code_simp
  let ?d = "\<lparr>ds_data = replicate 8 0, ds_null = None, ds_type = 0, ds_charset = 0, ds_len = 8, ds_mode = 0\<rparr>"
  obtain r' d' where *: "copy_column_varchar_notnull (byte_reader_new [3, 0, 97, 98, 99, 7] 6) ?d = Some (r', d')"
    "br_data r' = length ([] :: u8 list) + length [97 :: u8, 98, 99] + 2"
    "take (length [97 :: u8, 98, 99] + 2) (ds_data d') = take (length [97 :: u8, 98, 99] + 2) ([3, 0] @ [97, 98, 99])"
    using varchar_advance [of "[3, 0]" ?d "[97, 98, 99]" "byte_reader_new [3, 0, 97, 98, 99, 7] 6" "[]" "[7]"] f
    by (auto simp: byte_reader_new_def)
  have e: "length [97 :: u8, 98, 99] + 2 = 5" by simp
  have "take 5 (ds_data d') = [3, 0, 97, 98, 99]" using *(3) unfolding e by simp
  moreover have "br_data r' = 5" using *(2) by simp
  ultimately show ?thesis using *(1) by blast
qed

end
