(* ===== verification/MonitorUtil.thy ===== *)
theory MonitorUtil
  imports Runner
begin

text \<open>
  The helpers of \<^verbatim>\<open>src/socket/monitor/util.cpp\<close>: the default time formatter, the word-at-a-time
  string copy, the reader of \<^verbatim>\<open>/proc/self/stat\<close> behind \<^verbatim>\<open>NiceName\<close>, the executable path and the
  double fork of \<^verbatim>\<open>Daemon::run\<close>.  The lemmas show that the optimised copy equals the byte-wise one for
  every alignment (and how many bytes it writes), and which fields of the status line are used.
\<close>

unbundle bit_operations_syntax

section \<open>Time stamps\<close>

text \<open>\<^verbatim>\<open>%03d\<close>: at least three digits, zeros after the sign.\<close>

definition fmt_03d :: "int \<Rightarrow> u8 list" where
  "fmt_03d i =
     (let s = (if i < 0 then [45] else []); ds = fmt_d (nat \<bar>i\<bar>) in
      s @ replicate (3 - (length s + length ds)) 48 @ ds)"

text \<open>\<^verbatim>\<open>buf = None\<close> is the call with a null pointer; \<^verbatim>\<open>own\<close> is the thread's own array.\<close>

definition DefaultTimeFormatter :: "u8 list option \<Rightarrow> u8 list \<Rightarrow> u32 \<Rightarrow> u32 \<Rightarrow> u8 list option" where
  "DefaultTimeFormatter buf own seconds milliseconds =
     (let p = (case buf of None \<Rightarrow> own | Some b \<Rightarrow> b) in
      map_option snd (sprintf p 0 (fmt_int (sint seconds) @ 46 # fmt_03d (sint milliseconds))))"

text \<open>The argument of \<^verbatim>\<open>Milliseconds\<close> is what \<^verbatim>\<open>clock_gettime\<close> stores.\<close>

definition Milliseconds :: "int \<times> int \<Rightarrow> real" where
  "Milliseconds ts = real_of_int (fst ts) * 1000 + real_of_int (snd ts) / 1000000"

definition Now :: "u8 list option \<Rightarrow> u8 list \<Rightarrow> int \<times> int \<Rightarrow> (u8 list option \<Rightarrow> u32 \<Rightarrow> u32 \<Rightarrow> u8 list option) option \<Rightarrow> u8 list option" where
  "Now buf own ts timeFormatter =
     (let s = of_int (fst ts); ms = of_int (snd ts div 1000000) in
      case timeFormatter of
        Some f \<Rightarrow> f buf s ms
      | None \<Rightarrow> DefaultTimeFormatter buf own s ms)"

text \<open>\<^verbatim>\<open>TimeThis\<close>: the start time, and the duration its destructor reports.\<close>

definition TimeThis_new :: "int \<times> int \<Rightarrow> real" where
  "TimeThis_new ts = Milliseconds ts"

definition TimeThis_stop :: "real \<Rightarrow> int \<times> int \<Rightarrow> real" where
  "TimeThis_stop ms ts = Milliseconds ts - ms"

text \<open>\<^verbatim>\<open>Sleep\<close>: the timeout it polls with, if it polls.\<close>

definition Sleep :: "u32 \<Rightarrow> u32 option" where
  "Sleep ms = (if sint ms \<le> 0 \<or> 0x1fffff \<le> sint ms then None else Some ms)"

section \<open>String copy by words\<close>

definition HASZERO :: "u64 \<Rightarrow> u64" where
  "HASZERO x = (x - 0x0101010101010101) AND NOT x AND 0x8080808080808080"

definition PTRALIGNOFFSET :: "nat \<Rightarrow> nat" where
  "PTRALIGNOFFSET a = a mod 8"

text \<open>
  The three loops.  \<^verbatim>\<open>sa\<close> is the address of the source; both pointers advance together, so one index
  stands for both.  A word access is an access to all of its eight bytes.
\<close>

fun strlcpy_head :: "nat \<Rightarrow> u8 list \<Rightarrow> u8 list \<Rightarrow> nat \<Rightarrow> nat \<Rightarrow> (u8 list \<times> nat \<times> nat) option" where
  "strlcpy_head sa s d i 0 = Some (d, i, 0)"
| "strlcpy_head sa s d i (Suc n) =
     (if PTRALIGNOFFSET (sa + i) = 0 then Some (d, i, Suc n)
      else do {
        c \<leftarrow> rd s i;
        d \<leftarrow> wr d i c;
        if c \<noteq> 0 then strlcpy_head sa s d (Suc i) n else Some (d, i, Suc n)
      })"

fun strlcpy_words :: "u8 list \<Rightarrow> u8 list \<Rightarrow> nat \<Rightarrow> nat \<Rightarrow> (u8 list \<times> nat \<times> nat) option" where
  "strlcpy_words s d i n =
     (if n < 8 then Some (d, i, n)
      else do {
        w \<leftarrow> rd_range s i 8;
        if HASZERO (of_le_bytes w) \<noteq> 0 then Some (d, i, n)
        else do {
          d \<leftarrow> wr_range d i w;
          strlcpy_words s d (i + 8) (n - 8)
        }
      })"

declare strlcpy_words.simps [simp del]

fun strlcpy_tail :: "u8 list \<Rightarrow> u8 list \<Rightarrow> nat \<Rightarrow> nat \<Rightarrow> (u8 list \<times> nat) option" where
  "strlcpy_tail s d i 0 = Some (d, i)"
| "strlcpy_tail s d i (Suc n) = do {
     c \<leftarrow> rd s i;
     d \<leftarrow> wr d i c;
     if c \<noteq> 0 then strlcpy_tail s d (Suc i) n else Some (d, i)
   }"

definition strlcpy_end :: "u8 list \<Rightarrow> u8 list \<times> nat \<times> nat \<Rightarrow> (nat \<times> u8 list) option" where
  "strlcpy_end s = (\<lambda>(d, i, n). do {
     (d, i) \<leftarrow> strlcpy_tail s d i n;
     d \<leftarrow> wr d i 0;
     Some (i, d)
   })"

definition strlcpy :: "nat \<Rightarrow> nat \<Rightarrow> u8 list \<Rightarrow> u8 list \<Rightarrow> nat \<Rightarrow> (nat \<times> u8 list) option" where
  "strlcpy da sa d s n = do {
     st \<leftarrow>
       (if PTRALIGNOFFSET sa = PTRALIGNOFFSET da then do {
          (d, i, n) \<leftarrow> strlcpy_head sa s d 0 n;
          if n \<noteq> 0 then do {
            c \<leftarrow> rd s i;
            if c \<noteq> 0 then strlcpy_words s d i n else Some (d, i, n)
          } else Some (d, i, n)
        } else Some (d, 0, n));
     strlcpy_end s st
   }"

section \<open>Process title\<close>

text \<open>
  \<^verbatim>\<open>t\<close> is the line \<^verbatim>\<open>fgets\<close> left in the array.  Both \<^verbatim>\<open>return -1\<close> of the macro and of \<^verbatim>\<open>EXPECT\<close> are
  \<^term>\<open>None\<close>.
\<close>

definition next_space :: "u8 list \<Rightarrow> nat \<Rightarrow> nat option" where
  "next_space t p = find (\<lambda>i. t ! i = 32) [p..<length t]"

fun SKIPFIELDS :: "u8 list \<Rightarrow> nat \<Rightarrow> nat \<Rightarrow> nat option" where
  "SKIPFIELDS t 0 p = Some p"
| "SKIPFIELDS t (Suc n) p = do {
     p \<leftarrow> next_space t (Suc p);
     SKIPFIELDS t n p
   }"

text \<open>\<^verbatim>\<open>%lu\<close>: white space, an optional sign and at least one digit; the rest of the text is kept.\<close>

definition scan_lu :: "u8 list \<Rightarrow> (u64 \<times> u8 list) option" where
  "scan_lu s =
     (let s = dropWhile isspace s;
          ds = (case s of [] \<Rightarrow> [] | c # r \<Rightarrow> if c = 43 \<or> c = 45 then r else s) in
      if takeWhile isdigit ds = [] then None
      else Some (strtoull s, dropWhile isdigit ds))"

fun sscanf_lu :: "bool list \<Rightarrow> u8 list \<Rightarrow> u64 list" where
  "sscanf_lu [] s = []"
| "sscanf_lu (keep # f) s =
     (case scan_lu s of
        None \<Rightarrow> []
      | Some (x, s) \<Rightarrow> (if keep then [x] else []) @ sscanf_lu f s)"

record prctl_mm_map =
  start_code :: u64
  end_code :: u64
  start_stack :: u64
  start_data :: u64
  end_data :: u64
  start_brk :: u64
  mm_brk :: u64
  arg_start :: u64
  arg_end :: u64
  env_start :: u64
  env_end :: u64

text \<open>
  \<^verbatim>\<open>addr\<close> is the address of the stored name and \<^verbatim>\<open>brk_val\<close> the answer of the \<^verbatim>\<open>brk\<close> call; the result
  is the map passed to \<^verbatim>\<open>prctl\<close>.
\<close>

definition NiceName :: "u8 list \<Rightarrow> u8 list \<Rightarrow> u64 \<Rightarrow> u64 \<Rightarrow> prctl_mm_map option" where
  "NiceName t name addr brk_val = do {
     p \<leftarrow> next_space t 0;
     p \<leftarrow> SKIPFIELDS t 24 p;
     let xs = sscanf_lu [True, True, True] (drop p t);
     if length xs \<noteq> 3 then None else do {
       p \<leftarrow> SKIPFIELDS t 19 p;
       let ys = sscanf_lu [True, True, True, False, False, True, True] (drop p t);
       if length ys \<noteq> 5 then None else
         Some \<lparr>start_code = xs ! 0, end_code = xs ! 1, start_stack = xs ! 2,
           start_data = ys ! 0, end_data = ys ! 1, start_brk = ys ! 2, mm_brk = brk_val,
           arg_start = addr, arg_end = addr + of_nat (length name) + 1,
           env_start = ys ! 3, env_end = ys ! 4\<rparr>
     }
   }"

section \<open>Executable path and daemon\<close>

text \<open>
  \<^verbatim>\<open>link\<close> is the target \<^verbatim>\<open>readlink\<close> finds, or \<^term>\<open>None\<close> when it fails; \<^verbatim>\<open>readlink\<close> truncates to the
  size it is given and does not terminate the text.
\<close>

definition WhichExe :: "u8 list option \<Rightarrow> u8 list \<Rightarrow> u8 list option" where
  "WhichExe link buf = do {
     c \<leftarrow> rd buf 0;
     if c \<noteq> 0 then Some buf
     else (case link of
       None \<Rightarrow> None
     | Some target \<Rightarrow> do {
         let got = take (length buf) target;
         buf \<leftarrow> wr_range buf 0 got;
         wr buf (length got) 0
       })
   }"

text \<open>
  What the process does that a call of \<^verbatim>\<open>Daemon::run\<close> returns in, exits in or runs the main task in; the
  two arguments are the answers of the two \<^verbatim>\<open>fork\<close> calls in that process.
\<close>

datatype daemon_act = OnFork int | Waitpid int | ExitProc | Setsid | SetName | MainTask int

record daemon_run =
  dr_rc :: "int option"
  dr_acts :: "daemon_act list"
  dr_closed :: "int list"
  dr_pipe :: Pipe

definition kCorruption :: int where
  "kCorruption = 2"

definition Daemon_run :: "Pipe \<Rightarrow> int \<Rightarrow> int \<Rightarrow> bool \<Rightarrow> daemon_run" where
  "Daemon_run p fork1 fork2 has_onfork =
     (if fork1 = -1 then
        (case Pipe_destroy p [] of (p, cs) \<Rightarrow>
          \<lparr>dr_rc = Some kCorruption, dr_acts = [], dr_closed = cs, dr_pipe = p\<rparr>)
      else if fork1 \<noteq> 0 then
        (case closeReadEnd p [] of (p, cs) \<Rightarrow>
           let fd = fd_write p; p = giveupOwnership p in
           case Pipe_destroy p cs of (p, cs) \<Rightarrow>
             \<lparr>dr_rc = Some 0, dr_acts = (if has_onfork then [OnFork fd] else []) @ [Waitpid fork1],
              dr_closed = cs, dr_pipe = p\<rparr>)
      else if fork2 \<noteq> 0 then \<lparr>dr_rc = None, dr_acts = [ExitProc], dr_closed = [], dr_pipe = p\<rparr>
      else
        (case closeWriteEnd p [] of (p, cs) \<Rightarrow>
           let fd = fd_read p in
           case Pipe_destroy p cs of (p, cs) \<Rightarrow>
             \<lparr>dr_rc = Some kCorruption, dr_acts = [Setsid, SetName, MainTask fd],
              dr_closed = cs, dr_pipe = p\<rparr>))"

section \<open>The word loop misses no terminator\<close>

text \<open>The bytes of a text as a number, and the number with a 1 in every byte.\<close>

primrec byte_int :: "u8 list \<Rightarrow> int" where
  "byte_int [] = 0"
| "byte_int (b # bs) = uint b + 256 * byte_int bs"

primrec ones_int :: "nat \<Rightarrow> int" where
  "ones_int 0 = 0"
| "ones_int (Suc n) = 1 + 256 * ones_int n"

lemma bit_shift8: "bit (c + 256 * x :: int) (8 + j) = bit x j" if "0 \<le> c" "c < 256"
proof -
  have "drop_bit 8 (c + 256 * x) = x" using that by (simp add: drop_bit_eq_div)
  then show ?thesis by (metis bit_drop_bit_eq comp_apply)
qed

lemma bit_low8: "bit (c + 256 * x :: int) 7 = bit c 7"
proof -
  have "take_bit 8 (c + 256 * x) = take_bit 8 c" by (simp add: take_bit_eq_mod)
  moreover have "bit (take_bit 8 y) 7 = bit y 7" for y :: int by (simp add: bit_take_bit_iff)
  ultimately show ?thesis by metis
qed

lemma zero_byte_int:
  "0 \<in> set bs \<Longrightarrow> \<exists>i < length bs. bit (byte_int bs - ones_int (length bs)) (8 * i + 7) \<and> \<not> bit (byte_int bs) (8 * i + 7)"
proof (induction bs)
  case (Cons b bs)
  show ?case
  proof (cases "b = 0")
    case True
    have "bit (-1 + 256 * (byte_int bs - ones_int (length bs))) 7" by (simp only: bit_low8) simp
    moreover have "\<not> bit (0 + 256 * byte_int bs) 7" by (simp only: bit_low8) simp
    ultimately show ?thesis using True by (intro exI [of _ 0]) (simp add: algebra_simps)
  next
    case False
    then obtain i where i: "i < length bs" "bit (byte_int bs - ones_int (length bs)) (8 * i + 7)" "\<not> bit (byte_int bs) (8 * i + 7)"
      using Cons by auto
    have b: "0 < uint b" "uint b < 256"
      using False uint_lt2p [of b] by (auto simp: word_less_def [symmetric] word_greater_zero_iff simp flip: uint_0_iff intro: le_neq_trans)
    have "bit ((uint b - 1) + 256 * (byte_int bs - ones_int (length bs))) (8 + (8 * i + 7))"
      using b i by (subst bit_shift8) auto
    moreover have "\<not> bit (uint b + 256 * byte_int bs) (8 + (8 * i + 7))"
      using b i by (subst bit_shift8) auto
    ultimately show ?thesis using i(1) by (intro exI [of _ "Suc i"]) (simp add: algebra_simps)
  qed
qed simp

lemma of_le_bytes_int: "of_le_bytes bs = (word_of_int (byte_int bs) :: 'a::len word)"
proof (induction bs)
  case (Cons b bs)
  have "ucast b OR push_bit 8 (of_le_bytes bs) = (ucast b + push_bit 8 (of_le_bytes bs) :: 'a word)"
    by (rule disjunctive_add_eq_or [symmetric]) (rule bit_word_eqI, auto simp: bit_simps u8_bit_high)
  also have "\<dots> = word_of_int (uint b) + word_of_int 256 * word_of_int (byte_int bs)"
    by (simp add: Cons push_bit_eq_mult)
  finally show ?case by simp
qed simp

lemma ones_int_8: "ones_int 8 = 0x0101010101010101"
  by (simp add: eval_nat_numeral)

lemma high_bits: "i < 8 \<Longrightarrow> bit (0x8080808080808080 :: u64) (8 * i + 7)"
proof -
  have "\<forall>i<8. bit (0x8080808080808080 :: u64) (8 * i + 7)"
    unfolding all_less_8 by (simp add: bit_numeral_word_iff)
  then show "i < 8 \<Longrightarrow> bit (0x8080808080808080 :: u64) (8 * i + 7)" by blast
qed

lemma HASZERO_zero_byte:
  assumes "length w = 8" "0 \<in> set w"
  shows "HASZERO (of_le_bytes w) \<noteq> 0"
proof -
  let ?x = "of_le_bytes w :: u64"
  obtain i where i: "i < 8" "bit (byte_int w - ones_int 8) (8 * i + 7)" "\<not> bit (byte_int w) (8 * i + 7)"
    using zero_byte_int [of w] assms by auto
  have ones: "word_of_int (ones_int 8) = (0x0101010101010101 :: u64)" by (simp add: ones_int_8)
  have "bit (?x - 0x0101010101010101) (8 * i + 7)"
    using i by (simp add: of_le_bytes_int bit_word_of_int_iff flip: ones of_int_diff)
  moreover have "bit (NOT ?x) (8 * i + 7)"
    using i by (simp add: of_le_bytes_int bit_word_of_int_iff bit_not_iff)
  moreover have "bit (0x8080808080808080 :: u64) (8 * i + 7)"
    using high_bits [OF i(1)] .
  ultimately have "bit (HASZERO ?x) (8 * i + 7)" by (simp add: HASZERO_def bit_simps)
  then show ?thesis by auto
qed

section \<open>The copy is the byte-wise copy\<close>

text \<open>What the copy leaves behind: the first \<^verbatim>\<open>min n (strlen s)\<close> bytes and a terminator.\<close>

definition strlcpy_ref :: "u8 list \<Rightarrow> u8 list \<Rightarrow> nat \<Rightarrow> (nat \<times> u8 list) option" where
  "strlcpy_ref d s n =
     (let k = min n (length (cstr s)) in
      if k < length d then Some (k, take k s @ 0 # drop (Suc k) d) else None)"

text \<open>The copy in progress: \<^verbatim>\<open>i\<close> bytes are copied, none of them a terminator.\<close>

definition copying :: "u8 list \<Rightarrow> u8 list \<Rightarrow> nat \<Rightarrow> nat \<Rightarrow> bool" where
  "copying d s i n \<longleftrightarrow> i \<le> length d \<and> i \<le> length s \<and> 0 \<notin> set (take i s) \<and> (0 \<in> set s \<or> i + n \<le> length s)"

abbreviation copied :: "u8 list \<Rightarrow> u8 list \<Rightarrow> nat \<Rightarrow> u8 list" where
  "copied d s i \<equiv> take i s @ drop i d"

lemma copying_less:
  assumes "copying d s i n" "n \<noteq> 0"
  shows "i < length s"
proof (rule ccontr)
  assume "\<not> i < length s"
  then have "take i s = s" "i = length s" using assms by (auto simp: copying_def)
  then show False using assms by (auto simp: copying_def)
qed

lemma cstr_from:
  assumes "0 \<notin> set (take i s)"
  shows "cstr s = take i s @ cstr (drop i s)"
proof -
  have s: "s = take i s @ drop i s" by simp
  show ?thesis unfolding cstr_def by (subst s, subst takeWhile_append2) (use assms in auto)
qed

lemma copying_cstr:
  assumes "copying d s i n"
  shows "i \<le> length (cstr s)" "rd s i = Some 0 \<Longrightarrow> length (cstr s) = i"
proof -
  have c: "cstr s = take i s @ cstr (drop i s)"
    using assms cstr_from by (auto simp: copying_def)
  then show "i \<le> length (cstr s)" using assms by (simp add: copying_def)
  show "length (cstr s) = i" if "rd s i = Some 0"
  proof -
    have "drop i s = 0 # drop (Suc i) s"
      using that by (auto simp: rd_eq_Some_iff Cons_nth_drop_Suc [symmetric])
    then have "cstr (drop i s) = []" by (simp add: cstr_def)
    then show ?thesis using c assms by (simp add: copying_def)
  qed
qed

lemma copied_wr: "i < length d \<Longrightarrow> i \<le> length s \<Longrightarrow> wr (copied d s i) i c = Some (take i s @ c # drop (Suc i) d)"
  by (simp add: wr_def list_update_append Cons_nth_drop_Suc [symmetric])

lemma copied_step:
  assumes "rd s i = Some c" "i < length d"
  shows "wr (copied d s i) i c = Some (copied d s (Suc i))"
  using assms by (simp add: copied_wr rd_eq_Some_iff take_Suc_conv_app_nth)

lemma copying_step:
  assumes "copying d s i (Suc n)" "rd s i = Some c" "c \<noteq> 0" "i < length d"
  shows "copying d s (Suc i) n"
  using assms by (auto simp: copying_def rd_eq_Some_iff take_Suc_conv_app_nth)

lemma strlcpy_ref_stop:
  assumes "copying d s i n" "n = 0 \<or> rd s i = Some 0"
  shows "strlcpy_ref d s (i + n) = map_option (Pair i) (wr (copied d s i) i 0)"
proof -
  have "min (i + n) (length (cstr s)) = i"
    using copying_cstr [OF assms(1)] assms(2) by auto
  then show ?thesis
    using assms(1) by (auto simp: strlcpy_ref_def copied_wr copying_def wr_eq_None_iff)
qed

lemma strlcpy_ref_None:
  assumes "copying d s i n" "n \<noteq> 0" "length d \<le> i"
  shows "strlcpy_ref d s (i + n) = None"
  using copying_cstr(1) [OF assms(1)] assms by (auto simp: strlcpy_ref_def Let_def min_def)

lemma strlcpy_tail_ref:
  "copying d s i n \<Longrightarrow> strlcpy_end s (copied d s i, i, n) = strlcpy_ref d s (i + n)"
proof (induction n arbitrary: i)
  case 0
  then show ?case
    using strlcpy_ref_stop [OF 0] by (cases "wr (copied d s i) i 0") (auto simp: strlcpy_end_def)
next
  case (Suc n)
  obtain c where c: "rd s i = Some c"
    using copying_less [OF Suc.prems] by (auto simp: rd_def)
  consider "length d \<le> i" | "i < length d" "c = 0" | "i < length d" "c \<noteq> 0" by linarith
  then show ?case
  proof cases
    case 1
    then have "wr (copied d s i) i c = None" using Suc.prems by (auto simp: wr_eq_None_iff copying_def)
    then show ?thesis using strlcpy_ref_None [OF Suc.prems _ 1] c by (simp add: strlcpy_end_def)
  next
    case 2
    have "wr (take i s @ 0 # drop (Suc i) d) i 0 = Some (take i s @ 0 # drop (Suc i) d)"
      using 2 Suc.prems by (auto simp: wr_def copying_def list_update_append)
    then show ?thesis
      using strlcpy_ref_stop [OF Suc.prems] 2 c Suc.prems
      by (simp add: strlcpy_end_def copied_wr copying_def)
  next
    case 3
    then show ?thesis
      using Suc.IH [OF copying_step [OF Suc.prems c]] c
      by (simp add: strlcpy_end_def copied_step)
  qed
qed


lemma copied_word:
  assumes "rd_range s i 8 = Some w" "i + 8 \<le> length d"
  shows "wr_range (copied d s i) i w = Some (copied d s (i + 8))"
  using assms by (auto simp: wr_range_def rd_range_eq_Some_iff take_add add.commute)

lemma copying_word:
  assumes "copying d s i n" "8 \<le> n" "rd_range s i 8 = Some w" "0 \<notin> set w" "i + 8 \<le> length d"
  shows "copying d s (i + 8) (n - 8)"
  using assms by (auto simp: copying_def rd_range_eq_Some_iff take_add)

lemma strlcpy_words_ref:
  assumes "copying d s i n" "(sa + length s) mod 8 = 0" "(sa + i) mod 8 = 0"
  shows "strlcpy_words s (copied d s i) i n \<bind> strlcpy_end s = strlcpy_ref d s (i + n)"
  using assms(1,3)
proof (induction n arbitrary: i rule: less_induct)
  case (less n)
  show ?case
  proof (cases "n < 8")
    case True
    then show ?thesis using strlcpy_tail_ref [OF less.prems(1)] by (subst strlcpy_words.simps) simp
  next
    case False
    have "i < length s" using copying_less [OF less.prems(1)] False by simp
    then have "i + 8 \<le> length s" using assms(2) less.prems(2) by presburger
    then obtain w where w: "rd_range s i 8 = Some w" "length w = 8"
      by (auto simp: rd_range_def)
    consider (zero) "HASZERO (of_le_bytes w) \<noteq> 0" | (short) "HASZERO (of_le_bytes w) = 0" "length d < i + 8"
      | (step) "HASZERO (of_le_bytes w) = 0" "i + 8 \<le> length d" by linarith
    then show ?thesis
    proof cases
      case zero
      then show ?thesis using False w strlcpy_tail_ref [OF less.prems(1)] by (subst strlcpy_words.simps) simp
    next
      case short
      then have nz: "0 \<notin> set w" using HASZERO_zero_byte [OF w(2)] by blast
      have "0 \<notin> set (take (i + 8) s)"
        using nz less.prems(1) w(1) by (auto simp: copying_def rd_range_eq_Some_iff take_add)
      then have "i + 8 \<le> length (cstr s)"
        using \<open>i + 8 \<le> length s\<close> cstr_from [of "i + 8" s] by simp
      moreover have "wr_range (copied d s i) i w = None"
        using short w less.prems(1) by (auto simp: wr_range_def copying_def)
      ultimately show ?thesis using False w short
        by (subst strlcpy_words.simps) (auto simp: strlcpy_ref_def Let_def)
    next
      case step
      then have nz: "0 \<notin> set w" using HASZERO_zero_byte [OF w(2)] by blast
      have "(sa + (i + 8)) mod 8 = 0" using less.prems(2) by presburger
      then have "strlcpy_words s (copied d s (i + 8)) (i + 8) (n - 8) \<bind> strlcpy_end s = strlcpy_ref d s (i + 8 + (n - 8))"
        using False step by (intro less.IH copying_word [OF less.prems(1) _ w(1) nz]) auto
      then show ?thesis using False w step copied_word [OF w(1)]
        by (subst strlcpy_words.simps) simp
    qed
  qed
qed


definition strlcpy_mid :: "u8 list \<Rightarrow> u8 list \<times> nat \<times> nat \<Rightarrow> (u8 list \<times> nat \<times> nat) option" where
  "strlcpy_mid s = (\<lambda>(d, i, n).
     if n \<noteq> 0 then do {
       c \<leftarrow> rd s i;
       if c \<noteq> 0 then strlcpy_words s d i n else Some (d, i, n)
     } else Some (d, i, n))"

lemma strlcpy_mid_ref:
  assumes "copying d s i n" "(sa + length s) mod 8 = 0" "n = 0 \<or> (sa + i) mod 8 = 0"
  shows "strlcpy_mid s (copied d s i, i, n) \<bind> strlcpy_end s = strlcpy_ref d s (i + n)"
proof (cases "n = 0")
  case False
  then obtain c where "rd s i = Some c"
    using copying_less [OF assms(1)] by (auto simp: rd_def)
  then show ?thesis
    using False assms strlcpy_words_ref [OF assms(1,2)] strlcpy_tail_ref [OF assms(1)]
    by (auto simp: strlcpy_mid_def)
qed (use strlcpy_tail_ref [OF assms(1)] in \<open>simp add: strlcpy_mid_def\<close>)

lemma strlcpy_head_ref:
  assumes "(sa + length s) mod 8 = 0"
  shows "copying d s i n \<Longrightarrow>
    strlcpy_head sa s (copied d s i) i n \<bind> (\<lambda>st. strlcpy_mid s st \<bind> strlcpy_end s) = strlcpy_ref d s (i + n)"
proof (induction n arbitrary: i)
  case 0
  then show ?case using strlcpy_mid_ref [OF 0 assms] by simp
next
  case (Suc n)
  obtain c where c: "rd s i = Some c"
    using copying_less [OF Suc.prems] by (auto simp: rd_def)
  consider "(sa + i) mod 8 = 0" | "(sa + i) mod 8 \<noteq> 0" "length d \<le> i"
    | "(sa + i) mod 8 \<noteq> 0" "i < length d" "c = 0" | "(sa + i) mod 8 \<noteq> 0" "i < length d" "c \<noteq> 0" by linarith
  then show ?case
  proof cases
    case 1
    then show ?thesis using strlcpy_mid_ref [OF Suc.prems assms] by (simp add: PTRALIGNOFFSET_def)
  next
    case 2
    then have "wr (copied d s i) i c = None" using Suc.prems by (auto simp: wr_eq_None_iff copying_def)
    then show ?thesis using 2 strlcpy_ref_None [OF Suc.prems] c by (simp add: PTRALIGNOFFSET_def)
  next
    case 3
    have "wr (take i s @ 0 # drop (Suc i) d) i 0 = Some (take i s @ 0 # drop (Suc i) d)"
      using 3 Suc.prems by (auto simp: wr_def copying_def list_update_append)
    then show ?thesis
      using strlcpy_ref_stop [OF Suc.prems] 3 c Suc.prems
      by (simp add: strlcpy_mid_def strlcpy_end_def copied_wr copying_def PTRALIGNOFFSET_def)
  next
    case 4
    then show ?thesis
      using Suc.IH [OF copying_step [OF Suc.prems c]] c
      by (simp add: copied_step PTRALIGNOFFSET_def)
  qed
qed

text \<open>C31. For every pair of alignments the copy by words leaves the first \<^verbatim>\<open>min n (strlen s)\<close> bytes and a
  terminator and returns their number, exactly like the byte-wise copy, provided the words it reads
  are readable.  A destination of exactly \<^verbatim>\<open>n\<close> bytes is overrun when the source has \<^verbatim>\<open>n\<close> characters or
  more.\<close>

theorem strlcpy_correct:
  assumes "0 \<in> set s \<or> n \<le> length s" "(sa + length s) mod 8 = 0 \<or> sa mod 8 \<noteq> da mod 8"
  shows "strlcpy da sa d s n =
    (let k = min n (length (cstr s)) in
     if k < length d then Some (k, take k s @ 0 # drop (Suc k) d) else None)"
proof -
  have c: "copying d s 0 n" using assms(1) by (simp add: copying_def)
  have "strlcpy da sa d s n = strlcpy_ref d s n"
  proof (cases "sa mod 8 = da mod 8")
    case True
    then have "strlcpy_head sa s d 0 n \<bind> (\<lambda>st. strlcpy_mid s st \<bind> strlcpy_end s) = strlcpy_ref d s n"
      using strlcpy_head_ref [OF _ c] assms(2) by simp
    then show ?thesis using True
      by (simp add: strlcpy_def PTRALIGNOFFSET_def strlcpy_mid_def [abs_def] bind_assoc)
  next
    case False
    then show ?thesis using strlcpy_tail_ref [OF c] by (simp add: strlcpy_def PTRALIGNOFFSET_def)
  qed
  then show ?thesis by (simp add: strlcpy_ref_def)
qed

theorem strlcpy_correct_witness:
  "strlcpy 16 32 (replicate 3 7) (str ''abcd'' @ [0, 0, 0, 0]) 2 = Some (2, str ''ab'' @ [0]) \<and>
   strlcpy 16 32 (replicate 2 7) (str ''abcd'' @ [0, 0, 0, 0]) 2 = None"
  using strlcpy_correct [of "str ''abcd'' @ [0, 0, 0, 0]" 2 32 16]
  by (simp add: cstr_def)

text \<open>The word loop reads whole words: a source whose object ends inside a word is read past its end.\<close>

lemma strlcpy_overread:
  assumes "sa mod 8 = 0" "da mod 8 = 0" "8 \<le> n" "length s < 8" "rd s 0 = Some c" "c \<noteq> 0"
  shows "strlcpy da sa d s n = None"
proof -
  have "strlcpy_head sa s d 0 n = Some (d, 0, n)"
    using assms by (cases n) (auto simp: PTRALIGNOFFSET_def)
  moreover have "strlcpy_words s d 0 n = None"
    using assms by (subst strlcpy_words.simps) (simp add: rd_range_def)
  ultimately show ?thesis using assms by (simp add: strlcpy_def PTRALIGNOFFSET_def)
qed

section \<open>Which fields of the status line are used\<close>

text \<open>A status line: its fields, each preceded by a space except the first.\<close>

definition stat_line :: "u8 list list \<Rightarrow> u8 list" where
  "stat_line fs = concat (map (\<lambda>f. 32 # f) fs)"

definition stat_number :: "u8 list \<Rightarrow> bool" where
  "stat_number f \<longleftrightarrow> f \<noteq> [] \<and> list_all isdigit f"

lemma stat_line_simps [simp]: "stat_line [] = []" "stat_line (f # fs) = 32 # f @ stat_line fs"
  by (simp_all add: stat_line_def)

lemma stat_line_append: "stat_line (fs @ gs) = stat_line fs @ stat_line gs"
  by (simp add: stat_line_def)

lemma next_space_from:
  assumes "32 \<notin> set f"
  shows "next_space (pre @ f @ 32 # rest) (length pre) = Some (length pre + length f)"
proof -
  let ?t = "pre @ f @ 32 # rest"
  have "find (\<lambda>i. ?t ! i = 32) [length pre..<length ?t] = Some (length pre + length f)"
    unfolding find_Some_iff using assms
    by (intro exI [of _ "length f"]) (auto simp: nth_append in_set_conv_nth)
  then show ?thesis by (simp add: next_space_def)
qed

lemma SKIPFIELDS_from:
  assumes "\<forall>f\<in>set fs. 32 \<notin> set f" "k + n < length fs"
  shows "SKIPFIELDS (pre @ stat_line fs @ rest) n (length pre + length (stat_line (take k fs))) =
    Some (length pre + length (stat_line (take (k + n) fs)))"
  using assms(2)
proof (induction n arbitrary: k)
  case (Suc n)
  define g where "g = drop (Suc (Suc k)) fs"
  have g: "drop k fs = fs ! k # fs ! Suc k # g"
    unfolding g_def using Suc.prems by (simp add: Cons_nth_drop_Suc)
  have "stat_line fs = stat_line (take k fs) @ stat_line (drop k fs)"
    by (simp flip: stat_line_append)
  then have t: "pre @ stat_line fs @ rest =
      (pre @ stat_line (take k fs) @ [32]) @ fs ! k @ 32 # (fs ! Suc k @ stat_line g @ rest)"
    by (simp add: g)
  have "32 \<notin> set (fs ! k)" using assms(1) Suc.prems by simp
  then have "next_space (pre @ stat_line fs @ rest) (Suc (length pre + length (stat_line (take k fs)))) =
      Some (length pre + length (stat_line (take (Suc k) fs)))"
    using next_space_from [of "fs ! k" "pre @ stat_line (take k fs) @ [32]" "fs ! Suc k @ stat_line g @ rest"] Suc.prems
    unfolding t by (simp add: take_Suc_conv_app_nth stat_line_append)
  then show ?case using Suc.IH [of "Suc k"] Suc.prems by simp
qed simp

lemma isdigit_facts: "isdigit c \<Longrightarrow> \<not> isspace c \<and> c \<noteq> 43 \<and> c \<noteq> 45"
  by (auto simp: isdigit_def isspace_def)

lemma scan_lu_number:
  assumes "stat_number f"
  shows "scan_lu (32 # f @ 32 # rest) = Some (strtoull f, 32 # rest)"
proof -
  obtain c r where f: "f = c # r" "isdigit c" "list_all isdigit r"
    using assms by (cases f) (auto simp: stat_number_def)
  have sp: "isspace 32" "\<not> isdigit 32" by (simp_all add: isspace_def isdigit_def)
  have tw: "takeWhile isdigit (f @ 32 # x) = f" "takeWhile isdigit f = f" "dropWhile isdigit (f @ 32 # x) = 32 # x" for x
    using f sp by (auto simp: list_all_iff takeWhile_append2 dropWhile_append2 takeWhile_eq_all_conv)
  have "signed_value (f @ 32 # rest) = signed_value f"
    using isdigit_facts [OF f(2)] tw f(1) by (auto simp: signed_value_def digits_value_def)
  then have "strtoull (f @ 32 # rest) = strtoull f" by (simp add: strtoull_def)
  then show ?thesis using isdigit_facts [OF f(2)] tw f(1) sp by (simp add: scan_lu_def Let_def)
qed


lemma drop_stat_line:
  "drop (length pre + length (stat_line (take k fs))) (pre @ stat_line fs @ rest) = stat_line (drop k fs) @ rest"
proof -
  have "stat_line fs = stat_line (take k fs) @ stat_line (drop k fs)" by (simp flip: stat_line_append)
  then show ?thesis by simp
qed

lemma sscanf_lu_number:
  assumes "stat_number f"
  shows "sscanf_lu (keep # fmt) (32 # f @ 32 # r) = (if keep then [strtoull f] else []) @ sscanf_lu fmt (32 # r)"
  by (simp add: scan_lu_number [OF assms])

text \<open>For a status line whose fields hold no spaces, the map passed to the kernel has the fields 26 to 28,
  45 to 47, 50 and 51 of the line (field \<^verbatim>\<open>n\<close> is \<^verbatim>\<open>fs ! (n - 2)\<close>) and the new argument range.\<close>

theorem NiceName_fields:
  assumes "32 \<notin> set pre" "\<forall>f\<in>set fs. 32 \<notin> set f" "51 \<le> length fs"
    "list_all stat_number (drop 24 fs)"
  shows "NiceName (pre @ stat_line fs @ rest) name addr brk_val =
    Some \<lparr>start_code = strtoull (fs ! 24), end_code = strtoull (fs ! 25), start_stack = strtoull (fs ! 26),
      start_data = strtoull (fs ! 43), end_data = strtoull (fs ! 44), start_brk = strtoull (fs ! 45),
      mm_brk = brk_val, arg_start = addr, arg_end = addr + of_nat (length name) + 1,
      env_start = strtoull (fs ! 48), env_end = strtoull (fs ! 49)\<rparr>"
proof -
  let ?t = "pre @ stat_line fs @ rest"
  have num: "stat_number (fs ! i)" if "24 \<le> i" "i < 51" for i
    using assms(3,4) that by (auto simp: list_all_length dest: spec [of _ "i - 24"])
  have p0: "next_space ?t 0 = Some (length pre)"
  proof -
    obtain f gs where "fs = f # gs" using assms(3) by (cases fs) auto
    then show ?thesis using next_space_from [OF assms(1), of "[]" "f @ stat_line gs @ rest"] by simp
  qed
  have p1: "SKIPFIELDS ?t 24 (length pre) = Some (length pre + length (stat_line (take 24 fs)))"
    using SKIPFIELDS_from [OF assms(2), of 0 24 pre rest] assms(3) by simp
  have p2: "SKIPFIELDS ?t 19 (length pre + length (stat_line (take 24 fs))) = Some (length pre + length (stat_line (take 43 fs)))"
    using SKIPFIELDS_from [OF assms(2), of 24 19 pre rest] assms(3) by simp
  have d: "drop i fs = fs ! i # drop (Suc i) fs" if "i < 51" for i
    using assms(3) that by (simp add: Cons_nth_drop_Suc)
  have s1: "sscanf_lu [True, True, True] (drop (length pre + length (stat_line (take 24 fs))) ?t) =
      [strtoull (fs ! 24), strtoull (fs ! 25), strtoull (fs ! 26)]"
    unfolding drop_stat_line by (simp add: d num sscanf_lu_number del: sscanf_lu.simps(2))
  have s2: "sscanf_lu [True, True, True, False, False, True, True] (drop (length pre + length (stat_line (take 43 fs))) ?t) =
      [strtoull (fs ! 43), strtoull (fs ! 44), strtoull (fs ! 45), strtoull (fs ! 48), strtoull (fs ! 49)]"
    unfolding drop_stat_line by (simp add: d num sscanf_lu_number del: sscanf_lu.simps(2))
  show ?thesis
    unfolding NiceName_def by (simp only: p0 p1 p2 s1 s2 bind.bind_lunit Let_def) simp
qed

definition sample_stat :: "u8 list list" where
  "sample_stat = str ''(cat)'' # str ''R'' # replicate 50 (str ''7'')"

theorem NiceName_fields_witness:
  "start_code (the (NiceName (str ''41'' @ stat_line sample_stat @ [10]) (str ''d'') 100 5)) = 7"
proof -
  have "\<forall>f\<in>set sample_stat. 32 \<notin> set f" "list_all stat_number (drop 24 sample_stat)" "51 \<le> length sample_stat"
    by (auto simp: sample_stat_def stat_number_def isdigit_def list_all_iff)
  moreover have "strtoull (sample_stat ! 24) = 7"
    by (simp add: sample_stat_def strtoull_def signed_value_def digits_value_def isdigit_def isspace_def)
  ultimately show ?thesis
    using NiceName_fields [of "str ''41''" sample_stat "[10]" "str ''d''" 100 5] by simp
qed

section \<open>Executable path and daemon\<close>

text \<open>A path of 1024 bytes or more, and a failing \<^verbatim>\<open>readlink\<close>, make the terminator go outside the array.\<close>

lemma WhichExe_result:
  assumes "length buf = 1024" "rd buf 0 = Some 0"
  shows "WhichExe link buf =
    (case link of None \<Rightarrow> None
     | Some t \<Rightarrow> if length t < 1024 then Some (t @ 0 # drop (Suc (length t)) buf) else None)"
proof (cases link)
  case (Some t)
  show ?thesis
  proof (cases "length t < 1024")
    case True
    then have "wr_range buf 0 t = Some (t @ buf ! length t # drop (Suc (length t)) buf)"
      using assms(1) by (simp add: wr_range_def Cons_nth_drop_Suc)
    then show ?thesis using Some True assms by (simp add: WhichExe_def mem_simps)
  next
    case False
    then show ?thesis using Some assms by (simp add: WhichExe_def wr_range_def wr_def)
  qed
qed (use assms in \<open>simp add: WhichExe_def\<close>)

text \<open>The process that starts the daemon keeps exactly the write end open; the daemon keeps neither end.\<close>

lemma Daemon_run_ends:
  assumes "fd_read p \<noteq> -1" "fd_write p \<noteq> -1"
  shows "fork1 \<noteq> -1 \<Longrightarrow> fork1 \<noteq> 0 \<Longrightarrow> dr_closed (Daemon_run p fork1 fork2 h) = [fd_read p]"
    and "dr_closed (Daemon_run p (-1) fork2 h) = [fd_read p, fd_write p]"
    and "dr_closed (Daemon_run p 0 0 h) = [fd_write p, fd_read p]"
  using assms by (simp_all add: Daemon_run_def closeReadEnd_def closeWriteEnd_def Pipe_destroy_def giveupOwnership_def Let_def)

end
