(* ===== verification/Reactor.thy ===== *)
theory Reactor
  imports MonitorUtil
begin

text \<open>
  The event loop of \<^verbatim>\<open>src/socket/monitor\<close>: descriptors and \<^verbatim>\<open>util::Close\<close> (\<^verbatim>\<open>fs.cpp\<close>), the end points of
  \<^verbatim>\<open>endpoint.h\<close>, \<^verbatim>\<open>signal_fd.cpp\<close> and \<^verbatim>\<open>sock.cpp\<close>, the epoll wrapper \<^verbatim>\<open>Poll\<close> with its entries, the passing
  of descriptors, and the callbacks of \<^verbatim>\<open>callback.cpp\<close>.

  The kernel is a record of the open descriptors, the interest list of the epoll instance, and the
  calls whose order matters.  \<^verbatim>\<open>Poll\<close> extends it, so that every operation is a function on one state.  A
  callback is a value of a type of the client; the client's handler says what calling it does.
\<close>

unbundle bit_operations_syntax

section \<open>Descriptors\<close>

record cmsghdr =
  cmsg_len :: nat
  cmsg_level :: int
  cmsg_type :: int
  cmsg_data :: int

record Kernel =
  k_open :: "int list"
  k_epoll :: "int list"
  k_closed :: "int list"
  k_broken :: "int list"
  k_sent :: "(int \<times> cmsghdr) list"
  k_written :: "(int \<times> u8 list) list"

text \<open>The calls \<^verbatim>\<open>close\<close>, \<^verbatim>\<open>epoll_ctl\<close> and the ones that return a new descriptor.\<close>

definition sys_close :: "int \<Rightarrow> 'z Kernel_scheme \<Rightarrow> 'z Kernel_scheme" where
  "sys_close fd k =
     (if fd \<in> set (k_open k)
      then k\<lparr>k_open := remove1 fd (k_open k), k_epoll := remove1 fd (k_epoll k), k_closed := k_closed k @ [fd]\<rparr>
      else k)"

definition sys_open :: "int \<Rightarrow> 'z Kernel_scheme \<Rightarrow> 'z Kernel_scheme" where
  "sys_open fd k = (if fd = -1 then k else k\<lparr>k_open := fd # k_open k\<rparr>)"

definition sys_write :: "int \<Rightarrow> u8 list \<Rightarrow> 'z Kernel_scheme \<Rightarrow> 'z Kernel_scheme" where
  "sys_write fd bs k = (if fd \<in> set (k_open k) then k\<lparr>k_written := k_written k @ [(fd, bs)]\<rparr> else k)"

definition ValidFd :: "int \<Rightarrow> 'z Kernel_scheme \<Rightarrow> bool" where
  "ValidFd fd k \<longleftrightarrow> fd \<in> set (k_open k)"

text \<open>\<^verbatim>\<open>util::Close\<close> also stores -1 through its reference argument; the callers do that.\<close>

definition Close :: "int \<Rightarrow> 'z Kernel_scheme \<Rightarrow> 'z Kernel_scheme" where
  "Close fd k = (if fd \<noteq> -1 \<and> ValidFd fd k then sys_close fd k else k)"

section \<open>End points\<close>

datatype ep_state = NOTHINGNESS | INITIALIZED | TRANSFERRED

text \<open>\<open>ep_cleanup\<close> says whether the deferred \<^verbatim>\<open>Close(fd_)\<close> is armed.\<close>

record EndPoint =
  ep_fd :: int
  ep_st :: ep_state
  ep_cleanup :: bool

definition EndPoint_new :: EndPoint where
  "EndPoint_new = \<lparr>ep_fd = -1, ep_st = NOTHINGNESS, ep_cleanup = False\<rparr>"

definition transferOwnership :: "EndPoint \<Rightarrow> int \<times> EndPoint" where
  "transferOwnership e = (ep_fd e, e\<lparr>ep_st := TRANSFERRED, ep_cleanup := False\<rparr>)"

definition ep_initialize :: "EndPoint \<Rightarrow> EndPoint" where
  "ep_initialize e = e\<lparr>ep_st := INITIALIZED\<rparr>"

definition ep_valid :: "EndPoint \<Rightarrow> bool" where
  "ep_valid e \<longleftrightarrow> ep_st e = INITIALIZED"

definition ep_trigger :: "EndPoint \<times> 'z Kernel_scheme \<Rightarrow> EndPoint \<times> 'z Kernel_scheme" where
  "ep_trigger = (\<lambda>(e, k). if ep_cleanup e then (e\<lparr>ep_fd := -1, ep_cleanup := False\<rparr>, Close (ep_fd e) k) else (e, k))"

text \<open>The answers of the system calls a constructor makes.\<close>

record sock_sys =
  ss_remove :: bool
  ss_socket :: int
  ss_setsockopt :: bool
  ss_aton :: bool
  ss_bind :: bool
  ss_listen :: bool
  ss_connect :: bool

definition sun_path_size :: nat where
  "sun_path_size = 108"

definition UnixServer :: "sock_sys \<Rightarrow> u8 list \<Rightarrow> 'z Kernel_scheme \<Rightarrow> (EndPoint \<times> 'z Kernel_scheme) option" where
  "UnixServer sys path k =
     (let e = EndPoint_new\<lparr>ep_cleanup := True\<rparr> in
      if \<not> ss_remove sys then Some (e, k)
      else if sun_path_size \<le> length path then None
      else
        (let e = e\<lparr>ep_fd := ss_socket sys\<rparr>; k = sys_open (ss_socket sys) k in
         if \<not> ss_bind sys then Some (ep_trigger (e, k))
         else if \<not> ss_listen sys then Some (ep_trigger (e, k))
         else Some (ep_initialize e, k)))"

record tcp_config =
  tc_reuseaddr :: bool
  tc_reuseport :: bool

definition TcpipServer_initialize ::
  "sock_sys \<Rightarrow> tcp_config \<Rightarrow> EndPoint \<Rightarrow> 'z Kernel_scheme \<Rightarrow> EndPoint \<times> 'z Kernel_scheme" where
  "TcpipServer_initialize sys cfg e k =
     (if ep_st e \<noteq> NOTHINGNESS then (e, k)
      else
        (let e = e\<lparr>ep_cleanup := True, ep_fd := ss_socket sys\<rparr>; k = sys_open (ss_socket sys) k in
         if tc_reuseaddr cfg \<and> \<not> ss_setsockopt sys then (e, k)
         else if tc_reuseport cfg \<and> \<not> ss_setsockopt sys then (e, k)
         else if \<not> ss_bind sys then (e, k)
         else if \<not> ss_listen sys then (e, k)
         else (e\<lparr>ep_st := INITIALIZED\<rparr>, k)))"

definition TcpipServer :: "sock_sys \<Rightarrow> bool \<Rightarrow> 'z Kernel_scheme \<Rightarrow> EndPoint \<times> 'z Kernel_scheme" where
  "TcpipServer sys lazy k =
     (if lazy then (EndPoint_new, k)
      else TcpipServer_initialize sys \<lparr>tc_reuseaddr = True, tc_reuseport = False\<rparr> EndPoint_new k)"

definition enableSharePort :: "tcp_config \<Rightarrow> tcp_config" where
  "enableSharePort c = c\<lparr>tc_reuseport := True\<rparr>"

text \<open>The clients; \<open>client_timeout\<close> is the \<^verbatim>\<open>timeval\<close> they set, in seconds and microseconds.\<close>

definition client_timeout :: "int \<times> int" where
  "client_timeout = (2000, 0)"

definition UnixClient :: "sock_sys \<Rightarrow> u8 list \<Rightarrow> 'z Kernel_scheme \<Rightarrow> (EndPoint \<times> 'z Kernel_scheme) option" where
  "UnixClient sys path k =
     (let e = EndPoint_new\<lparr>ep_cleanup := True, ep_fd := ss_socket sys\<rparr>; k = sys_open (ss_socket sys) k in
      if sun_path_size \<le> length path then None
      else if fst client_timeout > 0 \<and> \<not> ss_setsockopt sys then Some (e, k)
      else if \<not> ss_connect sys then Some (e, k)
      else Some (ep_initialize e, k))"

definition TcpipClient :: "sock_sys \<Rightarrow> 'z Kernel_scheme \<Rightarrow> EndPoint \<times> 'z Kernel_scheme" where
  "TcpipClient sys k =
     (let e = EndPoint_new\<lparr>ep_cleanup := True, ep_fd := ss_socket sys\<rparr>; k = sys_open (ss_socket sys) k in
      if \<not> ss_aton sys then (e, k)
      else if fst client_timeout > 0 \<and> \<not> ss_setsockopt sys then (e, k)
      else if \<not> ss_connect sys then (e, k)
      else (ep_initialize e, k))"

definition SignalFd :: "int \<Rightarrow> 'z Kernel_scheme \<Rightarrow> EndPoint \<times> 'z Kernel_scheme" where
  "SignalFd fd k =
     (let e = EndPoint_new\<lparr>ep_fd := fd\<rparr>;
          e = (if fd \<noteq> -1 then e\<lparr>ep_cleanup := True\<rparr> else e) in
      (ep_initialize e, sys_open fd k))"

section \<open>Passing descriptors\<close>

definition CMSG_LEN :: "nat \<Rightarrow> nat" where
  "CMSG_LEN n = 16 + n"

definition SOL_SOCKET :: int where
  "SOL_SOCKET = 1"

definition SCM_RIGHTS :: int where
  "SCM_RIGHTS = 1"

definition fd_header :: "int \<Rightarrow> cmsghdr" where
  "fd_header fd = \<lparr>cmsg_len = CMSG_LEN 4, cmsg_level = SOL_SOCKET, cmsg_type = SCM_RIGHTS, cmsg_data = fd\<rparr>"

text \<open>\<^verbatim>\<open>sendmsg\<close> fails on a closed descriptor and on a socket whose peer is gone.\<close>

definition SendFd :: "int \<Rightarrow> int \<Rightarrow> 'z Kernel_scheme \<Rightarrow> bool \<times> 'z Kernel_scheme" where
  "SendFd sock fd k =
     (if sock \<in> set (k_open k) \<and> fd \<in> set (k_open k) \<and> sock \<notin> set (k_broken k)
      then (True, k\<lparr>k_sent := k_sent k @ [(sock, fd_header fd)]\<rparr>)
      else (False, k))"

text \<open>
  The argument is what \<^verbatim>\<open>recvmsg\<close> delivers: nothing when it fails, else the first control message, if
  there is one.  The build defines \<^verbatim>\<open>NDEBUG\<close>, so the assertion on the message is not evaluated; without
  a message the header pointer is null.
\<close>

definition RecvFd :: "cmsghdr option option \<Rightarrow> int option" where
  "RecvFd msg =
     (case msg of
        None \<Rightarrow> Some (-1)
      | Some None \<Rightarrow> None
      | Some (Some hdr) \<Rightarrow> Some (cmsg_data hdr))"

section \<open>Entries\<close>

definition EPOLLIN :: u32 where
  "EPOLLIN = 1"

definition EPOLLRDHUP :: u32 where
  "EPOLLRDHUP = 0x2000"

text \<open>
  \<open>e_close\<close> is \<^term>\<open>None\<close> for an empty function and \<^term>\<open>Some u\<close> for the hook of \<^verbatim>\<open>registerEntry\<close> around the
  callback \<open>u\<close> of the user, itself optional; \<open>e_cleanup\<close> is the descriptor that the deferred
  \<^verbatim>\<open>Unregister\<close> removes.
\<close>

record 'cb Entry =
  e_fd :: int
  e_read :: "'cb option"
  e_close :: "'cb option option"
  e_cleanup :: "int option"

definition Entry_default :: "'cb Entry" where
  "Entry_default = \<lparr>e_fd = -1, e_read = None, e_close = None, e_cleanup = None\<rparr>"

definition Register :: "int \<Rightarrow> 'z Kernel_scheme \<Rightarrow> int \<times> 'z Kernel_scheme" where
  "Register fd k =
     (if fd \<in> set (k_open k) \<and> fd \<notin> set (k_epoll k) then (0, k\<lparr>k_epoll := fd # k_epoll k\<rparr>) else (-1, k))"

definition Unregister :: "int \<Rightarrow> 'z Kernel_scheme \<Rightarrow> int \<times> 'z Kernel_scheme" where
  "Unregister fd k =
     (if fd \<in> set (k_open k) \<and> fd \<in> set (k_epoll k) then (0, k\<lparr>k_epoll := remove1 fd (k_epoll k)\<rparr>) else (-1, k))"

definition Entry_new :: "int \<Rightarrow> 'z Kernel_scheme \<Rightarrow> 'cb Entry \<times> 'z Kernel_scheme" where
  "Entry_new fd k =
     (case Register fd k of (rc, k) \<Rightarrow>
        (Entry_default\<lparr>e_fd := fd, e_cleanup := (if rc = 0 then Some fd else None)\<rparr>, k))"

definition Entry_destroy :: "'cb Entry \<Rightarrow> 'z Kernel_scheme \<Rightarrow> 'z Kernel_scheme" where
  "Entry_destroy e k =
     (let k = (case e_cleanup e of None \<Rightarrow> k | Some fd \<Rightarrow> snd (Unregister fd k)) in Close (e_fd e) k)"

text \<open>The move assignment swaps; the result is the new target and the new source.\<close>

definition Entry_move_assign :: "'cb Entry \<Rightarrow> 'cb Entry \<Rightarrow> 'cb Entry \<times> 'cb Entry" where
  "Entry_move_assign this e = (e, this)"

definition Entry_giveupOwnership :: "'cb Entry \<Rightarrow> 'cb Entry" where
  "Entry_giveupOwnership e = e\<lparr>e_fd := -1\<rparr>"

datatype 'cb action = Nothing | OnRead 'cb | OnClose "'cb option"

definition Entry_trigger :: "int \<Rightarrow> u32 \<Rightarrow> 'cb Entry \<Rightarrow> bool \<times> 'cb action" where
  "Entry_trigger fd events e =
     (if fd = e_fd e then
        (True,
         if events AND EPOLLRDHUP \<noteq> 0 \<and> e_close e \<noteq> None then OnClose (the (e_close e))
         else if events AND EPOLLIN \<noteq> 0 \<and> e_read e \<noteq> None then OnRead (the (e_read e))
         else Nothing)
      else (False, Nothing))"

section \<open>Poll\<close>

record 'cb Poll = Kernel +
  entry_map :: "(int \<times> 'cb Entry) list"

text \<open>\<open>entry_at\<close> is the \<^verbatim>\<open>operator[]\<close> of the map: a missing entry is default constructed.\<close>

definition entry_at :: "int \<Rightarrow> (int \<times> 'cb Entry) list \<Rightarrow> 'cb Entry" where
  "entry_at fd m = (case map_of m fd of None \<Rightarrow> Entry_default | Some e \<Rightarrow> e)"

definition entry_without :: "int \<Rightarrow> (int \<times> 'cb Entry) list \<Rightarrow> (int \<times> 'cb Entry) list" where
  "entry_without fd m = filter (\<lambda>p. fst p \<noteq> fd) m"

definition registerEntry :: "int \<Rightarrow> 'cb option \<Rightarrow> 'cb option \<Rightarrow> ('cb, 'z) Poll_scheme \<Rightarrow> ('cb, 'z) Poll_scheme" where
  "registerEntry fd on_read on_close p =
     (case Entry_new fd p of (entry, p) \<Rightarrow>
        let entry = entry\<lparr>e_read := on_read, e_close := Some on_close\<rparr> in
        case Entry_move_assign (entry_at fd (entry_map p)) entry of (slot, entry) \<Rightarrow>
          let p = p\<lparr>entry_map := (fd, slot) # entry_without fd (entry_map p)\<rparr> in
          Entry_destroy entry p)"

definition poll_erase :: "int \<Rightarrow> ('cb, 'z) Poll_scheme \<Rightarrow> ('cb, 'z) Poll_scheme" where
  "poll_erase fd p =
     (case map_of (entry_map p) fd of
        None \<Rightarrow> p
      | Some e \<Rightarrow> Entry_destroy e (p\<lparr>entry_map := entry_without fd (entry_map p)\<rparr>))"

text \<open>\<^verbatim>\<open>remove(fd, &entry)\<close> with a default constructed \<^verbatim>\<open>entry\<close>.\<close>

definition poll_take :: "int \<Rightarrow> ('cb, 'z) Poll_scheme \<Rightarrow> 'cb Entry \<times> ('cb, 'z) Poll_scheme" where
  "poll_take fd p =
     (case Entry_move_assign Entry_default (entry_at fd (entry_map p)) of (entry, slot) \<Rightarrow>
        (entry, poll_erase fd (p\<lparr>entry_map := (fd, slot) # entry_without fd (entry_map p)\<rparr>)))"

text \<open>
  One event: the entries are searched for the descriptor and the callback is run by \<open>handle\<close>, which also
  says whether it threw the quit exception.  The hook erases the entry after the user's callback.
\<close>

definition poll_event ::
  "('cb \<Rightarrow> int \<Rightarrow> ('cb, 'z) Poll_scheme \<Rightarrow> (bool \<times> ('cb, 'z) Poll_scheme) option) \<Rightarrow> int \<times> u32 \<Rightarrow>
   ('cb, 'z) Poll_scheme \<Rightarrow> (bool \<times> ('cb, 'z) Poll_scheme) option" where
  "poll_event handle ev p =
     (case find (\<lambda>x. fst (Entry_trigger (fst ev) (snd ev) (snd x))) (entry_map p) of
        None \<Rightarrow> Some (False, p)
      | Some x \<Rightarrow>
          (case snd (Entry_trigger (fst ev) (snd ev) (snd x)) of
             Nothing \<Rightarrow> Some (False, p)
           | OnRead cb \<Rightarrow> handle cb (fst ev) p
           | OnClose None \<Rightarrow> Some (False, poll_erase (fst ev) p)
           | OnClose (Some cb) \<Rightarrow> do {
               (q, p) \<leftarrow> handle cb (fst ev) p;
               Some (q, if q then p else poll_erase (fst ev) p)
             }))"

fun poll_events ::
  "('cb \<Rightarrow> int \<Rightarrow> ('cb, 'z) Poll_scheme \<Rightarrow> (bool \<times> ('cb, 'z) Poll_scheme) option) \<Rightarrow> (int \<times> u32) list \<Rightarrow>
   ('cb, 'z) Poll_scheme \<Rightarrow> (bool \<times> ('cb, 'z) Poll_scheme) option" where
  "poll_events handle [] p = Some (False, p)"
| "poll_events handle (ev # evs) p = do {
     (q, p) \<leftarrow> poll_event handle ev p;
     if q then Some (True, p) else poll_events handle evs p
   }"

datatype wait_result = Events "(int \<times> u32) list" | Interrupted | WaitFailed

fun poll_rounds ::
  "('cb \<Rightarrow> int \<Rightarrow> ('cb, 'z) Poll_scheme \<Rightarrow> (bool \<times> ('cb, 'z) Poll_scheme) option) \<Rightarrow> wait_result list \<Rightarrow>
   ('cb, 'z) Poll_scheme \<Rightarrow> ('cb, 'z) Poll_scheme option" where
  "poll_rounds handle [] p = Some p"
| "poll_rounds handle (Interrupted # ws) p = poll_rounds handle ws p"
| "poll_rounds handle (WaitFailed # ws) p = Some p"
| "poll_rounds handle (Events evs # ws) p = do {
     (q, p) \<leftarrow> poll_events handle evs p;
     if q then Some p else poll_rounds handle ws p
   }"

definition Poll_loop ::
  "('cb \<Rightarrow> int \<Rightarrow> ('cb, 'z) Poll_scheme \<Rightarrow> (bool \<times> ('cb, 'z) Poll_scheme) option) \<Rightarrow> int \<Rightarrow> 'cb \<Rightarrow> wait_result list \<Rightarrow>
   ('cb, 'z) Poll_scheme \<Rightarrow> ('cb, 'z) Poll_scheme option" where
  "Poll_loop handle terminator quit ws p = poll_rounds handle ws (registerEntry terminator (Some quit) None p)"

section \<open>Callbacks\<close>

text \<open>\<open>got\<close> is what \<^verbatim>\<open>read\<close> returns: \<^term>\<open>None\<close> for -1, at most 1024 bytes otherwise.\<close>

definition Echo :: "int \<Rightarrow> u8 list option \<Rightarrow> 'z Kernel_scheme \<Rightarrow> 'z Kernel_scheme option" where
  "Echo fd got k =
     (case got of
        None \<Rightarrow> Some k
      | Some bs \<Rightarrow>
          if bs = [] then Some k
          else do {
            buf \<leftarrow> wr_range (replicate 1024 0) 0 bs;
            buf \<leftarrow> wr buf (length bs) 0;
            Some (sys_write fd bs k)
          })"

text \<open>\<open>sock\<close> is the answer of \<^verbatim>\<open>accept4\<close>.\<close>

definition OnTcpipAccept :: "int \<Rightarrow> 'cb \<Rightarrow> ('cb, 'z) Poll_scheme \<Rightarrow> ('cb, 'z) Poll_scheme" where
  "OnTcpipAccept sock callback p =
     (if sock = -1 then p else registerEntry sock (Some callback) None (sys_open sock p))"

section \<open>Well-formed loops\<close>

text \<open>
  Every entry is filed under its own descriptor, which is open and registered, and nothing else is
  registered.
\<close>

definition poll_fds :: "('cb, 'z) Poll_scheme \<Rightarrow> int set" where
  "poll_fds p = fst ` set (entry_map p)"

definition poll_wf :: "('cb, 'z) Poll_scheme \<Rightarrow> bool" where
  "poll_wf p \<longleftrightarrow> distinct (map fst (entry_map p)) \<and> distinct (k_open p) \<and> distinct (k_epoll p) \<and>
     -1 \<notin> set (k_open p) \<and> poll_fds p \<subseteq> set (k_open p) \<and> set (k_epoll p) = poll_fds p \<and>
     (\<forall>(k, e) \<in> set (entry_map p). e_fd e = k \<and> e_cleanup e = Some k)"

lemma entry_without_facts [simp]:
  "fst ` set (entry_without fd m) = fst ` set m - {fd}"
  "map_of (entry_without fd m) fd = None"
  "distinct (map fst m) \<Longrightarrow> distinct (map fst (entry_without fd m))"
  "(x, e) \<in> set (entry_without fd m) \<longleftrightarrow> (x, e) \<in> set m \<and> x \<noteq> fd"
  "entry_without fd (entry_without fd m) = entry_without fd m"
  by (auto simp: entry_without_def map_of_eq_None_iff distinct_map inj_on_def)

lemma entry_without_same: "fd \<notin> fst ` set m \<Longrightarrow> entry_without fd m = m"
  by (auto simp: entry_without_def filter_id_conv)

lemma entry_at_missing: "fd \<notin> fst ` set m \<Longrightarrow> entry_at fd m = Entry_default"
  by (simp add: entry_at_def map_of_eq_None_iff [THEN iffD2])

lemma Entry_destroy_default [simp]: "Entry_destroy Entry_default k = k"
  by (simp add: Entry_destroy_def Entry_default_def Close_def)

text \<open>Registering an open descriptor that has no entry adds it and changes nothing else.\<close>

lemma registerEntry_fresh:
  assumes "fd \<in> set (k_open p)" "fd \<notin> set (k_epoll p)" "fd \<notin> poll_fds p"
  shows "registerEntry fd r c p =
    p\<lparr>k_epoll := fd # k_epoll p,
      entry_map := (fd, \<lparr>e_fd = fd, e_read = r, e_close = Some c, e_cleanup = Some fd\<rparr>) # entry_map p\<rparr>"
  using assms
  by (simp add: registerEntry_def Entry_new_def Register_def Entry_move_assign_def entry_at_missing
      entry_without_same poll_fds_def Entry_default_def [symmetric] Let_def)

lemma registerEntry_wf:
  assumes "poll_wf p" "fd \<in> set (k_open p)" "fd \<notin> poll_fds p"
  shows "poll_wf (registerEntry fd r c p)" "poll_fds (registerEntry fd r c p) = insert fd (poll_fds p)"
    "k_open (registerEntry fd r c p) = k_open p" "k_closed (registerEntry fd r c p) = k_closed p"
proof -
  have "fd \<notin> set (k_epoll p)" using assms by (simp add: poll_wf_def)
  note eq = registerEntry_fresh [OF assms(2) this assms(3)]
  show "poll_wf (registerEntry fd r c p)" "poll_fds (registerEntry fd r c p) = insert fd (poll_fds p)"
    "k_open (registerEntry fd r c p) = k_open p" "k_closed (registerEntry fd r c p) = k_closed p"
    using assms unfolding eq by (auto simp: poll_wf_def poll_fds_def)
qed

text \<open>Erasing an entry unregisters and closes its descriptor, exactly once.\<close>

lemma poll_erase_entry:
  assumes "poll_wf p" "fd \<in> poll_fds p"
  shows "poll_erase fd p =
    p\<lparr>k_open := remove1 fd (k_open p), k_epoll := remove1 fd (k_epoll p), k_closed := k_closed p @ [fd],
      entry_map := entry_without fd (entry_map p)\<rparr>"
proof -
  obtain e where e: "(fd, e) \<in> set (entry_map p)" using assms(2) by (auto simp: poll_fds_def)
  then have m: "map_of (entry_map p) fd = Some e" "e_fd e = fd" "e_cleanup e = Some fd"
    using assms(1) by (auto simp: poll_wf_def)
  have "fd \<in> set (k_open p)" "fd \<in> set (k_epoll p)" "fd \<noteq> -1" "distinct (k_epoll p)"
    using assms by (auto simp: poll_wf_def)
  then show ?thesis
    by (simp add: poll_erase_def m Entry_destroy_def Unregister_def Close_def ValidFd_def sys_close_def Let_def
        remove1_idem)
qed

lemma poll_erase_missing: "fd \<notin> poll_fds p \<Longrightarrow> poll_erase fd p = p"
  by (simp add: poll_erase_def poll_fds_def map_of_eq_None_iff [THEN iffD2])

lemma poll_erase_wf:
  assumes "poll_wf p"
  shows "poll_wf (poll_erase fd p)" "poll_fds (poll_erase fd p) = poll_fds p - {fd}"
proof -
  have "poll_wf (poll_erase fd p) \<and> poll_fds (poll_erase fd p) = poll_fds p - {fd}"
  proof (cases "fd \<in> poll_fds p")
    case True
    then show ?thesis
      using assms by (auto simp: poll_erase_entry poll_wf_def poll_fds_def distinct_remove1 set_remove1_eq)
  qed (use assms in \<open>simp add: poll_erase_missing\<close>)
  then show "poll_wf (poll_erase fd p)" "poll_fds (poll_erase fd p) = poll_fds p - {fd}" by simp_all
qed

text \<open>Taking an entry out keeps its descriptor open and registered.\<close>

lemma poll_take_entry:
  assumes "poll_wf p" "(fd, e) \<in> set (entry_map p)"
  shows "poll_take fd p = (e, p\<lparr>entry_map := entry_without fd (entry_map p)\<rparr>)"
proof -
  have "map_of (entry_map p) fd = Some e" using assms by (auto simp: poll_wf_def)
  then show ?thesis
    by (simp add: poll_take_def entry_at_def Entry_move_assign_def poll_erase_def)
       (simp add: entry_without_def)
qed


section \<open>Interface: clients of the event loop\<close>

text \<open>
  What a client promises: its callbacks keep its invariant when they are called for an entry that holds
  them, and the invariant survives the removal of an entry.  Then the loop keeps it.
\<close>

locale reactor_client =
  fixes handle :: "'cb \<Rightarrow> int \<Rightarrow> ('cb, 'z) Poll_scheme \<Rightarrow> (bool \<times> ('cb, 'z) Poll_scheme) option"
    and inv :: "('cb, 'z) Poll_scheme \<Rightarrow> bool"
  assumes handle_inv: "inv p \<Longrightarrow> (k, e) \<in> set (entry_map p) \<Longrightarrow> e_fd e = fd \<Longrightarrow>
      e_read e = Some cb \<or> e_close e = Some (Some cb) \<Longrightarrow> handle cb fd p = Some (q, p') \<Longrightarrow> inv p'"
    and erase_inv: "inv p \<Longrightarrow> inv (poll_erase fd p)"
begin

lemma poll_event_inv:
  assumes "inv p" "poll_event handle ev p = Some (q, p')"
  shows "inv p'"
proof (cases "find (\<lambda>x. fst (Entry_trigger (fst ev) (snd ev) (snd x))) (entry_map p)")
  case (Some x)
  obtain k e where x: "x = (k, e)" by (cases x)
  have "x \<in> set (entry_map p)" "fst (Entry_trigger (fst ev) (snd ev) (snd x))"
    using Some by (auto simp: find_Some_iff)
  then have e: "(k, e) \<in> set (entry_map p)" "e_fd e = fst ev"
    using x by (auto simp: Entry_trigger_def split: if_splits)
  have r: "e_read e = Some cb" if "snd (Entry_trigger (fst ev) (snd ev) e) = OnRead cb" for cb
    using that by (auto simp: Entry_trigger_def split: if_splits)
  have c: "e_close e = Some u" if "snd (Entry_trigger (fst ev) (snd ev) e) = OnClose u" for u
    using that by (auto simp: Entry_trigger_def split: if_splits)
  have hr: "inv p1" if "snd (Entry_trigger (fst ev) (snd ev) e) = OnRead cb"
    "handle cb (fst ev) p = Some (q1, p1)" for cb q1 p1
    by (rule handle_inv [OF assms(1) e, of cb q1]) (use that r in auto)
  have hc: "inv p1" if "snd (Entry_trigger (fst ev) (snd ev) e) = OnClose (Some cb)"
    "handle cb (fst ev) p = Some (q1, p1)" for cb q1 p1
    by (rule handle_inv [OF assms(1) e, of cb q1]) (use that c in auto)
  show ?thesis
  proof (cases "snd (Entry_trigger (fst ev) (snd ev) e)")
    case Nothing
    then show ?thesis using assms Some x by (simp add: poll_event_def)
  next
    case (OnRead cb)
    then show ?thesis using assms Some x hr by (simp add: poll_event_def)
  next
    case (OnClose u)
    show ?thesis
    proof (cases u)
      case None
      then show ?thesis using assms Some x OnClose by (auto simp: poll_event_def intro: erase_inv)
    next
      case (Some cb)
      then obtain q1 p1 where "handle cb (fst ev) p = Some (q1, p1)" "p' = (if q1 then p1 else poll_erase (fst ev) p1)"
        using assms \<open>find _ _ = _\<close> x OnClose by (auto simp: poll_event_def split: bind_splits)
      then show ?thesis using hc OnClose Some erase_inv by simp
    qed
  qed
qed (use assms in \<open>simp add: poll_event_def\<close>)

lemma poll_events_inv: "inv p \<Longrightarrow> poll_events handle evs p = Some (q, p') \<Longrightarrow> inv p'"
proof (induction evs arbitrary: p)
  case (Cons ev evs)
  then obtain q1 p1 where s: "poll_event handle ev p = Some (q1, p1)"
    "(if q1 then Some (True, p1) else poll_events handle evs p1) = Some (q, p')"
    by (auto split: bind_splits)
  have "inv p1" by (rule poll_event_inv [OF Cons.prems(1) s(1)])
  then show ?case using Cons.IH s(2) by (auto split: if_splits)
qed simp

lemma poll_rounds_inv: "inv p \<Longrightarrow> poll_rounds handle ws p = Some p' \<Longrightarrow> inv p'"
proof (induction ws arbitrary: p)
  case (Cons w ws)
  show ?case
  proof (cases w)
    case (Events evs)
    then obtain q p1 where s: "poll_events handle evs p = Some (q, p1)"
      "(if q then Some p1 else poll_rounds handle ws p1) = Some p'"
      using Cons.prems by (auto split: bind_splits)
    have "inv p1" by (rule poll_events_inv [OF Cons.prems(1) s(1)])
    then show ?thesis using Cons.IH s(2) by (auto split: if_splits)
  qed (use Cons in auto)
qed simp

end

section \<open>Stale entries, messages and end points\<close>

text \<open>
  Registering a descriptor number that still has an entry destroys the old entry after the new one is
  in place: the new descriptor is unregistered and closed, and its entry stays behind.
\<close>

lemma registerEntry_stale:
  assumes "fd \<in> set (k_open p)" "distinct (k_open p)" "fd \<notin> set (k_epoll p)" "fd \<noteq> -1"
    "map_of (entry_map p) fd = Some e" "e_fd e = fd" "e_cleanup e = Some fd"
  shows "registerEntry fd r c p =
    p\<lparr>k_open := remove1 fd (k_open p), k_closed := k_closed p @ [fd],
      entry_map := (fd, \<lparr>e_fd = fd, e_read = r, e_close = Some c, e_cleanup = Some fd\<rparr>) # entry_without fd (entry_map p)\<rparr>"
  using assms
  by (simp add: registerEntry_def Entry_new_def Register_def Entry_move_assign_def entry_at_def
      Entry_default_def Entry_destroy_def Unregister_def Close_def ValidFd_def sys_close_def Let_def remove1_idem)

lemma RecvFd_SendFd: "RecvFd (Some (Some (fd_header fd))) = Some fd"
  by (simp add: RecvFd_def fd_header_def)

text \<open>A message that fills the array is terminated behind it.\<close>

lemma Echo_overflows_iff:
  assumes "length bs \<le> 1024"
  shows "Echo fd (Some bs) k = None \<longleftrightarrow> length bs = 1024"
  using assms by (auto simp: Echo_def wr_range_def wr_def)

text \<open>An end point that is not valid owns no descriptor once it is destroyed.\<close>

lemma ep_trigger_closes:
  assumes "ep_cleanup e" "distinct (k_open k)"
  shows "ep_fd e \<notin> set (k_open (snd (ep_trigger (e, k)))) \<or> ep_fd e = -1"
  using assms by (auto simp: ep_trigger_def Close_def ValidFd_def sys_close_def)

lemma invalid_server_armed:
  "TcpipServer sys False k = (e, k') \<Longrightarrow> ep_cleanup e"
  "UnixServer sys path k = Some (e, k') \<Longrightarrow> ep_valid e \<Longrightarrow> ep_cleanup e \<and> ep_fd e = ss_socket sys"
  by (auto simp: TcpipServer_def TcpipServer_initialize_def UnixServer_def EndPoint_new_def ep_valid_def
      ep_initialize_def ep_trigger_def Let_def split: if_splits)

lemma SignalFd_always_valid: "ep_valid (fst (SignalFd fd k))"
  by (simp add: SignalFd_def ep_valid_def ep_initialize_def Let_def)

end
