(* ===== verification/Forwarder.thy ===== *)
theory Forwarder
  imports Reactor
begin

text \<open>
  The connection forwarder of \<^verbatim>\<open>src/socket/monitor/examples/forwarder.cpp\<close>: it accepts clients, peeks at
  the dialogue number of their first message and passes the connection to the follower process that
  announced this number, in whichever order the two arrive.

  The lists of clients and followers are lists of nodes with an address, because the code keeps iterators
  into them; following an iterator to an erased node is undefined.  What the system calls answer is read
  from an environment, one answer per callback.
\<close>

section \<open>State\<close>

datatype fcb = AcceptClient | AcceptFollower | NotifyConnecting | NotifyConnecting2 | PeekHeader
  | FollowerQuit | QuitLoop

record CLIENTINFO =
  ci_fd :: int
  ci_dialogue :: int
  ci_timestamp :: real

record FollowerContext =
  fc_pid :: int
  fc_fd :: int
  fc_dialogue :: int
  fc_timestamp :: real

text \<open>
  The answers one callback uses: whether \<^verbatim>\<open>accept\<close> succeeds, the bytes \<^verbatim>\<open>read\<close> or \<^verbatim>\<open>recv\<close> delivers, the
  value and the sender of the signal, and the two clock readings.
\<close>

record answer =
  an_accept :: bool
  an_data :: "u8 list"
  an_int :: int
  an_pid :: int
  an_now :: real
  an_pub :: real

record Forwarder = "fcb Poll" +
  list_client :: "(nat \<times> CLIENTINFO) list"
  list_follower :: "(nat \<times> FollowerContext) list"
  map_follower :: "(int \<times> nat) list"
  next_node :: nat
  error_count :: int
  env :: "nat \<Rightarrow> answer"
  turn :: nat

definition CLIENTINFO_EXPIREDTHRESHOLD :: real where
  "CLIENTINFO_EXPIREDTHRESHOLD = 5000"

definition PAYLOADHEADER_PARTIALLENGTH :: nat where
  "PAYLOADHEADER_PARTIALLENGTH = 8"

definition FollowerContext_new :: FollowerContext where
  "FollowerContext_new = \<lparr>fc_pid = 0, fc_fd = -1, fc_dialogue = -1, fc_timestamp = 0\<rparr>"

text \<open>\<^verbatim>\<open>accept\<close> returns the lowest number that is not in use.\<close>

definition new_fd :: "'z Kernel_scheme \<Rightarrow> int" where
  "new_fd k = int (hd (filter (\<lambda>n. int n \<notin> set (k_open k)) [0..<Suc (length (k_open k))]))"

definition sys_accept :: "bool \<Rightarrow> 'z Kernel_scheme \<Rightarrow> int" where
  "sys_accept ok k = (if ok then new_fd k else -1)"

text \<open>An \<^verbatim>\<open>int\<close> that a call fills with the bytes it got, and the \<open>i\<close>th \<^verbatim>\<open>int\<close> of a message.\<close>

definition int_filled :: "u8 list \<Rightarrow> int" where
  "int_filled got = (let got = take 4 got in sint (of_le_bytes (got @ replicate (4 - length got) 0) :: u32))"

definition int_field :: "nat \<Rightarrow> u8 list \<Rightarrow> int" where
  "int_field i bs = sint (of_le_bytes (take 4 (drop (4 * i) bs)) :: u32)"

text \<open>The header of a client: eight bytes, those that were not received are zero.\<close>

definition peek_bytes :: "u8 list \<Rightarrow> u8 list" where
  "peek_bytes got = (let got = take PAYLOADHEADER_PARTIALLENGTH got in got @ replicate (PAYLOADHEADER_PARTIALLENGTH - length got) 0)"

text \<open>Nodes: the replacement and the removal of a value.\<close>

definition node_set :: "nat \<Rightarrow> 'a \<Rightarrow> (nat \<times> 'a) list \<Rightarrow> (nat \<times> 'a) list" where
  "node_set a v l = map (\<lambda>(n, x). if n = a then (n, v) else (n, x)) l"

definition node_erase :: "nat \<Rightarrow> (nat \<times> 'a) list \<Rightarrow> (nat \<times> 'a) list" where
  "node_erase a l = filter (\<lambda>x. fst x \<noteq> a) l"

section \<open>Publishing\<close>

definition publish :: "nat \<Rightarrow> CLIENTINFO \<Rightarrow> real \<Rightarrow> Forwarder \<Rightarrow> Forwarder option" where
  "publish a c now h = do {
     f \<leftarrow> map_of (list_follower h) a;
     let h = snd (SendFd (fc_fd f) (ci_fd c) h);
     Some (h\<lparr>list_follower := node_set a (f\<lparr>fc_dialogue := -1, fc_timestamp := now\<rparr>) (list_follower h)\<rparr>)
   }"

fun notify_loop ::
  "nat \<Rightarrow> int \<Rightarrow> real \<Rightarrow> real \<Rightarrow> (nat \<times> CLIENTINFO) list \<Rightarrow> nat list \<Rightarrow> Forwarder \<Rightarrow> (nat list \<times> Forwarder) option" where
  "notify_loop a dialogue current now [] invalid h = Some (invalid, h)"
| "notify_loop a dialogue current now ((n, c) # cs) invalid h =
     (if current - ci_timestamp c > CLIENTINFO_EXPIREDTHRESHOLD
      then notify_loop a dialogue current now cs (invalid @ [n]) h
      else if ci_dialogue c = dialogue then do {
        h \<leftarrow> publish a c now h;
        let h = Close (ci_fd c) h;
        Some (invalid, h\<lparr>list_client := node_erase n (list_client h)\<rparr>)
      }
      else notify_loop a dialogue current now cs invalid h)"

definition handle_notify :: "int \<Rightarrow> int \<Rightarrow> real \<Rightarrow> real \<Rightarrow> Forwarder \<Rightarrow> Forwarder option" where
  "handle_notify pid dialogue current now h =
     (case map_of (map_follower h) pid of
        None \<Rightarrow> Some h
      | Some a \<Rightarrow> do {
          f \<leftarrow> map_of (list_follower h) a;
          let h = h\<lparr>list_follower := node_set a (f\<lparr>fc_dialogue := dialogue\<rparr>) (list_follower h)\<rparr>;
          (invalid, h) \<leftarrow> notify_loop a dialogue current now (list_client h) [] h;
          Some (h\<lparr>list_client := fold node_erase invalid (list_client h)\<rparr>)
        })"

section \<open>Callbacks\<close>

definition next_answer :: "Forwarder \<Rightarrow> answer \<times> Forwarder" where
  "next_answer h = (env h (turn h), h\<lparr>turn := Suc (turn h)\<rparr>)"

definition accept_client :: "Forwarder \<Rightarrow> Forwarder" where
  "accept_client h =
     (case next_answer h of (a, h) \<Rightarrow> OnTcpipAccept (sys_accept (an_accept a) h) PeekHeader h)"

text \<open>\<open>pid\<close> is the process id of the forwarder.\<close>

definition accept_follower :: "u32 \<Rightarrow> Forwarder \<Rightarrow> Forwarder" where
  "accept_follower pid h =
     (case next_answer h of (a, h) \<Rightarrow>
        let sock = sys_accept (an_accept a) h in
        if sock = -1 then h
        else
          (let h = sys_open sock h;
               f = FollowerContext_new\<lparr>fc_pid := int_filled (an_data a), fc_fd := sock, fc_timestamp := an_now a\<rparr>;
               n = next_node h;
               h = h\<lparr>list_follower := (n, f) # list_follower h, next_node := Suc n\<rparr>;
               h = sys_write sock (le_bytes 4 pid) h;
               h = (case map_of (map_follower h) (fc_pid f) of
                      None \<Rightarrow> h\<lparr>map_follower := (fc_pid f, n) # map_follower h\<rparr>
                    | Some _ \<Rightarrow> h) in
           registerEntry sock (Some NotifyConnecting2) (Some FollowerQuit) h))"

text \<open>The callback for a follower that quits: the node is erased and its process id read afterwards.\<close>

definition follower_quit :: "int \<Rightarrow> Forwarder \<Rightarrow> Forwarder option" where
  "follower_quit fd h =
     (case find (\<lambda>x. fc_fd (snd x) = fd) (list_follower h) of
        None \<Rightarrow> Some h
      | Some x \<Rightarrow> do {
          let h = h\<lparr>list_follower := node_erase (fst x) (list_follower h)\<rparr>;
          f \<leftarrow> map_of (list_follower h) (fst x);
          Some (h\<lparr>map_follower := filter (\<lambda>m. fst m \<noteq> fc_pid f) (map_follower h)\<rparr>)
        })"

definition notify_connecting :: "Forwarder \<Rightarrow> Forwarder option" where
  "notify_connecting h =
     (case next_answer h of (a, h) \<Rightarrow> handle_notify (an_pid a) (an_int a) (an_now a) (an_pub a) h)"

definition notify_connecting2 :: "Forwarder \<Rightarrow> Forwarder option" where
  "notify_connecting2 h =
     (case next_answer h of (a, h) \<Rightarrow>
        let msg = take 8 (an_data a) in
        if length msg = 8 then handle_notify (int_field 0 msg) (int_field 1 msg) (an_now a) (an_pub a) h
        else Some h)"

text \<open>
  The assertion that the header is complete is not evaluated, because the build defines \<^verbatim>\<open>NDEBUG\<close>.
  \<open>ord\<close> is the order in which the hash map of followers is iterated; the first iterator whose follower
  waits for the dialogue is taken.
\<close>

fun peek_loop :: "int \<Rightarrow> (nat \<times> FollowerContext) list \<Rightarrow> (int \<times> nat) list \<Rightarrow> nat option option" where
  "peek_loop dialogue fs [] = Some None"
| "peek_loop dialogue fs ((pid, a) # ps) = do {
     f \<leftarrow> map_of fs a;
     if fc_dialogue f = dialogue then Some (Some a) else peek_loop dialogue fs ps
   }"

definition peek_header :: "((int \<times> nat) list \<Rightarrow> (int \<times> nat) list) \<Rightarrow> int \<Rightarrow> Forwarder \<Rightarrow> Forwarder option" where
  "peek_header ord fd h =
     (case next_answer h of (a, h) \<Rightarrow>
        let n = next_node h in
        case poll_take fd h of (entry, h) \<Rightarrow>
          let it = \<lparr>ci_fd = e_fd entry, ci_dialogue = int_field 1 (peek_bytes (an_data a)), ci_timestamp = an_now a\<rparr>;
              h = h\<lparr>list_client := (n, it) # list_client h, next_node := Suc n\<rparr> in
          do {
            m \<leftarrow> peek_loop (ci_dialogue it) (list_follower h) (ord (map_follower h));
            case m of
              Some a' \<Rightarrow> do {
                h \<leftarrow> publish a' it (an_pub a) h;
                let h = h\<lparr>list_client := tl (list_client h)\<rparr>;
                Some (Entry_destroy entry h)
              }
            | None \<Rightarrow> Some (Entry_destroy (Entry_giveupOwnership entry) h)
          })"

definition forwarder_handle ::
  "((int \<times> nat) list \<Rightarrow> (int \<times> nat) list) \<Rightarrow> u32 \<Rightarrow> fcb \<Rightarrow> int \<Rightarrow> Forwarder \<Rightarrow> (bool \<times> Forwarder) option" where
  "forwarder_handle ord pid cb fd h =
     (case cb of
        AcceptClient \<Rightarrow> Some (False, accept_client h)
      | AcceptFollower \<Rightarrow> Some (False, accept_follower pid h)
      | NotifyConnecting \<Rightarrow> map_option (Pair False) (notify_connecting h)
      | NotifyConnecting2 \<Rightarrow> map_option (Pair False) (notify_connecting2 h)
      | PeekHeader \<Rightarrow> map_option (Pair False) (peek_header ord fd h)
      | FollowerQuit \<Rightarrow> map_option (Pair False) (follower_quit fd h)
      | QuitLoop \<Rightarrow> Some (True, h))"

section \<open>Construction\<close>

definition Forwarder_new :: "(nat \<Rightarrow> answer) \<Rightarrow> int list \<Rightarrow> Forwarder" where
  "Forwarder_new e fds =
     \<lparr>k_open = fds, k_epoll = [], k_closed = [], k_broken = [], k_sent = [], k_written = [],
      entry_map = [], list_client = [], list_follower = [], map_follower = [], next_node = 0,
      error_count = 0, env = e, turn = 0\<rparr>"

text \<open>The macro \<^verbatim>\<open>REGISTER\<close>; the end points are destroyed at the end of the block, last one first.\<close>

definition REGISTER :: "fcb \<Rightarrow> EndPoint \<times> Forwarder \<Rightarrow> EndPoint \<times> Forwarder" where
  "REGISTER cb = (\<lambda>(e, h).
     if ep_valid e then
       (case transferOwnership e of (fd, e) \<Rightarrow> (e, registerEntry fd (Some cb) None h))
     else (e, h\<lparr>error_count := error_count h + 1\<rparr>))"

definition Forwarder_initialize :: "sock_sys \<Rightarrow> u8 list \<Rightarrow> int \<Rightarrow> sock_sys \<Rightarrow> Forwarder \<Rightarrow> Forwarder option" where
  "Forwarder_initialize unix ipcfile sigfd tcp h = do {
     r \<leftarrow> UnixServer unix ipcfile h;
     let (u, h) = REGISTER AcceptFollower r;
     let (s, h) = REGISTER NotifyConnecting (SignalFd sigfd h);
     let (t, h) = REGISTER AcceptClient (TcpipServer tcp False h);
     let h = snd (ep_trigger (t, h));
     let h = snd (ep_trigger (s, h));
     Some (snd (ep_trigger (u, h)))
   }"

definition Forwarder_loop ::
  "((int \<times> nat) list \<Rightarrow> (int \<times> nat) list) \<Rightarrow> u32 \<Rightarrow> int \<Rightarrow> wait_result list \<Rightarrow> Forwarder \<Rightarrow> Forwarder option" where
  "Forwarder_loop ord pid terminator ws h = Poll_loop (forwarder_handle ord pid) terminator QuitLoop ws h"

section \<open>Ownership of descriptors\<close>

text \<open>
  The invariant: the event loop is well-formed; the waiting clients are open, distinct and belong to no
  entry; every iterator of the hash map points to a node of the list of followers.
\<close>

definition fwd_inv :: "Forwarder \<Rightarrow> bool" where
  "fwd_inv h \<longleftrightarrow> poll_wf h \<and>
     distinct (map fst (list_client h)) \<and> distinct (map fst (list_follower h)) \<and>
     (\<forall>n \<in> fst ` set (list_client h) \<union> fst ` set (list_follower h). n < next_node h) \<and>
     distinct (map (ci_fd \<circ> snd) (list_client h)) \<and>
     (\<forall>x \<in> set (list_client h). ci_fd (snd x) \<in> set (k_open h) - poll_fds h) \<and>
     snd ` set (map_follower h) \<subseteq> fst ` set (list_follower h)"

lemma new_fd_fresh: "new_fd k \<notin> set (k_open k)" "0 \<le> new_fd k"
proof -
  let ?xs = "filter (\<lambda>n. int n \<notin> set (k_open k)) [0..<Suc (length (k_open k))]"
  have "?xs \<noteq> []"
  proof
    assume "?xs = []"
    then have "int ` {0..<Suc (length (k_open k))} \<subseteq> set (k_open k)"
      by (auto simp: filter_empty_conv simp del: upt_Suc)
    then have "card (int ` {0..<Suc (length (k_open k))}) \<le> card (set (k_open k))"
      by (intro card_mono) auto
    also have "\<dots> \<le> length (k_open k)" by (rule card_length)
    finally show False by (simp add: card_image)
  qed
  then have "hd ?xs \<in> set ?xs" by (rule hd_in_set)
  then show "new_fd k \<notin> set (k_open k)" unfolding new_fd_def by (simp del: upt_Suc)
  show "0 \<le> new_fd k" by (simp add: new_fd_def)
qed

lemma node_set_facts [simp]:
  "map fst (node_set a v l) = map fst l" "fst ` set (node_set a v l) = fst ` set l"
proof -
  show m: "map fst (node_set a v l) = map fst l"
    by (induction l) (auto simp: node_set_def split: if_splits)
  show "fst ` set (node_set a v l) = fst ` set l"
    using arg_cong [OF m, of set] by simp
qed

lemma node_erase_facts [simp]:
  "set (node_erase a l) = {x \<in> set l. fst x \<noteq> a}" "map_of (node_erase a l) a = None"
  by (auto simp: node_erase_def map_of_eq_None_iff)

lemma distinct_node_erase [simp]: "distinct (map f l) \<Longrightarrow> distinct (map f (node_erase a l))"
  by (simp add: node_erase_def distinct_map_filter)

lemma map_of_node_set:
  "map_of (node_set a v l) b = (if b = a then map_option (\<lambda>_. v) (map_of l a) else map_of l b)"
  by (induction l) (auto simp: node_set_def)

text \<open>The invariant only looks at some of the fields.\<close>

lemma fwd_inv_cong:
  assumes "fwd_inv h" "entry_map h' = entry_map h" "k_open h' = k_open h" "k_epoll h' = k_epoll h"
    "list_client h' = list_client h" "map fst (list_follower h') = map fst (list_follower h)"
    "map_follower h' = map_follower h" "next_node h' = next_node h"
  shows "fwd_inv h'"
proof -
  have "fst ` set (list_follower h') = fst ` set (list_follower h)"
    using arg_cong [OF assms(6), of set] by simp
  then show ?thesis using assms by (simp add: fwd_inv_def poll_wf_def poll_fds_def)
qed

lemma publish_fields:
  assumes "publish a c now h = Some h'"
  shows "k_open h' = k_open h" "k_epoll h' = k_epoll h" "entry_map h' = entry_map h"
    "list_client h' = list_client h" "map fst (list_follower h') = map fst (list_follower h)"
    "map_follower h' = map_follower h" "next_node h' = next_node h" "k_closed h' = k_closed h"
  using assms by (auto simp: publish_def SendFd_def Let_def split: bind_splits)

lemma publish_inv: "fwd_inv h \<Longrightarrow> publish a c now h = Some h' \<Longrightarrow> fwd_inv h'"
  by (erule fwd_inv_cong) (simp_all add: publish_fields)

lemma Close_unowned_wf:
  assumes "poll_wf p" "fd \<notin> poll_fds p"
  shows "poll_wf (Close fd p)" "poll_fds (Close fd p) = poll_fds p" "set (k_open (Close fd p)) = set (k_open p) - {fd}"
proof -
  have "fd \<notin> set (k_epoll p)" "distinct (k_open p)" "-1 \<notin> set (k_open p)" using assms by (auto simp: poll_wf_def)
  then show "poll_wf (Close fd p)" "poll_fds (Close fd p) = poll_fds p" "set (k_open (Close fd p)) = set (k_open p) - {fd}"
    using assms by (auto simp: Close_def ValidFd_def sys_close_def poll_wf_def poll_fds_def remove1_idem)
qed

lemma Close_fields [simp]:
  "list_client (Close fd h) = list_client h" "list_follower (Close fd h) = list_follower h"
  "map_follower (Close fd h) = map_follower h" "next_node (Close fd h) = next_node h"
  "k_sent (Close fd h) = k_sent h"
  by (simp_all add: Close_def sys_close_def)

lemma client_close_inv:
  assumes "fwd_inv h" "(n, c) \<in> set (list_client h)"
  shows "fwd_inv ((Close (ci_fd c) h)\<lparr>list_client := node_erase n (list_client h)\<rparr>)"
proof -
  have c: "ci_fd c \<notin> poll_fds h" using assms by (auto simp: fwd_inv_def)
  have "ci_fd (snd x) \<noteq> ci_fd c" if "x \<in> set (list_client h)" "fst x \<noteq> n" for x
    using assms that by (auto simp: fwd_inv_def distinct_map inj_on_def)
  with Close_unowned_wf [OF _ c] assms show ?thesis
    by (auto simp: fwd_inv_def poll_wf_def poll_fds_def)
qed

lemma notify_loop_inv:
  assumes "fwd_inv h" "set cs \<subseteq> set (list_client h)" "notify_loop a d current now cs invalid h = Some (invalid', h')"
  shows "fwd_inv h'"
  using assms
proof (induction a d current now cs invalid h rule: notify_loop.induct)
  case (2 a d current now n c cs invalid h)
  show ?case
  proof (cases "current - ci_timestamp c > CLIENTINFO_EXPIREDTHRESHOLD \<or> ci_dialogue c \<noteq> d")
    case True
    then show ?thesis using 2 by (auto split: if_splits)
  next
    case False
    then obtain h1 where h1: "publish a c now h = Some h1"
      "h' = (Close (ci_fd c) h1)\<lparr>list_client := node_erase n (list_client h1)\<rparr>"
      using 2 by (auto simp: Let_def split: bind_splits)
    have "(n, c) \<in> set (list_client h1)" using 2 publish_fields [OF h1(1)] by auto
    then show ?thesis using client_close_inv [OF publish_inv [OF 2(3) h1(1)]] h1(2) by simp
  qed
qed simp

lemma erase_clients_inv: "fwd_inv h \<Longrightarrow> fwd_inv (h\<lparr>list_client := fold node_erase ns (list_client h)\<rparr>)"
proof (induction ns arbitrary: h)
  case (Cons n ns)
  have "fwd_inv (h\<lparr>list_client := node_erase n (list_client h)\<rparr>)"
    using Cons.prems by (auto simp: fwd_inv_def poll_wf_def poll_fds_def)
  from Cons.IH [OF this] show ?case by simp
qed simp

lemma handle_notify_inv:
  assumes "fwd_inv h" "handle_notify pid d current now h = Some h'"
  shows "fwd_inv h'"
proof (cases "map_of (map_follower h) pid")
  case (Some a)
  then obtain f inv' h1 where f: "map_of (list_follower h) a = Some f"
    "notify_loop a d current now (list_client h) []
       (h\<lparr>list_follower := node_set a (f\<lparr>fc_dialogue := d\<rparr>) (list_follower h)\<rparr>) = Some (inv', h1)"
    "h' = h1\<lparr>list_client := fold node_erase inv' (list_client h1)\<rparr>"
    using assms(2) by (auto simp: handle_notify_def Let_def split: bind_splits)
  have "fwd_inv (h\<lparr>list_follower := node_set a (f\<lparr>fc_dialogue := d\<rparr>) (list_follower h)\<rparr>)"
    by (rule fwd_inv_cong [OF assms(1)]) simp_all
  then show ?thesis using notify_loop_inv [OF _ _ f(2)] erase_clients_inv f(3) by simp
qed (use assms in \<open>simp add: handle_notify_def\<close>)

lemma entry_poll_fds: "(fd, e) \<in> set (entry_map p) \<Longrightarrow> fd \<in> poll_fds p"
  by (force simp: poll_fds_def)

lemma sys_open_new_wf:
  assumes "poll_wf p"
  shows "poll_wf (sys_open (new_fd p) p)" "poll_fds (sys_open (new_fd p) p) = poll_fds p"
    "new_fd p \<notin> poll_fds p" "set (k_open (sys_open (new_fd p) p)) = insert (new_fd p) (set (k_open p))"
proof -
  have "new_fd p \<noteq> -1" using new_fd_fresh(2) [of p] by simp
  then show "poll_wf (sys_open (new_fd p) p)" "poll_fds (sys_open (new_fd p) p) = poll_fds p"
    "new_fd p \<notin> poll_fds p" "set (k_open (sys_open (new_fd p) p)) = insert (new_fd p) (set (k_open p))"
    using assms new_fd_fresh(1) [of p] by (auto simp: sys_open_def poll_wf_def poll_fds_def)
qed

lemma sys_open_fields [simp]:
  "list_client (sys_open fd h) = list_client h" "list_follower (sys_open fd h) = list_follower h"
  "map_follower (sys_open fd h) = map_follower h" "next_node (sys_open fd h) = next_node h"
  "entry_map (sys_open fd h) = entry_map h" "k_sent (sys_open fd h) = k_sent h"
  by (simp_all add: sys_open_def)

text \<open>A new connection gets an entry and nothing else changes hands.\<close>

lemma register_new_inv:
  assumes "fwd_inv h" "fd \<in> set (k_open h)" "fd \<notin> poll_fds h" "\<forall>x \<in> set (list_client h). ci_fd (snd x) \<noteq> fd"
  shows "fwd_inv (registerEntry fd r c h)"
proof -
  have wf: "poll_wf h" using assms(1) by (simp add: fwd_inv_def)
  then have "fd \<notin> set (k_epoll h)" using assms(3) by (simp add: poll_wf_def)
  note eq = registerEntry_fresh [OF assms(2) this assms(3)]
  show ?thesis
    using assms registerEntry_wf [OF wf assms(2,3), of r c] unfolding eq by (auto simp: fwd_inv_def)
qed

lemma sys_open_inv:
  assumes "fwd_inv h"
  shows "fwd_inv (sys_open (new_fd h) h)"
proof -
  have wf: "poll_wf h" using assms by (simp add: fwd_inv_def)
  show ?thesis using assms sys_open_new_wf [OF wf] by (auto simp: fwd_inv_def)
qed

lemma client_fds_open: "fwd_inv h \<Longrightarrow> \<forall>x \<in> set (list_client h). ci_fd (snd x) \<noteq> new_fd h"
  using new_fd_fresh(1) [of h] by (auto simp: fwd_inv_def)

lemma next_answer_inv: "fwd_inv h \<Longrightarrow> next_answer h = (a, h') \<Longrightarrow> fwd_inv h'"
  by (erule fwd_inv_cong) (auto simp: next_answer_def)

lemma accept_client_inv:
  assumes "fwd_inv h"
  shows "fwd_inv (accept_client h)"
proof -
  obtain a h1 where h1: "next_answer h = (a, h1)" by (cases "next_answer h")
  then have inv: "fwd_inv h1" by (rule next_answer_inv [OF assms])
  then have wf: "poll_wf h1" by (simp add: fwd_inv_def)
  have "fwd_inv (registerEntry (new_fd h1) (Some PeekHeader) None (sys_open (new_fd h1) h1))"
    using sys_open_new_wf [OF wf] client_fds_open [OF inv] by (intro register_new_inv sys_open_inv [OF inv]) auto
  then show ?thesis using inv h1 by (auto simp: accept_client_def OnTcpipAccept_def sys_accept_def)
qed

lemma push_follower_inv:
  assumes "fwd_inv h"
  shows "fwd_inv (h\<lparr>list_follower := (next_node h, f) # list_follower h, next_node := Suc (next_node h)\<rparr>)"
proof -
  have old: "n < next_node h" if "n \<in> fst ` set (list_client h) \<union> fst ` set (list_follower h)" for n
    using assms that unfolding fwd_inv_def by blast
  then have "next_node h \<notin> fst ` set (list_follower h)" by blast
  moreover have "\<forall>n \<in> fst ` set (list_client h) \<union> insert (next_node h) (fst ` set (list_follower h)). n < Suc (next_node h)"
    using old by (simp add: less_Suc_eq ball_Un)
  ultimately show ?thesis
    using assms unfolding fwd_inv_def poll_wf_def poll_fds_def by simp blast
qed

lemma accept_follower_inv:
  assumes "fwd_inv h"
  shows "fwd_inv (accept_follower pid h)"
proof -
  obtain a h1 where h1: "next_answer h = (a, h1)" by (cases "next_answer h")
  then have inv: "fwd_inv h1" by (rule next_answer_inv [OF assms])
  show ?thesis
  proof (cases "an_accept a")
    case True
    define sock where "sock = new_fd h1"
    define f where "f = FollowerContext_new\<lparr>fc_pid := int_filled (an_data a), fc_fd := sock, fc_timestamp := an_now a\<rparr>"
    define h2 where "h2 = (sys_open sock h1)\<lparr>list_follower := (next_node h1, f) # list_follower h1, next_node := Suc (next_node h1)\<rparr>"
    define h3 where "h3 = sys_write sock (le_bytes 4 pid) h2"
    define h4 where "h4 = (case map_of (map_follower h3) (fc_pid f) of
       None \<Rightarrow> h3\<lparr>map_follower := (fc_pid f, next_node h1) # map_follower h3\<rparr> | Some _ \<Rightarrow> h3)"
    have sock: "sock \<noteq> -1" "sock \<notin> set (k_open h1)" using new_fd_fresh [of h1] by (auto simp: sock_def)
    have i1: "fwd_inv (sys_open sock h1)" using sys_open_inv [OF inv] by (simp add: sock_def)
    have i2: "fwd_inv h2" using push_follower_inv [OF i1, of f] by (simp add: h2_def)
    have i3: "fwd_inv h3" by (rule fwd_inv_cong [OF i2]) (auto simp: h3_def sys_write_def)
    have n: "next_node h1 \<in> fst ` set (list_follower h3)" by (simp add: h3_def h2_def sys_write_def)
    have i4: "fwd_inv h4" using i3 n by (auto simp: h4_def fwd_inv_def poll_wf_def poll_fds_def split: option.splits)
    have same: "k_open h4 = sock # k_open h1" "entry_map h4 = entry_map h1" "list_client h4 = list_client h1"
      using sock(1) by (auto simp: h4_def h3_def h2_def sys_write_def sys_open_def split: option.splits)
    have "sock \<notin> poll_fds h4" "\<forall>x \<in> set (list_client h4). ci_fd (snd x) \<noteq> sock"
      using inv sock(2) same by (auto simp: fwd_inv_def poll_wf_def poll_fds_def)
    then have "fwd_inv (registerEntry sock (Some NotifyConnecting2) (Some FollowerQuit) h4)"
      by (intro register_new_inv [OF i4]) (auto simp: same)
    moreover have "accept_follower pid h = registerEntry sock (Some NotifyConnecting2) (Some FollowerQuit) h4"
      using True h1 sock(1) unfolding accept_follower_def h4_def h3_def h2_def f_def sock_def
      by (simp add: sys_accept_def Let_def cong del: option.case_cong_weak)
    ultimately show ?thesis by simp
  next
    case False
    then show ?thesis using inv h1 by (simp add: accept_follower_def sys_accept_def)
  qed
qed


lemma fwd_inv_next: "fwd_inv h \<Longrightarrow> next_node h \<le> m \<Longrightarrow> fwd_inv (h\<lparr>next_node := m\<rparr>)"
  unfolding fwd_inv_def poll_wf_def poll_fds_def by (auto dest: less_le_trans)

lemma poll_erase_inv:
  assumes "fwd_inv h"
  shows "fwd_inv (poll_erase fd h)"
proof (cases "fd \<in> poll_fds h")
  case True
  have wf: "poll_wf h" using assms by (simp add: fwd_inv_def)
  have "ci_fd (snd x) \<noteq> fd" if "x \<in> set (list_client h)" for x
    using assms True that by (auto simp: fwd_inv_def)
  then show ?thesis
    using assms poll_erase_wf [OF wf, of fd] unfolding poll_erase_entry [OF wf True]
    by (auto simp: fwd_inv_def)
qed (use assms in \<open>simp add: poll_erase_missing\<close>)

text \<open>The two outcomes of a header: the client is handed over and its entry destroyed, or it is kept.\<close>

lemma Entry_destroy_taken:
  assumes "poll_wf h" "(fd, e) \<in> set (entry_map h)" "k_open h' = k_open h" "k_epoll h' = k_epoll h"
    "k_closed h' = k_closed h"
  shows "Entry_destroy e h' = h'\<lparr>k_open := remove1 fd (k_open h), k_epoll := remove1 fd (k_epoll h), k_closed := k_closed h @ [fd]\<rparr>"
    and "Entry_destroy (Entry_giveupOwnership e) h' = h'\<lparr>k_epoll := remove1 fd (k_epoll h)\<rparr>"
proof -
  have e: "e_fd e = fd" "e_cleanup e = Some fd" "fd \<in> poll_fds h" using assms(1,2) entry_poll_fds by (auto simp: poll_wf_def)
  then have "fd \<in> set (k_open h)" "fd \<in> set (k_epoll h)" "fd \<noteq> -1" "distinct (k_epoll h)"
    using assms(1) by (auto simp: poll_wf_def)
  then show "Entry_destroy e h' = h'\<lparr>k_open := remove1 fd (k_open h), k_epoll := remove1 fd (k_epoll h), k_closed := k_closed h @ [fd]\<rparr>"
    "Entry_destroy (Entry_giveupOwnership e) h' = h'\<lparr>k_epoll := remove1 fd (k_epoll h)\<rparr>"
    using assms e
    by (simp_all add: Entry_destroy_def Entry_giveupOwnership_def Unregister_def Close_def ValidFd_def sys_close_def Let_def remove1_idem)
qed

lemma header_kept_inv:
  assumes "fwd_inv h" "(fd, e) \<in> set (entry_map h)" "ci_fd it = fd"
  shows "fwd_inv (h\<lparr>entry_map := entry_without fd (entry_map h), k_epoll := remove1 fd (k_epoll h),
    list_client := (next_node h, it) # list_client h, next_node := Suc (next_node h)\<rparr>)"
proof -
  have wf: "poll_wf h" using assms by (simp add: fwd_inv_def)
  have fd: "fd \<in> poll_fds h" "fd \<in> set (k_open h)" "distinct (k_epoll h)"
    using entry_poll_fds [OF assms(2)] wf by (auto simp: poll_wf_def)
  have new: "ci_fd (snd x) \<noteq> fd" if "x \<in> set (list_client h)" for x
    using assms(1) fd(1) that by (auto simp: fwd_inv_def)
  have old: "n < next_node h" if "n \<in> fst ` set (list_client h) \<union> fst ` set (list_follower h)" for n
    using assms(1) that unfolding fwd_inv_def by blast
  then have "next_node h \<notin> fst ` set (list_client h)" by blast
  moreover have "\<forall>n \<in> insert (next_node h) (fst ` set (list_client h)) \<union> fst ` set (list_follower h). n < Suc (next_node h)"
    using old by (simp add: less_Suc_eq ball_Un)
  moreover have "fd \<notin> (ci_fd \<circ> snd) ` set (list_client h)" using new by auto
  moreover have "poll_wf (h\<lparr>entry_map := entry_without fd (entry_map h), k_epoll := remove1 fd (k_epoll h)\<rparr>)"
    using wf fd by (auto simp: poll_wf_def poll_fds_def)
  ultimately show ?thesis
    using assms fd unfolding fwd_inv_def by (auto simp: poll_wf_def poll_fds_def)
qed


text \<open>The client that a header announces, and the state in which it is looked for.\<close>

definition header_client :: "answer \<Rightarrow> int \<Rightarrow> CLIENTINFO" where
  "header_client a fd =
     \<lparr>ci_fd = fd, ci_dialogue = int_field 1 (peek_bytes (an_data a)), ci_timestamp = an_now a\<rparr>"

definition header_pushed :: "int \<Rightarrow> Forwarder \<Rightarrow> Forwarder" where
  "header_pushed fd h =
     (case next_answer h of (a, h) \<Rightarrow>
        h\<lparr>entry_map := entry_without fd (entry_map h),
          list_client := (next_node h, header_client a fd) # list_client h, next_node := Suc (next_node h)\<rparr>)"

lemma header_pushed_fields [simp]:
  "k_open (header_pushed fd h) = k_open h" "k_epoll (header_pushed fd h) = k_epoll h"
  "k_closed (header_pushed fd h) = k_closed h" "list_follower (header_pushed fd h) = list_follower h"
  "map_follower (header_pushed fd h) = map_follower h" "k_sent (header_pushed fd h) = k_sent h"
  "k_broken (header_pushed fd h) = k_broken h" "next_node (header_pushed fd h) = Suc (next_node h)"
  "entry_map (header_pushed fd h) = entry_without fd (entry_map h)" "turn (header_pushed fd h) = Suc (turn h)"
  "env (header_pushed fd h) = env h"
  "list_client (header_pushed fd h) = (next_node h, header_client (env h (turn h)) fd) # list_client h"
  by (simp_all add: header_pushed_def next_answer_def)

lemma peek_header_eq:
  assumes "poll_wf h" "(fd, e) \<in> set (entry_map h)"
  shows "peek_header ord fd h =
    (let a = env h (turn h); it = header_client a fd; h = header_pushed fd h in
     peek_loop (ci_dialogue it) (list_follower h) (ord (map_follower h)) \<bind> (\<lambda>m.
       case m of
         Some a' \<Rightarrow> publish a' it (an_pub a) h \<bind> (\<lambda>h. Some (Entry_destroy e (h\<lparr>list_client := tl (list_client h)\<rparr>)))
       | None \<Rightarrow> Some (Entry_destroy (Entry_giveupOwnership e) h)))"
proof -
  define h1 where "h1 = h\<lparr>turn := Suc (turn h)\<rparr>"
  have t: "poll_take fd h1 = (e, h1\<lparr>entry_map := entry_without fd (entry_map h1)\<rparr>)"
    by (rule poll_take_entry) (use assms in \<open>auto simp: h1_def poll_wf_def poll_fds_def\<close>)
  have efd: "e_fd e = fd" using assms by (auto simp: poll_wf_def)
  have pushed: "header_pushed fd h = h1\<lparr>entry_map := entry_without fd (entry_map h1),
      list_client := (next_node h1, header_client (env h (turn h)) fd) # list_client h1, next_node := Suc (next_node h1)\<rparr>"
    by (simp add: header_pushed_def next_answer_def h1_def)
  show ?thesis
    unfolding peek_header_def next_answer_def h1_def [symmetric] prod.case Let_def t pushed
    by (simp add: efd header_client_def h1_def cong del: option.case_cong_weak)
qed

lemma peek_header_inv:
  assumes "fwd_inv h" "(fd, e) \<in> set (entry_map h)" "peek_header ord fd h = Some h'"
  shows "fwd_inv h'"
proof -
  have wf: "poll_wf h" using assms(1) by (simp add: fwd_inv_def)
  define a where "a = env h (turn h)"
  define it where "it = header_client a fd"
  define h2 where "h2 = header_pushed fd h"
  have h2f: "k_open h2 = k_open h" "k_epoll h2 = k_epoll h" "k_closed h2 = k_closed h" by (simp_all add: h2_def)
  obtain m where m: "(case m of Some a' \<Rightarrow> publish a' it (an_pub a) h2 \<bind> (\<lambda>h. Some (Entry_destroy e (h\<lparr>list_client := tl (list_client h)\<rparr>)))
      | None \<Rightarrow> Some (Entry_destroy (Entry_giveupOwnership e) h2)) = Some h'"
    using assms(3) unfolding peek_header_eq [OF wf assms(2)] Let_def a_def it_def h2_def
    by (auto split: if_splits bind_splits)
  show ?thesis
  proof (cases m)
    case None
    then have "h' = h2\<lparr>k_epoll := remove1 fd (k_epoll h)\<rparr>"
      using m Entry_destroy_taken(2) [OF wf assms(2) h2f] by simp
    moreover have "ci_fd it = fd" by (simp add: it_def header_client_def)
    note header_kept_inv [OF assms(1,2) this]
    ultimately show ?thesis
      by (elim fwd_inv_cong) (simp_all add: h2_def it_def a_def header_client_def)
  next
    case (Some a')
    then obtain h3 where h3: "publish a' it (an_pub a) h2 = Some h3"
      "h' = Entry_destroy e (h3\<lparr>list_client := tl (list_client h3)\<rparr>)"
      using m by (auto split: bind_splits)
    note pf = publish_fields [OF h3(1)]
    note er = poll_erase_entry [OF wf entry_poll_fds [OF assms(2)]]
    have "h' = h3\<lparr>list_client := tl (list_client h3), k_open := remove1 fd (k_open h), k_epoll := remove1 fd (k_epoll h), k_closed := k_closed h @ [fd]\<rparr>"
      using h3(2) Entry_destroy_taken(1) [OF wf assms(2), of "h3\<lparr>list_client := tl (list_client h3)\<rparr>"] pf h2f by simp
    moreover have "fwd_inv ((poll_erase fd h)\<lparr>next_node := Suc (next_node h)\<rparr>)"
      by (rule fwd_inv_next [OF poll_erase_inv [OF assms(1)]]) (simp add: er)
    ultimately show ?thesis by (elim fwd_inv_cong) (simp_all add: er pf h2_def)
  qed
qed

lemma forwarder_handle_inv:
  assumes "fwd_inv h" "(k, e) \<in> set (entry_map h)" "e_fd e = fd" "forwarder_handle ord pid cb fd h = Some (q, h')"
  shows "fwd_inv h'"
proof -
  have e: "(fd, e) \<in> set (entry_map h)" using assms(1-3) by (auto simp: fwd_inv_def poll_wf_def)
  have na: "fwd_inv (snd (next_answer h))" by (rule next_answer_inv [OF assms(1), of "fst (next_answer h)"]) simp
  show ?thesis
  proof (cases cb)
    case NotifyConnecting
    then show ?thesis using assms(4) handle_notify_inv [OF na]
      by (auto simp: forwarder_handle_def notify_connecting_def case_prod_beta)
  next
    case NotifyConnecting2
    then show ?thesis using assms(4) handle_notify_inv [OF na] na
      by (auto simp: forwarder_handle_def notify_connecting2_def case_prod_beta Let_def split: if_splits)
  next
    case FollowerQuit
    then have "follower_quit fd h = Some h'" using assms(4) by (auto simp: forwarder_handle_def)
    then have "h' = h" by (auto simp: follower_quit_def Let_def split: option.splits bind_splits)
    then show ?thesis using assms(1) by simp
  qed (use assms accept_client_inv accept_follower_inv peek_header_inv [OF assms(1) e] in
      \<open>auto simp: forwarder_handle_def\<close>)
qed

interpretation fwd: reactor_client "forwarder_handle ord pid" fwd_inv for ord pid
proof unfold_locales
  fix p k e fd cb q p'
  assume "fwd_inv p" "(k, e) \<in> set (entry_map p)" "e_fd e = fd" "forwarder_handle ord pid cb fd p = Some (q, p')"
  then show "fwd_inv p'" by (rule forwarder_handle_inv)
qed (rule poll_erase_inv)

section \<open>Faults\<close>

lemma follower_node: "fwd_inv h \<Longrightarrow> m \<in> set (map_follower h) \<Longrightarrow> \<exists>f. map_of (list_follower h) (snd m) = Some f"
proof -
  assume "fwd_inv h" "m \<in> set (map_follower h)"
  then have "snd m \<in> fst ` set (list_follower h)" unfolding fwd_inv_def by blast
  then show ?thesis by (metis map_of_eq_None_iff not_None_eq)
qed

lemma publish_total: "map_of (list_follower h) a = Some f \<Longrightarrow> \<exists>h'. publish a c now h = Some h'"
  by (simp add: publish_def Let_def)

lemma notify_loop_total:
  "map_of (list_follower h) a = Some f \<Longrightarrow> \<exists>r. notify_loop a d current now cs invalid h = Some r"
proof (induction a d current now cs invalid h rule: notify_loop.induct)
  case (2 a d current now n c cs invalid h)
  then show ?case using publish_total [OF 2(3), of c now] by (auto simp: Let_def)
qed simp

lemma handle_notify_total:
  assumes "fwd_inv h"
  shows "\<exists>h'. handle_notify pid d current now h = Some h'"
proof (cases "map_of (map_follower h) pid")
  case (Some a)
  then obtain f where f: "map_of (list_follower h) a = Some f"
    using follower_node [OF assms, of "(pid, a)"] map_of_SomeD by fastforce
  define h1 where "h1 = h\<lparr>list_follower := node_set a (f\<lparr>fc_dialogue := d\<rparr>) (list_follower h)\<rparr>"
  have "map_of (list_follower h1) a = Some (f\<lparr>fc_dialogue := d\<rparr>)" by (simp add: h1_def map_of_node_set f)
  from notify_loop_total [OF this] obtain r where "notify_loop a d current now (list_client h1) [] h1 = Some r" by blast
  then show ?thesis using Some f by (cases r) (simp add: handle_notify_def h1_def Let_def)
qed (simp add: handle_notify_def)

lemma peek_loop_total:
  "(\<forall>m \<in> set ms. \<exists>f. map_of fs (snd m) = Some f) \<Longrightarrow> \<exists>r. peek_loop d fs ms = Some r \<and> (\<forall>a. r = Some a \<longrightarrow> (\<exists>f. map_of fs a = Some f \<and> fc_dialogue f = d))"
  by (induction d fs ms rule: peek_loop.induct) auto

text \<open>C32. The only callback of the forwarder that is undefined is the one for a follower that quits: its node is
  read after it was erased, whenever the follower is in the list.\<close>

theorem forwarder_faults_iff:
  assumes "fwd_inv h" "(fd, e) \<in> set (entry_map h)" "\<And>m. set (ord m) = set m"
  shows "forwarder_handle ord pid cb fd h = None \<longleftrightarrow>
    cb = FollowerQuit \<and> (\<exists>x \<in> set (list_follower h). fc_fd (snd x) = fd)"
proof -
  have wf: "poll_wf h" using assms(1) by (simp add: fwd_inv_def)
  have na: "fwd_inv (snd (next_answer h))" by (rule next_answer_inv [OF assms(1), of "fst (next_answer h)"]) simp
  have n: "\<exists>h'. handle_notify p d c t (snd (next_answer h)) = Some h'" for p d c t by (rule handle_notify_total [OF na])
  have q: "follower_quit fd h = None \<longleftrightarrow> (\<exists>x \<in> set (list_follower h). fc_fd (snd x) = fd)"
  proof (cases "find (\<lambda>x. fc_fd (snd x) = fd) (list_follower h)")
    case None
    then have "\<not> (\<exists>x \<in> set (list_follower h). fc_fd (snd x) = fd)" by (fastforce simp: find_None_iff)
    then show ?thesis using None by (simp add: follower_quit_def)
  next
    case (Some x)
    then have "x \<in> set (list_follower h)" "fc_fd (snd x) = fd" by (auto simp: find_Some_iff)
    then show ?thesis using Some by (auto simp: follower_quit_def Let_def)
  qed
  have p: "peek_header ord fd h \<noteq> None"
  proof -
    have "\<forall>m \<in> set (ord (map_follower h)). \<exists>f. map_of (list_follower h) (snd m) = Some f"
      using follower_node [OF assms(1)] assms(3) by blast
    from peek_loop_total [OF this] obtain r where r: "peek_loop (ci_dialogue (header_client (env h (turn h)) fd)) (list_follower h) (ord (map_follower h)) = Some r"
      "\<forall>a. r = Some a \<longrightarrow> (\<exists>f. map_of (list_follower h) a = Some f)" by blast
    show ?thesis
    proof (cases r)
      case None
      then show ?thesis using r by (simp add: peek_header_eq [OF wf assms(2)] Let_def)
    next
      case (Some a)
      with r obtain f where "map_of (list_follower (header_pushed fd h)) a = Some f" by auto
      from publish_total [OF this] obtain h' where "publish a (header_client (env h (turn h)) fd) (an_pub (env h (turn h))) (header_pushed fd h) = Some h'" by blast
      then show ?thesis using r Some by (simp add: peek_header_eq [OF wf assms(2)] Let_def)
    qed
  qed
  show ?thesis
    using n q p by (cases cb) (auto simp: forwarder_handle_def notify_connecting_def notify_connecting2_def case_prod_beta Let_def)
qed


section \<open>Start\<close>

text \<open>When all calls succeed, the three sockets are registered and no error is counted.\<close>

lemma forwarder_boot:
  assumes "distinct (ss_socket unix # sigfd # ss_socket tcp # fds)" "-1 \<notin> set (ss_socket unix # sigfd # ss_socket tcp # fds)"
    "ss_remove unix" "ss_bind unix" "ss_listen unix" "length path < 108"
    "ss_setsockopt tcp" "ss_bind tcp" "ss_listen tcp"
  shows "\<exists>h. Forwarder_initialize unix path sigfd tcp (Forwarder_new e fds) = Some h \<and> fwd_inv h \<and>
    poll_fds h = {ss_socket unix, sigfd, ss_socket tcp} \<and> set (k_open h) = poll_fds h \<union> set fds \<and> list_client h = [] \<and> error_count h = 0"
proof -
  let ?u = "ss_socket unix" and ?t = "ss_socket tcp"
  define h0 where "h0 = sys_open ?u (Forwarder_new e fds)"
  define h1 where "h1 = registerEntry ?u (Some AcceptFollower) None h0"
  define h2 where "h2 = registerEntry sigfd (Some NotifyConnecting) None (sys_open sigfd h1)"
  define h3 where "h3 = registerEntry ?t (Some AcceptClient) None (sys_open ?t h2)"
  note rf = registerEntry_fresh
  have e1: "h1 = h0\<lparr>k_epoll := [?u], entry_map := [(?u, \<lparr>e_fd = ?u, e_read = Some AcceptFollower, e_close = Some None, e_cleanup = Some ?u\<rparr>)]\<rparr>"
    unfolding h1_def by (subst rf) (use assms in \<open>auto simp: h0_def Forwarder_new_def sys_open_def poll_fds_def\<close>)
  have e2: "h2 = h1\<lparr>k_open := sigfd # k_open h1, k_epoll := [sigfd, ?u],
      entry_map := (sigfd, \<lparr>e_fd = sigfd, e_read = Some NotifyConnecting, e_close = Some None, e_cleanup = Some sigfd\<rparr>) # entry_map h1\<rparr>"
    unfolding h2_def by (subst rf) (use assms in \<open>auto simp: e1 h0_def Forwarder_new_def sys_open_def poll_fds_def\<close>)
  have e3: "h3 = h2\<lparr>k_open := ?t # k_open h2, k_epoll := [?t, sigfd, ?u],
      entry_map := (?t, \<lparr>e_fd = ?t, e_read = Some AcceptClient, e_close = Some None, e_cleanup = Some ?t\<rparr>) # entry_map h2\<rparr>"
    unfolding h3_def by (subst rf) (use assms in \<open>auto simp: e2 e1 h0_def Forwarder_new_def sys_open_def poll_fds_def\<close>)
  have "Forwarder_initialize unix path sigfd tcp (Forwarder_new e fds) = Some h3"
    using assms
    by (simp add: Forwarder_initialize_def UnixServer_def sun_path_size_def REGISTER_def ep_valid_def ep_initialize_def
        transferOwnership_def SignalFd_def TcpipServer_def TcpipServer_initialize_def ep_trigger_def EndPoint_new_def
        Let_def h3_def h2_def h1_def h0_def)
  moreover have "fwd_inv h3"
    using assms by (auto simp: fwd_inv_def poll_wf_def poll_fds_def e3 e2 e1 h0_def Forwarder_new_def sys_open_def)
  ultimately show ?thesis
    using assms by (auto simp: poll_fds_def e3 e2 e1 h0_def Forwarder_new_def sys_open_def)
qed

lemma Forwarder_loop_inv:
  assumes "fwd_inv h" "terminator \<in> set (k_open h)" "terminator \<notin> poll_fds h" "list_client h = []"
    "Forwarder_loop ord pid terminator ws h = Some h'"
  shows "fwd_inv h'"
proof -
  have "fwd_inv (registerEntry terminator (Some QuitLoop) None h)"
    by (rule register_new_inv) (use assms in auto)
  then show ?thesis using assms(5) fwd.poll_rounds_inv by (simp add: Forwarder_loop_def Poll_loop_def)
qed

text \<open>C4. From a start in which the three sockets could be created, every run of the event loop, whatever clients,
  followers and signals do, keeps the ownership invariant: each entry is filed under its own open and
  registered descriptor, the waiting clients are open, distinct and belong to no entry, and every
  iterator in the map of followers is valid.\<close>

theorem forwarder_invariant:
  assumes "distinct (ss_socket unix # sigfd # ss_socket tcp # fds)" "-1 \<notin> set (ss_socket unix # sigfd # ss_socket tcp # fds)"
    "ss_remove unix" "ss_bind unix" "ss_listen unix" "length path < 108"
    "ss_setsockopt tcp" "ss_bind tcp" "ss_listen tcp" "terminator \<in> set fds"
    "Forwarder_initialize unix path sigfd tcp (Forwarder_new e fds) \<bind> Forwarder_loop ord pid terminator ws = Some h"
  shows "fwd_inv h"
proof -
  obtain h0 where h0: "Forwarder_initialize unix path sigfd tcp (Forwarder_new e fds) = Some h0" "fwd_inv h0"
    "poll_fds h0 = {ss_socket unix, sigfd, ss_socket tcp}" "set (k_open h0) = poll_fds h0 \<union> set fds" "list_client h0 = []"
    using forwarder_boot [OF assms(1-9)] by blast
  have "terminator \<notin> poll_fds h0" using assms(1,10) h0(3) by auto
  moreover have "Forwarder_loop ord pid terminator ws h0 = Some h" using assms(11) h0(1) by simp
  ultimately show ?thesis using Forwarder_loop_inv h0 assms(10) by blast
qed

section \<open>Matching\<close>

lemma notify_loop_nomatch:
  "\<forall>x \<in> set cs. ci_dialogue (snd x) \<noteq> d \<Longrightarrow> \<exists>invalid'. notify_loop a d current now cs invalid h = Some (invalid', h)"
  by (induction a d current now cs invalid h rule: notify_loop.induct) auto

lemma peek_loop_none:
  assumes "\<forall>m \<in> set ms. \<exists>f. map_of fs (snd m) = Some f" "\<forall>x \<in> set fs. fc_dialogue (snd x) \<noteq> d"
  shows "peek_loop d fs ms = Some None"
proof -
  obtain r where r: "peek_loop d fs ms = Some r" "\<forall>a. r = Some a \<longrightarrow> (\<exists>f. map_of fs a = Some f \<and> fc_dialogue f = d)"
    using peek_loop_total [OF assms(1)] by blast
  moreover have False if "r = Some a" for a
    using r(2) that assms(2) map_of_SomeD by fastforce
  ultimately show ?thesis by (cases r) auto
qed

lemma peek_loop_found:
  assumes "\<forall>m \<in> set ms. \<exists>f. map_of fs (snd m) = Some f" "m \<in> set ms" "map_of fs (snd m) = Some f" "fc_dialogue f = d"
    "\<And>b g. map_of fs b = Some g \<Longrightarrow> fc_dialogue g = d \<Longrightarrow> b = snd m"
  shows "peek_loop d fs ms = Some (Some (snd m))"
  using assms(1,2)
proof (induction ms)
  case (Cons x ps)
  obtain pid a where x: "x = (pid, a)" by (cases x)
  obtain g where g: "map_of fs a = Some g" using Cons.prems(1) x by auto
  show ?case
  proof (cases "fc_dialogue g = d")
    case True
    then show ?thesis using assms(5) [OF g True] g x by simp
  next
    case False
    then have "m \<noteq> x" using assms(3,4) g x by auto
    then show ?thesis using Cons False g x by simp
  qed
qed simp

text \<open>Handing over an open connection to a follower whose socket works.\<close>

lemma publish_sends:
  assumes "map_of (list_follower h) a = Some f" "fc_fd f \<in> set (k_open h)" "fc_fd f \<notin> set (k_broken h)" "ci_fd c \<in> set (k_open h)"
  shows "publish a c now h = Some (h\<lparr>k_sent := k_sent h @ [(fc_fd f, fd_header (ci_fd c))],
    list_follower := node_set a (f\<lparr>fc_dialogue := -1, fc_timestamp := now\<rparr>) (list_follower h)\<rparr>)"
  using assms by (simp add: publish_def SendFd_def Let_def)

lemma handle_notify_quiet:
  assumes "map_of (map_follower h) pid = Some a" "map_of (list_follower h) a = Some f"
    "\<forall>x \<in> set (list_client h). ci_dialogue (snd x) \<noteq> d"
  shows "\<exists>cs. handle_notify pid d t t' h =
    Some (h\<lparr>list_follower := node_set a (f\<lparr>fc_dialogue := d\<rparr>) (list_follower h), list_client := cs\<rparr>)"
proof -
  let ?h = "h\<lparr>list_follower := node_set a (f\<lparr>fc_dialogue := d\<rparr>) (list_follower h)\<rparr>"
  obtain i where "notify_loop a d t t' (list_client ?h) [] ?h = Some (i, ?h)"
    using notify_loop_nomatch [of "list_client ?h" d a t t' "[]" ?h] assms(3) by auto
  then show ?thesis using assms(1,2) by (auto simp: handle_notify_def Let_def)
qed

lemma signal_first:
  assumes "fwd_inv h" "map_of (map_follower h) pid = Some a" "map_of (list_follower h) a = Some f"
    "fc_fd f \<in> set (k_open h)" "fc_fd f \<notin> set (k_broken h)" "(fd, e) \<in> set (entry_map h)"
    "\<forall>x \<in> set (list_follower h). fc_dialogue (snd x) \<noteq> d" "\<forall>x \<in> set (list_client h). ci_dialogue (snd x) \<noteq> d"
    "ci_dialogue (header_client (env h (turn h)) fd) = d"
    "\<And>m. set (ord m) = set m"
  shows "\<exists>h'. handle_notify pid d t t' h \<bind> peek_header ord fd = Some h' \<and>
    k_sent h' = k_sent h @ [(fc_fd f, fd_header fd)] \<and> fd \<notin> set (k_open h') \<and>
    (\<exists>g. map_of (list_follower h') a = Some g \<and> fc_dialogue g = -1)"
proof -
  let ?g = "f\<lparr>fc_dialogue := d\<rparr>"
  obtain cs where h1: "handle_notify pid d t t' h = Some (h\<lparr>list_follower := node_set a ?g (list_follower h), list_client := cs\<rparr>)"
    using handle_notify_quiet [OF assms(2,3,8)] by blast
  define h1' where "h1' = h\<lparr>list_follower := node_set a ?g (list_follower h), list_client := cs\<rparr>"
  have inv: "fwd_inv h1'" using handle_notify_inv [OF assms(1) h1] by (simp add: h1'_def)
  then have wf: "poll_wf h1'" by (simp add: fwd_inv_def)
  have e: "(fd, e) \<in> set (entry_map h1')" using assms(6) by (simp add: h1'_def)
  have fd: "fd \<in> set (k_open h1')" "distinct (k_open h1')" using wf entry_poll_fds [OF e] by (auto simp: poll_wf_def)
  have fo: "map_of (list_follower h1') b = (if b = a then Some ?g else map_of (list_follower h) b)" for b
    using assms(3) by (simp add: h1'_def map_of_node_set)
  have m: "(pid, a) \<in> set (ord (map_follower h1'))" using assms(2,10) by (simp add: h1'_def map_of_SomeD)
  have others: "b = a" if "map_of (list_follower h1') b = Some g" "fc_dialogue g = d" for b g
    using that assms(7) map_of_SomeD by (fastforce simp: fo split: if_splits)
  have found: "peek_loop d (list_follower h1') (ord (map_follower h1')) = Some (Some a)"
  proof -
    have "\<forall>m \<in> set (ord (map_follower h1')). \<exists>f. map_of (list_follower h1') (snd m) = Some f"
      using follower_node [OF inv] assms(10) by blast
    moreover have "map_of (list_follower h1') (snd (pid, a)) = Some ?g" by (simp add: fo)
    ultimately have "peek_loop d (list_follower h1') (ord (map_follower h1')) = Some (Some (snd (pid, a)))"
      by (rule peek_loop_found [OF _ m]) (use others in auto)
    then show ?thesis by simp
  qed
  define an where "an = env h1' (turn h1')"
  define it where "it = header_client an fd"
  define h2 where "h2 = header_pushed fd h1'"
  have an: "env h (turn h) = an" by (simp add: an_def h1'_def)
  have it: "ci_fd it = fd" "ci_dialogue it = d" using assms(9) an by (simp_all add: it_def header_client_def)
  have f2: "map_of (list_follower h2) a = Some ?g" "k_open h2 = k_open h1'" "k_broken h2 = k_broken h"
    by (simp_all add: h2_def fo) (simp add: h1'_def)
  define h3 where "h3 = h2\<lparr>k_sent := k_sent h2 @ [(fc_fd f, fd_header fd)],
      list_follower := node_set a (?g\<lparr>fc_dialogue := -1, fc_timestamp := an_pub an\<rparr>) (list_follower h2)\<rparr>"
  have o1: "k_open h1' = k_open h" by (simp add: h1'_def)
  have pub: "publish a it (an_pub an) h2 = Some h3"
    using publish_sends [OF f2(1), of it "an_pub an"] assms(4,5) fd(1) f2 it(1) o1 by (simp add: h3_def)
  have "list_follower h2 = list_follower h1'" "map_follower h2 = map_follower h1'" by (simp_all add: h2_def)
  then have peek: "peek_header ord fd h1' = Some (Entry_destroy e (h3\<lparr>list_client := tl (list_client h3)\<rparr>))"
    unfolding peek_header_eq [OF wf e] Let_def an_def [symmetric] it_def [symmetric] h2_def [symmetric]
    by (simp add: it(2) found pub)
  define h4 where "h4 = h3\<lparr>list_client := tl (list_client h3)\<rparr>"
  have d4: "Entry_destroy e h4 = h4\<lparr>k_open := remove1 fd (k_open h1'), k_epoll := remove1 fd (k_epoll h1'), k_closed := k_closed h1' @ [fd]\<rparr>"
    by (rule Entry_destroy_taken(1) [OF wf e]) (simp_all add: h4_def h3_def h2_def)
  have "k_sent (Entry_destroy e h4) = k_sent h @ [(fc_fd f, fd_header fd)]"
    unfolding d4 by (simp add: h4_def h3_def h2_def h1'_def)
  moreover have "fd \<notin> set (k_open (Entry_destroy e h4))" unfolding d4 using fd(2) by simp
  moreover have "map_of (list_follower (Entry_destroy e h4)) a = Some (?g\<lparr>fc_dialogue := -1, fc_timestamp := an_pub an\<rparr>)"
    unfolding d4 by (simp add: h4_def h3_def map_of_node_set f2(1))
  moreover have "handle_notify pid d t t' h \<bind> peek_header ord fd = Some (Entry_destroy e h4)"
    using h1 peek by (simp add: h1'_def h4_def)
  ultimately show ?thesis by (intro exI conjI) auto
qed


lemma client_first:
  assumes "fwd_inv h" "map_of (map_follower h) pid = Some a" "map_of (list_follower h) a = Some f"
    "fc_fd f \<in> set (k_open h)" "fc_fd f \<notin> set (k_broken h)" "(fd, e) \<in> set (entry_map h)"
    "\<forall>x \<in> set (list_follower h). fc_dialogue (snd x) \<noteq> d"
    "ci_dialogue (header_client (env h (turn h)) fd) = d"
    "\<And>m. set (ord m) = set m" "t \<le> an_now (env h (turn h)) + 5000"
  shows "\<exists>h'. peek_header ord fd h \<bind> handle_notify pid d t t' = Some h' \<and>
    k_sent h' = k_sent h @ [(fc_fd f, fd_header fd)] \<and> fd \<notin> set (k_open h') \<and>
    (\<exists>g. map_of (list_follower h') a = Some g \<and> fc_dialogue g = -1)"
proof -
  have wf: "poll_wf h" using assms(1) by (simp add: fwd_inv_def)
  have fd: "fd \<in> set (k_open h)" "distinct (k_open h)" "fd \<noteq> -1"
    using wf entry_poll_fds [OF assms(6)] by (auto simp: poll_wf_def)
  define an where "an = env h (turn h)"
  define it where "it = header_client an fd"
  define h1 where "h1 = (header_pushed fd h)\<lparr>k_epoll := remove1 fd (k_epoll h)\<rparr>"
  have it: "ci_fd it = fd" "ci_dialogue it = d" "ci_timestamp it = an_now an"
    using assms(8) by (simp_all add: it_def header_client_def an_def)
  have "peek_loop d (list_follower h) (ord (map_follower h)) = Some None"
    using follower_node [OF assms(1)] assms(9) by (intro peek_loop_none assms(7)) blast
  moreover have "Entry_destroy (Entry_giveupOwnership e) (header_pushed fd h) = h1"
    unfolding h1_def by (rule Entry_destroy_taken(2) [OF wf assms(6)]) simp_all
  ultimately have peek: "peek_header ord fd h = Some h1"
    using assms(8) by (simp add: peek_header_eq [OF wf assms(6)] Let_def)
  let ?g = "f\<lparr>fc_dialogue := d\<rparr>"
  define h2 where "h2 = h1\<lparr>list_follower := node_set a ?g (list_follower h1)\<rparr>"
  define h3 where "h3 = h2\<lparr>k_sent := k_sent h2 @ [(fc_fd f, fd_header fd)],
      list_follower := node_set a (?g\<lparr>fc_dialogue := -1, fc_timestamp := t'\<rparr>) (list_follower h2)\<rparr>"
  have f2: "map_of (list_follower h2) a = Some ?g" "k_open h2 = k_open h" "k_broken h2 = k_broken h"
    using assms(3) by (simp_all add: h2_def h1_def map_of_node_set)
  have pub: "publish a it t' h2 = Some h3"
    using publish_sends [OF f2(1), of it t'] assms(4,5) fd(1) f2 it(1) by (simp add: h3_def)
  have "notify_loop a d t t' (list_client h2) [] h2 =
      Some ([], (Close fd h3)\<lparr>list_client := node_erase (next_node h) (list_client h3)\<rparr>)"
    using assms(10) pub it
    by (simp add: h2_def h1_def an_def [symmetric] it_def [symmetric] CLIENTINFO_EXPIREDTHRESHOLD_def Let_def)
  then have "handle_notify pid d t t' h1 = Some ((Close fd h3)\<lparr>list_client := node_erase (next_node h) (list_client h3)\<rparr>)"
    using assms(2,3) by (simp add: handle_notify_def h2_def [symmetric] Let_def) (simp add: h2_def h1_def)
  moreover have "fd \<notin> set (k_open (Close fd h3))" "list_follower (Close fd h3) = list_follower h3" "k_sent (Close fd h3) = k_sent h3"
    using fd by (simp_all add: Close_def ValidFd_def sys_close_def h3_def f2)
  moreover have "k_sent h3 = k_sent h @ [(fc_fd f, fd_header fd)]" by (simp add: h3_def h2_def h1_def)
  moreover have "map_of (list_follower h3) a = Some (?g\<lparr>fc_dialogue := -1, fc_timestamp := t'\<rparr>)"
    by (simp add: h3_def map_of_node_set f2(1))
  ultimately show ?thesis using peek by simp
qed


text \<open>C8. A client and the follower that announces its dialogue number find each other in either order: when no
  other follower or client has this number and the client has not expired, the connection is passed to
  that follower exactly once, closed here, and the follower waits for nothing afterwards.\<close>

theorem forwarder_matches:
  assumes "fwd_inv h" "map_of (map_follower h) pid = Some a" "map_of (list_follower h) a = Some f"
    "fc_fd f \<in> set (k_open h)" "fc_fd f \<notin> set (k_broken h)" "(fd, e) \<in> set (entry_map h)"
    "\<forall>x \<in> set (list_follower h). fc_dialogue (snd x) \<noteq> d" "\<forall>x \<in> set (list_client h). ci_dialogue (snd x) \<noteq> d"
    "int_field 1 (peek_bytes (an_data (env h (turn h)))) = d"
    "\<And>m. set (ord m) = set m" "t \<le> an_now (env h (turn h)) + 5000"
  shows "\<forall>r \<in> {handle_notify pid d t t' h \<bind> peek_header ord fd, peek_header ord fd h \<bind> handle_notify pid d t t'}.
    \<exists>h'. r = Some h' \<and> k_sent h' = k_sent h @ [(fc_fd f, fd_header fd)] \<and> fd \<notin> set (k_open h') \<and>
      (\<exists>g. map_of (list_follower h') a = Some g \<and> fc_dialogue g = -1)"
proof -
  have d: "ci_dialogue (header_client (env h (turn h)) fd) = d"
    using assms(9) by (simp add: header_client_def)
  show ?thesis
    using signal_first [OF assms(1-8) d assms(10)] client_first [OF assms(1-7) d assms(10,11)] by simp
qed

text \<open>A forwarder with one follower (process 7, descriptor 4) and one connected client (descriptor 5).\<close>

definition sample_answer :: "nat \<Rightarrow> answer" where
  "sample_answer i = \<lparr>an_accept = True, an_data = [0, 0, 0, 0, 9, 0, 0, 0], an_int = 9, an_pid = 7, an_now = 100, an_pub = 101\<rparr>"

definition sample_forwarder :: Forwarder where
  "sample_forwarder =
     \<lparr>k_open = [3, 4, 5], k_epoll = [4, 5], k_closed = [], k_broken = [], k_sent = [], k_written = [],
      entry_map = [(4, \<lparr>e_fd = 4, e_read = Some NotifyConnecting2, e_close = Some (Some FollowerQuit), e_cleanup = Some 4\<rparr>),
                   (5, \<lparr>e_fd = 5, e_read = Some PeekHeader, e_close = Some None, e_cleanup = Some 5\<rparr>)],
      list_client = [], list_follower = [(0, \<lparr>fc_pid = 7, fc_fd = 4, fc_dialogue = -1, fc_timestamp = 0\<rparr>)],
      map_follower = [(7, 0)], next_node = 1, error_count = 0, env = sample_answer, turn = 0\<rparr>"

lemma sample_forwarder_inv: "fwd_inv sample_forwarder"
  by (simp add: fwd_inv_def sample_forwarder_def poll_wf_def poll_fds_def)

theorem forwarder_matches_witness:
  "\<exists>h'. peek_header id 5 sample_forwarder \<bind> handle_notify 7 9 200 201 = Some h' \<and> k_sent h' = [(4, fd_header 5)]"
proof -
  have "\<forall>r \<in> {handle_notify 7 9 200 201 sample_forwarder \<bind> peek_header id 5, peek_header id 5 sample_forwarder \<bind> handle_notify 7 9 200 201}.
    \<exists>h'. r = Some h' \<and> k_sent h' = k_sent sample_forwarder @ [(4, fd_header 5)] \<and> 5 \<notin> set (k_open h') \<and>
      (\<exists>g. map_of (list_follower h') 0 = Some g \<and> fc_dialogue g = -1)"
    using forwarder_matches [OF sample_forwarder_inv, of 7 0 "\<lparr>fc_pid = 7, fc_fd = 4, fc_dialogue = -1, fc_timestamp = 0\<rparr>"
        5 "\<lparr>e_fd = 5, e_read = Some PeekHeader, e_close = Some None, e_cleanup = Some 5\<rparr>" 9 id 200 201]
    by (simp add: sample_forwarder_def sample_answer_def int_field_def peek_bytes_def PAYLOADHEADER_PARTIALLENGTH_def)
  then show ?thesis by (auto simp: sample_forwarder_def)
qed

theorem forwarder_faults_iff_witness: "forwarder_handle id 1 FollowerQuit 4 sample_forwarder = None"
  using forwarder_faults_iff [OF sample_forwarder_inv, of 4
      "\<lparr>e_fd = 4, e_read = Some NotifyConnecting2, e_close = Some (Some FollowerQuit), e_cleanup = Some 4\<rparr>" id 1 FollowerQuit]
  by (simp add: sample_forwarder_def)

definition sample_sys :: "int \<Rightarrow> sock_sys" where
  "sample_sys fd = \<lparr>ss_remove = True, ss_socket = fd, ss_setsockopt = True, ss_aton = True, ss_bind = True, ss_listen = True, ss_connect = True\<rparr>"

theorem forwarder_invariant_witness:
  "\<exists>h. Forwarder_initialize (sample_sys 4) (str ''/tmp/forwarder.ipc'') 5 (sample_sys 6) (Forwarder_new sample_answer [3]) \<bind>
     Forwarder_loop id 1 3 [Events [(6, EPOLLIN), (7, EPOLLIN)], Events [(3, EPOLLIN)]] = Some h \<and> fwd_inv h"
proof -
  let ?r = "Forwarder_initialize (sample_sys 4) (str ''/tmp/forwarder.ipc'') 5 (sample_sys 6) (Forwarder_new sample_answer [3]) \<bind>
     Forwarder_loop id 1 3 [Events [(6, EPOLLIN), (7, EPOLLIN)], Events [(3, EPOLLIN)]]"
  have "?r \<noteq> None" by code_simp
  then obtain h where "?r = Some h" by blast
  then show ?thesis
    using forwarder_invariant [of "sample_sys 4" 5 "sample_sys 6" "[3]" "str ''/tmp/forwarder.ipc''" 3 sample_answer id 1]
    by (auto simp: sample_sys_def)
qed

section \<open>Expired clients and unannounced dialogues\<close>

lemma notify_loop_expired:
  assumes "\<forall>x \<in> set cs. ci_dialogue (snd x) \<noteq> d"
  shows "notify_loop a d current now cs invalid h =
    Some (invalid @ map fst (filter (\<lambda>x. current - ci_timestamp (snd x) > CLIENTINFO_EXPIREDTHRESHOLD) cs), h)"
  using assms
proof (induction cs arbitrary: invalid)
  case (Cons x cs)
  then show ?case by (cases x) auto
qed simp

lemma fold_node_erase: "set (fold node_erase ns l) = {x \<in> set l. fst x \<notin> set ns}"
  by (induction ns arbitrary: l) auto

text \<open>
  An expired client is dropped from the list without closing its descriptor: afterwards the descriptor is
  open and neither an entry nor a waiting client owns it.
\<close>

lemma expired_client_leaks:
  assumes "fwd_inv h" "map_of (map_follower h) pid = Some a" "map_of (list_follower h) a = Some f"
    "(n, c) \<in> set (list_client h)" "t - ci_timestamp c > 5000" "\<forall>x \<in> set (list_client h). ci_dialogue (snd x) \<noteq> d"
  shows "\<exists>h'. handle_notify pid d t t' h = Some h' \<and> ci_fd c \<in> set (k_open h') \<and> ci_fd c \<notin> poll_fds h' \<and>
    (\<forall>x \<in> set (list_client h'). ci_fd (snd x) \<noteq> ci_fd c)"
proof -
  let ?h = "h\<lparr>list_follower := node_set a (f\<lparr>fc_dialogue := d\<rparr>) (list_follower h)\<rparr>"
  let ?i = "map fst (filter (\<lambda>x. t - ci_timestamp (snd x) > CLIENTINFO_EXPIREDTHRESHOLD) (list_client h))"
  have eq: "handle_notify pid d t t' h = Some (?h\<lparr>list_client := fold node_erase ?i (list_client h)\<rparr>)"
    using assms(2,3) notify_loop_expired [of "list_client ?h" d a t t' "[]" ?h] assms(6)
    by (simp add: handle_notify_def Let_def)
  have n: "n \<in> set ?i" using assms(4,5) by (force simp: CLIENTINFO_EXPIREDTHRESHOLD_def)
  have "ci_fd (snd x) \<noteq> ci_fd c" if "x \<in> set (list_client h)" "fst x \<noteq> n" for x
    using assms(1,4) that by (auto simp: fwd_inv_def distinct_map inj_on_def)
  then have "\<forall>x \<in> set (fold node_erase ?i (list_client h)). ci_fd (snd x) \<noteq> ci_fd c"
    unfolding fold_node_erase using n by (metis (mono_tags, lifting) mem_Collect_eq)
  moreover have "ci_fd c \<in> set (k_open h)" "ci_fd c \<notin> poll_fds h" using assms(1,4) by (auto simp: fwd_inv_def)
  ultimately show ?thesis unfolding eq by (simp add: poll_fds_def)
qed

text \<open>
  A follower that announced nothing has the dialogue number -1, and so has a client whose header says
  -1: such a client is passed on without any announcement.
\<close>

lemma unannounced_client_forwarded:
  assumes "fwd_inv h" "m \<in> set (map_follower h)" "map_of (list_follower h) (snd m) = Some f" "fc_dialogue f = -1"
    "(fd, e) \<in> set (entry_map h)"
    "int_field 1 (peek_bytes (an_data (env h (turn h)))) = -1" "\<And>m. set (ord m) = set m"
    "\<forall>x \<in> set (list_follower h). fc_fd (snd x) \<in> set (k_open h) - set (k_broken h)"
  shows "\<exists>h' x. peek_header ord fd h = Some h' \<and> x \<in> set (list_follower h) \<and>
    k_sent h' = k_sent h @ [(fc_fd (snd x), fd_header fd)]"
proof -
  have wf: "poll_wf h" using assms(1) by (simp add: fwd_inv_def)
  let ?an = "env h (turn h)" and ?it = "header_client (env h (turn h)) fd"
  have it: "ci_dialogue ?it = -1" "ci_fd ?it = fd" using assms(6) by (simp_all add: header_client_def)
  have all: "\<forall>m \<in> set (ord (map_follower h)). \<exists>f. map_of (list_follower h) (snd m) = Some f"
    using follower_node [OF assms(1)] assms(7) by blast
  obtain r where r: "peek_loop (-1) (list_follower h) (ord (map_follower h)) = Some r"
    "\<forall>a. r = Some a \<longrightarrow> (\<exists>f. map_of (list_follower h) a = Some f \<and> fc_dialogue f = -1)"
    using peek_loop_total [OF all] by blast
  have "peek_loop (-1) (list_follower h) ms \<noteq> Some None" if "m \<in> set ms" for ms
    using that
  proof (induction ms)
    case (Cons x ms)
    then show ?case using assms(3,4) by (cases x) (auto split: bind_splits)
  qed simp
  then obtain a g where a: "r = Some a" "map_of (list_follower h) a = Some g"
    using r assms(2,7) by (metis not_Some_eq)
  then have g: "(a, g) \<in> set (list_follower h)" by (simp add: map_of_SomeD)
  have fd: "fd \<in> set (k_open h)" using wf entry_poll_fds [OF assms(5)] by (auto simp: poll_wf_def)
  have "fc_fd g \<in> set (k_open h)" "fc_fd g \<notin> set (k_broken h)" using assms(8) g by auto
  then obtain h3 where h3: "publish a ?it (an_pub ?an) (header_pushed fd h) = Some h3"
      "k_sent h3 = k_sent h @ [(fc_fd g, fd_header fd)]"
    using publish_sends [of "header_pushed fd h" a g ?it "an_pub ?an"] a(2) fd it(2) by simp
  have "k_sent (Entry_destroy e (h3\<lparr>list_client := tl (list_client h3)\<rparr>)) = k_sent h3"
    by (auto simp: Entry_destroy_def Unregister_def Close_def sys_close_def Let_def split: option.splits)
  then show ?thesis
    using h3 r a(1) it g
    by (intro exI [of _ "Entry_destroy e (h3\<lparr>list_client := tl (list_client h3)\<rparr>)"] exI [of _ "(a, g)"])
       (simp add: peek_header_eq [OF wf assms(5)] Let_def)
qed

end
