(* ===== verification/Coordinator.thy ===== *)
theory Coordinator
  imports Forwarder
begin

text \<open>
  The coordinator and the worker of \<^verbatim>\<open>src/socket/monitor/examples\<close>: the coordinator passes accepted
  connections to idle workers and drops workers whose heartbeat stops, by a wheel of ten slots of shared
  records; the worker accepts descriptors from the coordinator and serves them.

  Shared pointers are addresses into a store; the use count of a record is the number of references that
  the map, the wheel and the slot being examined hold.  The messages of the heartbeat are of a type the
  sources do not declare, so they are a parameter: a record of functions on an arbitrary type.
\<close>

section \<open>State of the coordinator\<close>

datatype ccb = AcceptConnection | OnWheelTick | AcceptWorkerConnection | OnRecvHeartBeat | CoordinatorQuit

record WorkerMeta =
  wm_pid :: int
  wm_handler :: int

record WorkerHeartBeatInfo =
  hb_pid :: int
  hb_handler :: int
  hb_timestamp :: real

record 'm message_ops =
  is_ping :: "'m \<Rightarrow> bool"
  msg_pid :: "'m \<Rightarrow> int"
  as_pong :: "int \<Rightarrow> real \<Rightarrow> 'm \<Rightarrow> 'm"
  msg_image :: "'m \<Rightarrow> u8 list"

record Coordinator = "ccb Poll" +
  busy_workers :: "WorkerMeta list"
  idle_workers :: "WorkerMeta list"
  infos :: "(nat \<times> WorkerHeartBeatInfo) list"
  heartBeatInfo :: "(int \<times> nat option) list"
  timeWheel :: "nat TimeWheel"

section \<open>Workers announced by files\<close>

text \<open>\<^verbatim>\<open>sscanf(name, "worker.%d", &pid)\<close> with \<^verbatim>\<open>pid\<close> zero before.\<close>

definition scan_worker :: "u8 list \<Rightarrow> int option" where
  "scan_worker name = (if take 7 name = str ''worker.'' then atoi (drop 7 name) else Some 0)"

text \<open>A local copy of a list has nodes of its own; reading an erased node is undefined.\<close>

definition nodes :: "'a list \<Rightarrow> (nat \<times> 'a) list" where
  "nodes xs = zip [0..<length xs] xs"

text \<open>\<open>sock\<close> and \<open>conn_ok\<close> are the answers of \<^verbatim>\<open>socket\<close> and \<^verbatim>\<open>connect\<close>.\<close>

definition OnIpcFileCreate :: "u8 list \<Rightarrow> int \<Rightarrow> bool \<Rightarrow> Coordinator \<Rightarrow> Coordinator option" where
  "OnIpcFileCreate name sock conn_ok c = do {
     pid \<leftarrow> scan_worker name;
     if pid = 0 then Some c
     else
       (let busy = nodes (busy_workers c) in
        case find (\<lambda>x. wm_pid (snd x) = pid) busy of
          Some x \<Rightarrow> do {
            let busy = node_erase (fst x) busy;
            w \<leftarrow> map_of busy (fst x);
            Some (c\<lparr>idle_workers := idle_workers c @ [w], busy_workers := map snd busy\<rparr>)
          }
        | None \<Rightarrow>
            (let c = sys_open sock c in
             if sun_path_size \<le> length name then None
             else if \<not> conn_ok then Some c
             else Some (c\<lparr>idle_workers := idle_workers c @ [\<lparr>wm_pid = pid, wm_handler = sock\<rparr>]\<rparr>)))
   }"

section \<open>Connections\<close>

text \<open>\<open>alive\<close> says which process ids exist.\<close>

fun drop_invalid :: "(int \<Rightarrow> bool) \<Rightarrow> 'z Kernel_scheme \<Rightarrow> (nat \<times> WorkerMeta) list \<Rightarrow> (nat \<times> WorkerMeta) list" where
  "drop_invalid alive k [] = []"
| "drop_invalid alive k ((n, w) # ws) =
     (if alive (wm_pid w) \<and> ValidFd (wm_handler w) k then (n, w) # ws else drop_invalid alive k ws)"

definition Accept :: "(int \<Rightarrow> bool) \<Rightarrow> bool \<Rightarrow> Coordinator \<Rightarrow> Coordinator option" where
  "Accept alive ok c =
     (let sock = sys_accept ok c in
      if sock = -1 then Some c
      else
        (let c = sys_open sock c in
         case drop_invalid alive c (nodes (idle_workers c)) of
           [] \<Rightarrow> Some (sys_close sock c)
         | (n, w) # ws \<Rightarrow> do {
             let c = snd (SendFd (wm_handler w) sock c);
             let idle = node_erase n ((n, w) # ws);
             w \<leftarrow> map_of idle n;
             let c = c\<lparr>busy_workers := busy_workers c @ [w], idle_workers := map snd idle\<rparr>;
             Some (sys_close sock c)
           }))"

section \<open>Heartbeats\<close>




definition recv_heartbeat :: "'m message_ops \<Rightarrow> int \<Rightarrow> real \<Rightarrow> 'm \<Rightarrow> int \<Rightarrow> Coordinator \<Rightarrow> Coordinator option" where
  "recv_heartbeat mo pid now m fd c =
     (if is_ping mo m then do {
        r \<leftarrow> map_of (heartBeatInfo c) fd;
        a \<leftarrow> r;
        i \<leftarrow> map_of (infos c) a;
        let i = i\<lparr>hb_pid := msg_pid mo m, hb_timestamp := now\<rparr>;
        let c = c\<lparr>infos := node_set a i (infos c), timeWheel := current_add a (timeWheel c)\<rparr>;
        Some (sys_write fd (msg_image mo (as_pong mo pid now m)) c)
      } else Some c)"


section \<open>Construction and destruction\<close>


definition Coordinator_destroy :: "Coordinator \<Rightarrow> Coordinator" where
  "Coordinator_destroy c =
     fold (\<lambda>w. Close (wm_handler w)) (idle_workers c) (fold (\<lambda>w. Close (wm_handler w)) (busy_workers c) c)"

section \<open>Worker\<close>

datatype worker_state = STARTUP | BUSY | IDLE | FINISH

datatype wcb = WorkerAccept | OnRecvFd | WorkConn | WorkDone | RecvPong | HeartBeatLost | SendPingTimer | WorkerQuit

text \<open>\<open>touched\<close> says whether the notifier file exists.\<close>

record Worker = "wcb Poll" +
  w_state :: worker_state
  w_pid :: int
  check_cred :: bool
  touched :: bool
  valid_heartbeat_handler :: bool

definition Touch :: "Worker \<Rightarrow> Worker" where
  "Touch w = w\<lparr>touched := True\<rparr>"

text \<open>\<open>got\<close> is what \<^verbatim>\<open>read\<close> returns.\<close>

definition Work_conn :: "int \<Rightarrow> u8 list option \<Rightarrow> Worker \<Rightarrow> Worker option" where
  "Work_conn fd got w = Echo fd got w"

text \<open>\<open>cred\<close> is the process id \<^verbatim>\<open>SO_PEERCRED\<close> reports, if the call succeeds.\<close>

definition checkCred :: "int option \<Rightarrow> Worker \<Rightarrow> bool" where
  "checkCred cred w \<longleftrightarrow> (if check_cred w then cred = Some (w_pid w) else True)"

definition recv_fd :: "int option \<Rightarrow> cmsghdr option option \<Rightarrow> int \<Rightarrow> Worker \<Rightarrow> Worker option" where
  "recv_fd cred msg fd w =
     (if checkCred cred w then do {
        sock \<leftarrow> RecvFd msg;
        if sock = -1 then Some w
        else
          (let w = registerEntry sock (Some WorkConn) (Some WorkDone) (sys_open sock w) in
           Some (w\<lparr>touched := False, w_state := BUSY\<rparr>))
      }
      else Some (sys_close fd w))"

definition work_done :: "Worker \<Rightarrow> Worker" where
  "work_done w = (Touch w)\<lparr>w_state := IDLE\<rparr>"

definition worker_accept :: "bool \<Rightarrow> Worker \<Rightarrow> Worker" where
  "worker_accept ok w =
     (let sock = sys_accept ok w in
      if sock = -1 then w else registerEntry sock (Some OnRecvFd) None (sys_open sock w))"

definition Worker_new :: "int list \<Rightarrow> int \<Rightarrow> Worker" where
  "Worker_new fds unix =
     registerEntry unix (Some WorkerAccept) None
       \<lparr>k_open = fds, k_epoll = [], k_closed = [], k_broken = [], k_sent = [], k_written = [],
        entry_map = [], w_state = STARTUP, w_pid = -1, check_cred = True, touched = False,
        valid_heartbeat_handler = True\<rparr>"

text \<open>\<open>sys\<close> are the answers for the connection to the coordinator and \<open>timer\<close> the timer's descriptor.\<close>

definition startHeartBeat :: "sock_sys \<Rightarrow> int \<Rightarrow> u8 list \<Rightarrow> Worker \<Rightarrow> (bool \<times> Worker) option" where
  "startHeartBeat sys timer ipc w =
     (let w = Touch w in
      if w_pid w \<noteq> -1 then do {
        (e, w) \<leftarrow> UnixClient sys ipc w;
        let fd = fst (transferOwnership e);
        let w = registerEntry fd (Some RecvPong) (Some HeartBeatLost) w;
        let w = registerEntry timer (Some SendPingTimer) None (sys_open timer w);
        Some (True, w)
      }
      else Some (False, w))"

text \<open>The timer callback and the one for a lost connection; \<open>client\<close> is the captured descriptor.\<close>

definition send_ping_timer :: "u8 list \<Rightarrow> int \<Rightarrow> Worker \<Rightarrow> Worker" where
  "send_ping_timer msg client w = (if valid_heartbeat_handler w then sys_write client msg w else w)"

definition heartbeat_lost :: "Worker \<Rightarrow> Worker" where
  "heartbeat_lost w = w\<lparr>valid_heartbeat_handler := False\<rparr>"

section \<open>Handing a connection to a worker\<close>

lemma drop_invalid_dropWhile:
  "drop_invalid alive k ws = dropWhile (\<lambda>x. \<not> (alive (wm_pid (snd x)) \<and> ValidFd (wm_handler (snd x)) k)) ws"
  by (induction alive k ws rule: drop_invalid.induct) auto

lemma drop_invalid_Nil_iff:
  "drop_invalid alive k (nodes ws) = [] \<longleftrightarrow> (\<forall>w \<in> set ws. \<not> (alive (wm_pid w) \<and> ValidFd (wm_handler w) k))"
proof -
  have "snd ` set (nodes ws) = set ws" by (simp add: nodes_def flip: set_map)
  then show ?thesis unfolding drop_invalid_dropWhile dropWhile_eq_Nil_conv by (metis (no_types, lifting) imageE imageI)
qed

text \<open>Whenever an idle worker is alive and reachable, accepting a connection is undefined: the connection is
  passed on and then the list node of the worker is read after it was erased.  Otherwise the connection
  is closed and nothing else changes.\<close>

theorem accept_faults_iff:
  "Accept alive True c =
    (if \<exists>w \<in> set (idle_workers c). alive (wm_pid w) \<and> wm_handler w \<in> insert (new_fd c) (set (k_open c))
     then None else Some (c\<lparr>k_epoll := remove1 (new_fd c) (k_epoll c), k_closed := k_closed c @ [new_fd c]\<rparr>))"
proof -
  let ?s = "new_fd c"
  have s: "?s \<noteq> -1" using new_fd_fresh(2) [of c] by simp
  have op: "sys_open ?s c = c\<lparr>k_open := ?s # k_open c\<rparr>" using s by (simp add: sys_open_def)
  have val: "ValidFd fd (sys_open ?s c) \<longleftrightarrow> fd \<in> insert ?s (set (k_open c))" for fd
    by (simp add: op ValidFd_def)
  show ?thesis
  proof (cases "drop_invalid alive (sys_open ?s c) (nodes (idle_workers c))")
    case Nil
    then have "\<not> (\<exists>w \<in> set (idle_workers c). alive (wm_pid w) \<and> wm_handler w \<in> insert ?s (set (k_open c)))"
      unfolding drop_invalid_Nil_iff val by blast
    moreover have "Accept alive True c = Some (sys_close ?s (sys_open ?s c))"
      using Nil s by (simp add: Accept_def sys_accept_def Let_def op)
    ultimately show ?thesis by (simp add: op sys_close_def)
  next
    case (Cons x ws)
    then have "\<exists>w \<in> set (idle_workers c). alive (wm_pid w) \<and> wm_handler w \<in> insert ?s (set (k_open c))"
      using drop_invalid_Nil_iff [of alive "sys_open ?s c" "idle_workers c"] unfolding val by auto
    moreover have "Accept alive True c = None"
      using Cons s by (cases x) (simp add: Accept_def sys_accept_def Let_def op)
    ultimately show ?thesis by simp
  qed
qed


section \<open>The wheel\<close>


lemma poll_erase_coordinator [simp]:
  "timeWheel (poll_erase fd c) = timeWheel c" "infos (poll_erase fd c) = infos c" "heartBeatInfo (poll_erase fd c) = heartBeatInfo c"
  by (auto simp: poll_erase_def Entry_destroy_def Unregister_def Close_def sys_close_def Let_def split: option.splits)


lemma poll_fds_heartBeatInfo [simp]:
  "poll_fds (heartBeatInfo_update f c) = poll_fds c" "poll_fds (timeWheel_update g c) = poll_fds c"
  by (simp_all add: poll_fds_def)

























section \<open>A rejected peer\<close>

text \<open>C38. A worker that rejects the peer it just accepted closes the descriptor and leaves its entry in the poll.
  The next peer gets the same number, and is closed and out of the epoll set before it sends anything, while
  the poll still has an entry for it.\<close>

theorem rejected_peer_poisons:
  assumes "poll_wf w" "\<not> checkCred cred w"
  shows "\<exists>w2 w3. recv_fd cred msg (new_fd w) (worker_accept True w) = Some w2 \<and> new_fd w2 = new_fd w \<and>
    w3 = worker_accept True w2 \<and> new_fd w \<in> poll_fds w3 \<and> new_fd w \<notin> set (k_epoll w3) \<and>
    k_open w3 = k_open w \<and> k_closed w3 = k_closed w @ [new_fd w, new_fd w]"
proof -
  let ?s = "new_fd w"
  define e where "e = \<lparr>e_fd = ?s, e_read = Some OnRecvFd, e_close = Some None, e_cleanup = Some ?s\<rparr>"
  have s: "?s \<noteq> -1" "?s \<notin> set (k_open w)" using new_fd_fresh [of w] by auto
  have n: "?s \<notin> poll_fds w" "?s \<notin> set (k_epoll w)" "distinct (k_open w)" using assms(1) s(2) by (auto simp: poll_wf_def)
  define w1 where "w1 = w\<lparr>k_open := ?s # k_open w, k_epoll := ?s # k_epoll w, entry_map := (?s, e) # entry_map w\<rparr>"
  have w1: "worker_accept True w = w1"
    using s(1) n registerEntry_fresh [of ?s "sys_open ?s w" "Some OnRecvFd" None]
    by (simp add: worker_accept_def sys_accept_def sys_open_def w1_def e_def poll_fds_def Let_def)
  define w2 where "w2 = w\<lparr>entry_map := (?s, e) # entry_map w, k_closed := k_closed w @ [?s]\<rparr>"
  have "\<not> checkCred cred w1" using assms(2) by (auto simp: checkCred_def w1_def split: if_splits)
  then have w2: "recv_fd cred msg ?s w1 = Some w2" by (simp add: recv_fd_def sys_close_def w1_def w2_def)
  have nf: "new_fd w2 = ?s" by (simp add: new_fd_def w2_def)
  have "worker_accept True w2 = registerEntry ?s (Some OnRecvFd) None (w2\<lparr>k_open := ?s # k_open w\<rparr>)"
    using s(1) nf by (simp add: worker_accept_def sys_accept_def sys_open_def Let_def w2_def)
  also have "\<dots> = w2\<lparr>k_open := k_open w, k_closed := k_closed w @ [?s, ?s],
      entry_map := (?s, e) # entry_without ?s ((?s, e) # entry_map w)\<rparr>"
    using s n by (subst registerEntry_stale [where e = e]) (simp_all add: w2_def e_def)
  finally show ?thesis using w1 w2 nf n(2) by (simp add: poll_fds_def w2_def)
qed

theorem rejected_peer_poisons_witness:
  "\<exists>w2 w3. recv_fd (Some 7) None 4 (worker_accept True (Worker_new [0, 1, 2, 3] 3)) = Some w2 \<and>
    w3 = worker_accept True w2 \<and> 4 \<in> poll_fds w3 \<and> k_closed w3 = [4, 4]"
proof -
  define w where "w = Worker_new [0, 1, 2, 3] 3"
  have "poll_wf w" "\<not> checkCred (Some 7) w" "new_fd w = 4" "k_closed w = []"
    unfolding w_def by code_simp+
  then show ?thesis using rejected_peer_poisons [of w "Some 7" None] unfolding w_def by auto
qed

end
