(* ===== verification/Network.thy ===== *)
theory Network
  imports Forwarder
begin

text \<open>
  The tools and connections shared by the programs of \<^verbatim>\<open>src/socket\<close> (\<^verbatim>\<open>tool.h\<close>, \<^verbatim>\<open>tool.cpp\<close>, \<^verbatim>\<open>network.h\<close>,
  \<^verbatim>\<open>connection.cpp\<close>), the multicast group of \<^verbatim>\<open>group.cpp\<close> and the server of \<^verbatim>\<open>server.cpp\<close>.

  Connections are objects owned by shared pointers: a heap maps addresses to the live objects, the clients
  give the pointers they hold and the ones their callbacks capture, and an object is destroyed, which closes
  its descriptor, when no pointer to it is left.  A callback is a value that its client interprets.
\<close>

unbundle bit_operations_syntax

section \<open>Tools\<close>

text \<open>\<^verbatim>\<open>FdHelper::Close\<close> returns the new value of its reference argument.\<close>

definition FdHelper_Close :: "int \<Rightarrow> 'z Kernel_scheme \<Rightarrow> int \<times> 'z Kernel_scheme" where
  "FdHelper_Close fd k = (if fd \<noteq> -1 then (-1, sys_close fd k) else (fd, k))"

text \<open>A pipe that does not block; a write to a full pipe fails and is ignored.\<close>

record Terminator =
  tm_read :: int
  tm_write :: int
  tm_pipe :: "u8 list"

definition PIPE_CAPACITY :: nat where
  "PIPE_CAPACITY = 65536"

definition observeFd :: "Terminator \<Rightarrow> int" where
  "observeFd t = tm_read t"

definition Terminator_trigger :: "Terminator \<Rightarrow> Terminator" where
  "Terminator_trigger t = (if length (tm_pipe t) < PIPE_CAPACITY then t\<lparr>tm_pipe := tm_pipe t @ str ''Q''\<rparr> else t)"

definition Terminator_cleanup :: "Terminator \<Rightarrow> Terminator" where
  "Terminator_cleanup t = t\<lparr>tm_pipe := tl (tm_pipe t)\<rparr>"

text \<open>A cleaner holds a closure until it is cancelled; \<open>run\<close> says what calling the closure does.\<close>

type_synonym 'c Cleaner = "'c option"

definition Cleaner_cancel :: "'c Cleaner \<Rightarrow> 'c Cleaner" where
  "Cleaner_cancel c = None"

definition Cleaner_destroy :: "('c \<Rightarrow> 's \<Rightarrow> 's) \<Rightarrow> 'c Cleaner \<Rightarrow> 's \<Rightarrow> 's" where
  "Cleaner_destroy run c s = (case c of None \<Rightarrow> s | Some f \<Rightarrow> run f s)"

record Counter =
  ct_count :: nat
  ct_ts :: real

definition Counter_MAX :: nat where
  "Counter_MAX = 30"

definition Counter_Reset :: "real \<Rightarrow> Counter \<Rightarrow> Counter" where
  "Counter_Reset ts c = c\<lparr>ct_count := 0, ct_ts := ts\<rparr>"

definition Counter_new :: "real \<Rightarrow> Counter" where
  "Counter_new now = \<lparr>ct_count = 0, ct_ts = now\<rparr>"

text \<open>The frequency that a tick prints, if any.\<close>

definition Counter_tick :: "real \<Rightarrow> Counter \<Rightarrow> real option \<times> Counter" where
  "Counter_tick now c =
     (let c = c\<lparr>ct_count := ct_count c + 1\<rparr> in
      if ct_count c = Counter_MAX then (Some (real (ct_count c) / (now - ct_ts c)), Counter_Reset now c)
      else (None, c))"

record Recorder =
  rc_tag :: "u8 list"
  rc_ts :: real
  rc_emit :: bool

definition Recorder_new :: "u8 list \<Rightarrow> real \<Rightarrow> Recorder" where
  "Recorder_new tag now = \<lparr>rc_tag = tag, rc_ts = now, rc_emit = False\<rparr>"

text \<open>The move assignment: the new target and the new source.\<close>

definition Recorder_move :: "Recorder \<Rightarrow> Recorder \<Rightarrow> Recorder \<times> Recorder" where
  "Recorder_move this other =
     (\<lparr>rc_tag = rc_tag other, rc_ts = rc_ts other, rc_emit = rc_emit other\<rparr>, other\<lparr>rc_tag := rc_tag this\<rparr>)"

definition Recorder_Done :: "real \<Rightarrow> Recorder \<Rightarrow> (u8 list \<times> real) option \<times> Recorder" where
  "Recorder_Done now r =
     (if \<not> rc_emit r then (Some (rc_tag r, now - rc_ts r), r\<lparr>rc_emit := True\<rparr>) else (None, r))"

definition Recorder_Cancel :: "Recorder \<Rightarrow> Recorder" where
  "Recorder_Cancel r = r\<lparr>rc_emit := True\<rparr>"

record Signal =
  sg_mask :: "int list"
  sg_fd :: int

definition Signal_new :: Signal where
  "Signal_new = \<lparr>sg_mask = [], sg_fd = -1\<rparr>"

definition registerSignal :: "int \<Rightarrow> Signal \<Rightarrow> Signal" where
  "registerSignal signum s = s\<lparr>sg_mask := List.insert signum (sg_mask s)\<rparr>"

text \<open>\<open>sock\<close> is the answer of \<^verbatim>\<open>signalfd\<close>; the result also has the signals that are blocked.\<close>

definition Signal_fd :: "int \<Rightarrow> Signal \<Rightarrow> 'z Kernel_scheme \<Rightarrow> int \<times> int list \<times> Signal \<times> 'z Kernel_scheme" where
  "Signal_fd sock s k =
     (let (s, k) = (if sg_fd s = -1 then (s\<lparr>sg_fd := sock\<rparr>, sys_open sock k) else (s, k)) in
      (sg_fd s, sg_mask s, s, k))"

section \<open>Connections\<close>

record 'cb Connection =
  cn_fd :: int
  cn_recv :: "'cb option"
  cn_send :: "'cb option"
  cn_close :: "'cb option"
  cn_buffer :: "u8 list"

definition Connection_new :: "int \<Rightarrow> 'cb Connection" where
  "Connection_new fd = \<lparr>cn_fd = fd, cn_recv = None, cn_send = None, cn_close = None, cn_buffer = []\<rparr>"

record 'cb Net = Kernel +
  heap :: "(nat \<times> 'cb Connection) list"
  heap_next :: nat

definition make_connection :: "int \<Rightarrow> ('cb, 'z) Net_scheme \<Rightarrow> nat \<times> ('cb, 'z) Net_scheme" where
  "make_connection fd n =
     (heap_next n, n\<lparr>heap := heap n @ [(heap_next n, Connection_new fd)], heap_next := Suc (heap_next n)\<rparr>)"

definition Connection_Cleanup :: "int \<Rightarrow> 'z Kernel_scheme \<Rightarrow> 'z Kernel_scheme" where
  "Connection_Cleanup fd k = (if fd \<noteq> -1 then sys_close fd k else k)"

definition epollRegister :: "int \<Rightarrow> 'z Kernel_scheme \<Rightarrow> int \<times> 'z Kernel_scheme" where
  "epollRegister fd k =
     (if fd \<in> set (k_open k) \<and> fd \<notin> set (k_epoll k) then (0, k\<lparr>k_epoll := fd # k_epoll k\<rparr>) else (-1, k))"

definition epollUnregister :: "int \<Rightarrow> 'z Kernel_scheme \<Rightarrow> int \<times> 'z Kernel_scheme" where
  "epollUnregister fd k =
     (if fd \<in> set (k_open k) \<and> fd \<in> set (k_epoll k) then (0, k\<lparr>k_epoll := remove1 fd (k_epoll k)\<rparr>) else (-1, k))"

definition registerCallback ::
  "'cb option \<Rightarrow> 'cb option \<Rightarrow> 'cb option \<Rightarrow> nat \<Rightarrow> ('cb, 'z) Net_scheme \<Rightarrow> ('cb, 'z) Net_scheme option" where
  "registerCallback on_recv on_send on_close a n = do {
     c \<leftarrow> map_of (heap n) a;
     Some (n\<lparr>heap := node_set a (c\<lparr>cn_recv := on_recv, cn_send := on_send, cn_close := on_close\<rparr>) (heap n)\<rparr>)
   }"

definition Connection_cancel :: "nat \<Rightarrow> ('cb, 'z) Net_scheme \<Rightarrow> ('cb, 'z) Net_scheme option" where
  "Connection_cancel a n = do {
     c \<leftarrow> map_of (heap n) a;
     Some (n\<lparr>heap := node_set a (c\<lparr>cn_fd := -1\<rparr>) (heap n)\<rparr>)
   }"

definition eventTrigger ::
  "('cb \<Rightarrow> int \<Rightarrow> ('cb, 'z) Net_scheme \<Rightarrow> ('cb, 'z) Net_scheme option) \<Rightarrow> u32 \<Rightarrow> nat \<Rightarrow> ('cb, 'z) Net_scheme \<Rightarrow>
   ('cb, 'z) Net_scheme option" where
  "eventTrigger call events a n = do {
     c \<leftarrow> map_of (heap n) a;
     if events AND EPOLLRDHUP \<noteq> 0 then
       (let n = snd (epollUnregister (cn_fd c) n) in
        case cn_close c of None \<Rightarrow> Some n | Some cb \<Rightarrow> call cb (cn_fd c) n)
     else if events AND EPOLLIN \<noteq> 0 then
       (case cn_recv c of None \<Rightarrow> Some n | Some cb \<Rightarrow> call cb (cn_fd c) n)
     else Some n
   }"

text \<open>
  The number of shared pointers to an object: the ones the client holds (\<open>roots\<close>) and the ones captured by
  the callbacks of live objects.  \<open>release\<close> is what dropping a pointer does.
\<close>

definition callbacks :: "'cb Connection \<Rightarrow> 'cb list" where
  "callbacks c = concat (map (\<lambda>x. case x of None \<Rightarrow> [] | Some cb \<Rightarrow> [cb]) [cn_recv c, cn_send c, cn_close c])"

definition conn_refs :: "('cb \<Rightarrow> nat list) \<Rightarrow> nat list \<Rightarrow> nat \<Rightarrow> ('cb, 'z) Net_scheme \<Rightarrow> nat" where
  "conn_refs captures roots a n =
     count_list roots a + count_list (concat (map (\<lambda>x. concat (map captures (callbacks (snd x)))) (heap n))) a"

definition release :: "('cb \<Rightarrow> nat list) \<Rightarrow> nat list \<Rightarrow> nat \<Rightarrow> ('cb, 'z) Net_scheme \<Rightarrow> ('cb, 'z) Net_scheme" where
  "release captures roots a n =
     (case map_of (heap n) a of
        None \<Rightarrow> n
      | Some c \<Rightarrow>
          if conn_refs captures roots a n = 0 then Connection_Cleanup (cn_fd c) (n\<lparr>heap := node_erase a (heap n)\<rparr>)
          else n)"

section \<open>Multicast group\<close>

record group_sys =
  gs_socket :: int
  gs_reuseaddr :: bool
  gs_reuseport :: bool
  gs_bind :: bool
  gs_join :: bool

text \<open>\<^verbatim>\<open>SETSOCKOPT\<close>: on failure the socket is closed and its variable set to -1.\<close>

definition SETSOCKOPT :: "bool \<Rightarrow> int \<Rightarrow> 'z Kernel_scheme \<Rightarrow> bool \<times> int \<times> 'z Kernel_scheme" where
  "SETSOCKOPT ok sock k = (if \<not> ok then (False, -1, sys_close sock k) else (True, sock, k))"

definition Group_Join :: "group_sys \<Rightarrow> int \<Rightarrow> 'z Kernel_scheme \<Rightarrow> bool \<times> int \<times> 'z Kernel_scheme" where
  "Group_Join sys fd k = SETSOCKOPT (gs_join sys) fd k"

text \<open>The descriptor of the new group; the cleaner's closure closes the variable \<^verbatim>\<open>fd\<close>.\<close>

definition Group_new :: "group_sys \<Rightarrow> 'z Kernel_scheme \<Rightarrow> int \<times> 'z Kernel_scheme" where
  "Group_new sys k =
     (let fd = gs_socket sys; k = sys_open fd k in
      if fd = -1 then (-1, k)
      else
        (let cleaner = Some (); finish = (\<lambda>fd cleaner k. Cleaner_destroy (\<lambda>_. sys_close fd) cleaner k) in
         case SETSOCKOPT (gs_reuseaddr sys) fd k of (ok, fd, k) \<Rightarrow>
         if \<not> ok then (-1, finish fd cleaner k)
         else case SETSOCKOPT (gs_reuseport sys) fd k of (ok, fd, k) \<Rightarrow>
         if \<not> ok then (-1, finish fd cleaner k)
         else if \<not> gs_bind sys then (-1, finish fd cleaner k)
         else
           (let cleaner = Cleaner_cancel cleaner in
            case Group_Join sys fd k of (ok, member, k) \<Rightarrow> (member, finish fd cleaner k))))"

section \<open>Server\<close>

datatype scb = ServerAccept | ServerRecv nat | ServerClosed nat

fun server_captures :: "scb \<Rightarrow> nat list" where
  "server_captures (ServerClosed a) = [a]"
| "server_captures _ = []"

record Server = "scb Net" +
  server_handler :: "nat option"
  connections :: "nat list"
  new_connection :: "nat option"
  received :: "(nat \<times> u8 list) list"

datatype server_type = TCP | UDP

record server_sys =
  sv_socket :: int
  sv_reuseaddr :: bool
  sv_reuseport :: bool
  sv_bind :: bool
  sv_listen :: bool

datatype server_error = Logic_error

text \<open>The constructor; the result also says whether the thread was started.\<close>

definition Server_new :: "server_type \<Rightarrow> server_sys \<Rightarrow> Server \<Rightarrow> server_error + bool \<times> Server" where
  "Server_new type sys s =
     (case type of
        UDP \<Rightarrow> Inl Logic_error
      | TCP \<Rightarrow>
          Inr (let fd = sv_socket sys; s = sys_open fd s in
            if fd = -1 then (False, s)
            else
              (let cleaner = Some (); finish = (\<lambda>fd cleaner s. Cleaner_destroy (\<lambda>_. sys_close fd) cleaner s) in
               case SETSOCKOPT (sv_reuseaddr sys) fd s of (ok, fd, s) \<Rightarrow>
               if \<not> ok then (False, finish fd cleaner s)
               else case SETSOCKOPT (sv_reuseport sys) fd s of (ok, fd, s) \<Rightarrow>
               if \<not> ok then (False, finish fd cleaner s)
               else if \<not> sv_bind sys then (False, finish fd cleaner s)
               else if \<not> sv_listen sys then (False, finish fd cleaner s)
               else
                 (let cleaner = Cleaner_cancel cleaner in
                  case make_connection fd s of (a, s) \<Rightarrow>
                    (True, finish fd cleaner (s\<lparr>server_handler := Some a\<rparr>))))))"

definition Server_init :: "int list \<Rightarrow> Server" where
  "Server_init fds =
     \<lparr>k_open = fds, k_epoll = [], k_closed = [], k_broken = [], k_sent = [], k_written = [], heap = [], heap_next = 0,
      server_handler = None, connections = [], new_connection = None, received = []\<rparr>"

text \<open>
  With every event come the answers its callback may need: whether \<^verbatim>\<open>accept4\<close> succeeds, and what \<^verbatim>\<open>recv\<close>
  delivers.  After a failing \<^verbatim>\<open>recv\<close> the message is logged with a negative precision, which reads the
  uninitialized array.
\<close>

record epoll_server_event =
  ev_fd :: int
  ev_events :: u32
  ev_accept :: bool
  ev_got :: "u8 list option"

definition server_roots :: "Server \<Rightarrow> nat list" where
  "server_roots s =
     connections s @ (case server_handler s of None \<Rightarrow> [] | Some a \<Rightarrow> [a]) @
     (case new_connection s of None \<Rightarrow> [] | Some a \<Rightarrow> [a])"

definition Server_Accept :: "bool \<Rightarrow> Server \<Rightarrow> Server" where
  "Server_Accept ok s =
     (let fd = sys_accept ok s in
      if fd = -1 then s
      else
        (case make_connection fd (sys_open fd s) of (a, s) \<Rightarrow>
           (let old = new_connection s; s = s\<lparr>new_connection := Some a\<rparr> in
            case old of None \<Rightarrow> s | Some b \<Rightarrow> release server_captures (server_roots s) b s)))"

definition server_call :: "epoll_server_event \<Rightarrow> scb \<Rightarrow> int \<Rightarrow> Server \<Rightarrow> Server option" where
  "server_call ev cb fd s =
     (case cb of
        ServerAccept \<Rightarrow> Some (Server_Accept (ev_accept ev) s)
      | ServerRecv p \<Rightarrow> map_option (\<lambda>bs. s\<lparr>received := received s @ [(p, bs)]\<rparr>) (ev_got ev)
      | ServerClosed a \<Rightarrow>
          (let s = s\<lparr>connections := removeAll a (connections s)\<rparr> in
           Some (release server_captures (server_roots s) a s)))"

text \<open>
  One event: the first connection with its descriptor is triggered, and a connection that was accepted
  meanwhile is registered.  The flag says that \<^verbatim>\<open>run\<close> returns.
\<close>

definition server_find :: "int \<Rightarrow> Server \<Rightarrow> nat option" where
  "server_find fd s = find (\<lambda>a. map_option cn_fd (map_of (heap s) a) = Some fd) (connections s)"

definition server_event :: "epoll_server_event \<Rightarrow> Server \<Rightarrow> (bool \<times> Server) option" where
  "server_event ev s =
     (case server_find (ev_fd ev) s of
        None \<Rightarrow> Some (False, s)
      | Some a \<Rightarrow> do {
          s \<leftarrow> eventTrigger (server_call ev) (ev_events ev) a s;
          case new_connection s of
            None \<Rightarrow> Some (False, s)
          | Some b \<Rightarrow> do {
              c \<leftarrow> map_of (heap s) b;
              let (rc, s) = epollRegister (cn_fd c) s;
              if rc = -1 then Some (True, s)
              else do {
                s \<leftarrow> registerCallback (Some (ServerRecv b)) None (Some (ServerClosed b)) b s;
                Some (False, s\<lparr>connections := b # connections s, new_connection := None\<rparr>)
              }
            }
        })"

fun server_events :: "int \<Rightarrow> epoll_server_event list \<Rightarrow> Server \<Rightarrow> (bool \<times> Server) option" where
  "server_events tfd [] s = Some (False, s)"
| "server_events tfd (ev # evs) s =
     (if ev_fd ev = tfd then Some (False, s)
      else do {
        (r, s) \<leftarrow> server_event ev s;
        if r then Some (True, s) else server_events tfd evs s
      })"

datatype server_wait = ServerEvents "epoll_server_event list" | ServerWaitFailed

fun server_rounds :: "int \<Rightarrow> server_wait list \<Rightarrow> Server \<Rightarrow> (bool \<times> Server) option" where
  "server_rounds tfd [] s = Some (False, s)"
| "server_rounds tfd (ServerWaitFailed # ws) s = Some (True, s)"
| "server_rounds tfd (ServerEvents evs # ws) s = do {
     (r, s) \<leftarrow> server_events tfd evs s;
     if r then Some (True, s) else server_rounds tfd ws s
   }"

text \<open>
  \<open>epfd\<close> is the answer of \<^verbatim>\<open>epoll_create1\<close>.  The terminator's descriptor is registered through a temporary
  connection that is cancelled before it is destroyed.
\<close>

definition server_start :: "int \<Rightarrow> int \<Rightarrow> Server \<Rightarrow> (bool \<times> Server) option" where
  "server_start epfd tfd s =
     (if epfd = -1 then Some (True, s)
      else do {
        let s = sys_open epfd s;
        a \<leftarrow> server_handler s;
        c \<leftarrow> map_of (heap s) a;
        let (rc, s) = epollRegister (cn_fd c) s;
        if rc = -1 then Some (True, sys_close epfd s)
        else do {
          s \<leftarrow> registerCallback (Some ServerAccept) None None a s;
          let s = s\<lparr>connections := List.insert a (connections s)\<rparr>;
          let (rc, s) = epollRegister tfd s;
          if rc = -1 then Some (True, sys_close epfd (Connection_Cleanup tfd s)) else Some (False, s)
        }
      })"

definition server_run :: "int \<Rightarrow> int \<Rightarrow> server_wait list \<Rightarrow> Server \<Rightarrow> (bool \<times> Server) option" where
  "server_run epfd tfd ws s = do {
     (r, s) \<leftarrow> server_start epfd tfd s;
     if r then Some (True, s)
     else do {
       (r, s) \<leftarrow> server_rounds tfd ws s;
       Some (r, if r then sys_close epfd s else s)
     }
   }"

text \<open>The port of \<^verbatim>\<open>main\<close> from the value of its argument, if there is one.\<close>

definition PORT_BASE :: int where
  "PORT_BASE = 10000"

definition server_port :: "int option \<Rightarrow> 16 word" where
  "server_port arg =
     (case arg of
        None \<Rightarrow> of_int (PORT_BASE + 2)
      | Some t \<Rightarrow> of_int (PORT_BASE + (if t > PORT_BASE then t mod PORT_BASE else t)))"

section \<open>The server never closes a connection\<close>

text \<open>
  A well-formed server has no connection in transit; its objects have distinct open descriptors; every object
  but the listener captures a pointer to itself; and exactly the connections it still knows are registered.
\<close>

definition server_obj :: "nat \<Rightarrow> int set \<Rightarrow> nat set \<Rightarrow> nat \<times> scb Connection \<Rightarrow> bool" where
  "server_obj h E C x \<longleftrightarrow>
     (if fst x = h then cn_recv (snd x) = Some ServerAccept \<and> cn_close (snd x) = None
      else cn_recv (snd x) = Some (ServerRecv (fst x)) \<and> cn_close (snd x) = Some (ServerClosed (fst x)) \<and>
        (cn_fd (snd x) \<in> E \<longleftrightarrow> fst x \<in> C))"

definition server_wf :: "Server \<Rightarrow> bool" where
  "server_wf s \<longleftrightarrow>
     distinct (map fst (heap s)) \<and> (\<forall>x \<in> set (heap s). fst x < heap_next s) \<and> new_connection s = None \<and>
     set (connections s) \<subseteq> fst ` set (heap s) \<and>
     distinct (map (cn_fd \<circ> snd) (heap s)) \<and> distinct (k_epoll s) \<and> set (k_epoll s) \<subseteq> set (k_open s) \<and>
     (\<forall>x \<in> set (heap s). cn_fd (snd x) \<in> set (k_open s)) \<and>
     (\<exists>h. server_handler s = Some h \<and> h \<in> fst ` set (heap s) \<and>
        (\<forall>x \<in> set (heap s). server_obj h (set (k_epoll s)) (set (connections s)) x))"

lemma release_captured:
  assumes "(a, c) \<in> set (heap n)" "cn_close c = Some cb" "a \<in> set (captures cb)"
  shows "release captures roots a n = n"
proof -
  have "cb \<in> set (callbacks c)" using assms(2) by (auto simp: callbacks_def)
  then have "a \<in> set (concat (map (\<lambda>x. concat (map captures (callbacks (snd x)))) (heap n)))"
    using assms(1,3) by force
  then have "conn_refs captures roots a n \<noteq> 0" unfolding conn_refs_def by (simp add: count_list_0_iff)
  then show ?thesis by (simp add: release_def split: option.split)
qed

lemma server_find_Some:
  assumes "server_find fd s = Some a"
  obtains c where "(a, c) \<in> set (heap s)" "cn_fd c = fd" "a \<in> set (connections s)" "map_of (heap s) a = Some c"
proof -
  obtain c where "map_of (heap s) a = Some c" "cn_fd c = fd" "a \<in> set (connections s)"
    using assms by (auto simp: server_find_def find_Some_iff)
  then show thesis using that map_of_SomeD by metis
qed

lemma epollUnregister_eq: "fd \<in> set (k_open k) \<Longrightarrow> snd (epollUnregister fd k) = k\<lparr>k_epoll := remove1 fd (k_epoll k)\<rparr>"
  by (simp add: epollUnregister_def remove1_idem)

lemma heap_fd_inj:
  "distinct (map (cn_fd \<circ> snd) h) \<Longrightarrow> (a, c) \<in> set h \<Longrightarrow> (b, d) \<in> set h \<Longrightarrow> cn_fd c = cn_fd d \<Longrightarrow> a = b"
  by (fastforce simp: distinct_map inj_on_def)

definition server_kept :: "Server \<Rightarrow> Server \<Rightarrow> bool" where
  "server_kept s s' \<longleftrightarrow> server_wf s' \<and> k_closed s' = k_closed s \<and> set (k_open s) \<subseteq> set (k_open s')"

lemma server_close_kept:
  assumes "server_wf s" "(a, c) \<in> set (heap s)" "server_handler s \<noteq> Some a"
  shows "server_kept s (s\<lparr>k_epoll := remove1 (cn_fd c) (k_epoll s), connections := removeAll a (connections s)\<rparr>)"
proof -
  obtain h where h: "server_handler s = Some h" "h \<in> fst ` set (heap s)"
    "\<forall>x \<in> set (heap s). server_obj h (set (k_epoll s)) (set (connections s)) x"
    using assms(1) unfolding server_wf_def by blast
  have d: "distinct (map (cn_fd \<circ> snd) (heap s))" "distinct (k_epoll s)"
    using assms(1) by (simp_all add: server_wf_def)
  have "\<forall>x \<in> set (heap s). cn_fd (snd x) = cn_fd c \<longleftrightarrow> fst x = a"
  proof
    fix x assume x: "x \<in> set (heap s)"
    have "distinct (map fst (heap s))" using assms(1) by (simp add: server_wf_def)
    then have "fst x = a \<Longrightarrow> snd x = c" using x assms(2) by (metis eq_key_imp_eq_value prod.collapse)
    then show "cn_fd (snd x) = cn_fd c \<longleftrightarrow> fst x = a"
      using heap_fd_inj [OF d(1), of "fst x" "snd x" a c] x assms(2) by auto
  qed
  then have "\<forall>x \<in> set (heap s). server_obj h (set (remove1 (cn_fd c) (k_epoll s))) (set (removeAll a (connections s))) x"
    using h(3) d(2) by (simp add: server_obj_def)
  then show ?thesis
    using assms(1) h(1,2) set_remove1_subset [of "cn_fd c" "k_epoll s"] unfolding server_kept_def server_wf_def
    by simp blast
qed

lemma server_listener_kept:
  assumes "server_wf s" "(a, c) \<in> set (heap s)" "server_handler s = Some a"
  shows "server_kept s (s\<lparr>k_epoll := remove1 (cn_fd c) (k_epoll s)\<rparr>)"
proof -
  have d: "distinct (map (cn_fd \<circ> snd) (heap s))" "distinct (k_epoll s)"
    using assms(1) by (simp_all add: server_wf_def)
  have "\<forall>x \<in> set (heap s). fst x \<noteq> a \<longrightarrow> cn_fd (snd x) \<noteq> cn_fd c"
    using heap_fd_inj [OF d(1)] assms(2) by (metis prod.collapse)
  then have "\<forall>x \<in> set (heap s). server_obj a (set (remove1 (cn_fd c) (k_epoll s))) (set (connections s)) x"
    using assms(1,3) d(2) by (simp add: server_obj_def server_wf_def)
  then show ?thesis
    using assms set_remove1_subset [of "cn_fd c" "k_epoll s"] unfolding server_kept_def server_wf_def by simp blast
qed

text \<open>The state after a connection was accepted and registered.\<close>

definition server_accepted :: "Server \<Rightarrow> Server" where
  "server_accepted s =
     (let b = heap_next s; fd = new_fd s in
      s\<lparr>k_open := fd # k_open s, k_epoll := fd # k_epoll s,
        heap := heap s @ [(b, \<lparr>cn_fd = fd, cn_recv = Some (ServerRecv b), cn_send = None,
                               cn_close = Some (ServerClosed b), cn_buffer = []\<rparr>)],
        heap_next := Suc b, connections := b # connections s\<rparr>)"

lemma server_accepted_kept:
  assumes "server_wf s"
  shows "server_kept s (server_accepted s)"
proof -
  have f: "new_fd s \<notin> set (k_open s)" by (rule new_fd_fresh)
  obtain h where h: "server_handler s = Some h" "h \<in> fst ` set (heap s)"
    "\<forall>x \<in> set (heap s). server_obj h (set (k_epoll s)) (set (connections s)) x"
    using assms unfolding server_wf_def by blast
  have n: "\<forall>x \<in> set (heap s). fst x \<noteq> heap_next s \<and> cn_fd (snd x) \<noteq> new_fd s" "h \<noteq> heap_next s"
    using assms f h(2) by (auto simp: server_wf_def)
  have "\<forall>x \<in> set (heap s). server_obj h (insert (new_fd s) (set (k_epoll s))) (insert (heap_next s) (set (connections s))) x"
    using h(3) n by (simp add: server_obj_def)
  moreover have "heap_next s \<notin> fst ` set (heap s)" "new_fd s \<notin> (cn_fd \<circ> snd) ` set (heap s)" "new_fd s \<notin> set (k_epoll s)"
    using n assms f by (auto simp: server_wf_def)
  moreover have "server_obj h (insert (new_fd s) (set (k_epoll s))) (insert (heap_next s) (set (connections s)))
      (heap_next s, \<lparr>cn_fd = new_fd s, cn_recv = Some (ServerRecv (heap_next s)), cn_send = None,
         cn_close = Some (ServerClosed (heap_next s)), cn_buffer = []\<rparr>)"
    using n(2) by (simp add: server_obj_def)
  ultimately show ?thesis
    using assms h(1,2) unfolding server_kept_def server_wf_def server_accepted_def Let_def
    by (simp add: less_Suc_eq) blast
qed

lemma server_kept_trans: "server_kept s t \<Longrightarrow> server_kept t u \<Longrightarrow> server_kept s u"
  by (auto simp: server_kept_def)

lemma server_event_accept:
  assumes "server_wf s" "server_find (ev_fd ev) s = Some a" "map_of (heap s) a = Some c" "cn_recv c = Some ServerAccept"
    "ev_accept ev" "ev_events ev AND EPOLLRDHUP = 0" "ev_events ev AND EPOLLIN \<noteq> 0"
  shows "server_event ev s = Some (False, server_accepted s)"
proof -
  have fd: "new_fd s \<noteq> -1" "new_fd s \<notin> set (k_open s)" "new_fd s \<notin> set (k_epoll s)" "new_connection s = None"
    using new_fd_fresh [of s] assms(1) by (auto simp: server_wf_def)
  have "map_of (heap s) (heap_next s) = None" using assms(1) by (auto simp: server_wf_def map_of_eq_None_iff)
  then have m: "([heap_next s \<mapsto> x] ++ map_of (heap s)) (heap_next s) = Some x" for x by (simp add: map_add_def)
  have ns: "node_set (heap_next s) y (heap s @ [(heap_next s, x)]) = heap s @ [(heap_next s, y)]" for x y
    using assms(1) by (auto simp: node_set_def server_wf_def intro!: map_idI)
  show ?thesis
    using assms(2-) fd
    by (simp add: server_event_def eventTrigger_def server_call_def Server_Accept_def sys_accept_def sys_open_def
        make_connection_def epollRegister_def registerCallback_def m ns Connection_new_def server_accepted_def Let_def)
qed

lemma server_event_kept:
  assumes "server_wf s" "ev_got ev \<noteq> None"
  shows "\<exists>s'. server_event ev s = Some (False, s') \<and> server_kept s s'"
proof (cases "server_find (ev_fd ev) s")
  case None
  then show ?thesis using assms by (simp add: server_event_def server_kept_def)
next
  case (Some a)
  obtain c where c: "(a, c) \<in> set (heap s)" "cn_fd c = ev_fd ev" "a \<in> set (connections s)" "map_of (heap s) a = Some c"
    using server_find_Some [OF Some] .
  have op: "cn_fd c \<in> set (k_open s)" and nn: "new_connection s = None"
    using assms(1) c(1) by (auto simp: server_wf_def)
  obtain h where h: "server_handler s = Some h" "server_obj h (set (k_epoll s)) (set (connections s)) (a, c)"
    using assms(1) c(1) unfolding server_wf_def by blast
  note defs = server_event_def eventTrigger_def Some c(4) nn epollUnregister_eq [OF op]
  consider (hup) "ev_events ev AND EPOLLRDHUP \<noteq> 0" | (input) "ev_events ev AND EPOLLRDHUP = 0" "ev_events ev AND EPOLLIN \<noteq> 0"
    | (none) "ev_events ev AND EPOLLRDHUP = 0" "ev_events ev AND EPOLLIN = 0" by blast
  then show ?thesis
  proof cases
    case hup
    show ?thesis
    proof (cases "a = h")
      case True
      then have "cn_close c = None" using h(2) by (simp add: server_obj_def)
      then show ?thesis using server_listener_kept [OF assms(1) c(1)] h(1) [folded True] hup by (simp add: defs)
    next
      case False
      let ?s = "s\<lparr>k_epoll := remove1 (cn_fd c) (k_epoll s), connections := removeAll a (connections s)\<rparr>"
      have cb: "cn_close c = Some (ServerClosed a)" using h(2) False by (simp add: server_obj_def)
      have "release server_captures (server_roots ?s) a ?s = ?s"
        by (rule release_captured [OF _ cb]) (use c(1) in simp_all)
      then show ?thesis using server_close_kept [OF assms(1) c(1)] h(1) False hup cb
        by (simp add: defs server_call_def Let_def)
    qed
  next
    case input
    show ?thesis
    proof (cases "a = h")
      case True
      then have cb: "cn_recv c = Some ServerAccept" using h(2) by (simp add: server_obj_def)
      show ?thesis
      proof (cases "ev_accept ev")
        case True
        have "server_event ev s = Some (False, server_accepted s)"
          using server_event_accept [OF assms(1) Some c(4) cb] True input by simp
        then show ?thesis using server_accepted_kept [OF assms(1)] by blast
      next
        case False
        then show ?thesis using cb input assms(1)
          by (simp add: defs server_call_def Server_Accept_def sys_accept_def server_kept_def)
      qed
    next
      case False
      then have cb: "cn_recv c = Some (ServerRecv a)" using h(2) by (simp add: server_obj_def)
      obtain bs where "ev_got ev = Some bs" using assms(2) by blast
      then show ?thesis using cb input assms(1)
        by (simp add: defs server_call_def server_kept_def server_wf_def)
    qed
  next
    case none
    then show ?thesis using assms(1) by (simp add: defs server_kept_def)
  qed
qed

lemma server_events_kept:
  assumes "server_wf s" "\<forall>ev \<in> set evs. ev_got ev \<noteq> None"
  shows "\<exists>s'. server_events tfd evs s = Some (False, s') \<and> server_kept s s'"
  using assms
proof (induction evs arbitrary: s)
  case (Cons ev evs)
  obtain s1 where s1: "server_event ev s = Some (False, s1)" "server_kept s s1"
    using server_event_kept [of s ev] Cons.prems by auto
  moreover obtain s2 where "server_events tfd evs s1 = Some (False, s2)" "server_kept s1 s2"
    using Cons.IH [of s1] Cons.prems(2) s1(2) unfolding server_kept_def by auto
  moreover have "server_kept s s" using Cons.prems(1) by (simp add: server_kept_def)
  ultimately show ?case using server_kept_trans [OF s1(2)] by (cases "ev_fd ev = tfd") simp_all
qed (simp add: server_kept_def)

text \<open>C19. The server's loop, over every sequence of waits: nothing it does is undefined, its objects stay
  well-formed, it returns exactly when a wait fails (a terminate request does not end it), and it closes
  no descriptor: the callback of every connection owns the connection, so a peer that hangs up stays open.\<close>

theorem server_never_closes:
  assumes "server_wf s" "\<forall>evs. ServerEvents evs \<in> set ws \<longrightarrow> (\<forall>ev \<in> set evs. ev_got ev \<noteq> None)"
  shows "\<exists>s'. server_rounds tfd ws s = Some (ServerWaitFailed \<in> set ws, s') \<and> server_wf s' \<and>
    k_closed s' = k_closed s \<and> set (k_open s) \<subseteq> set (k_open s')"
  using assms
proof (induction ws arbitrary: s)
  case (Cons w ws)
  show ?case
  proof (cases w)
    case (ServerEvents evs)
    obtain s1 where s1: "server_events tfd evs s = Some (False, s1)" "server_kept s s1"
      using server_events_kept [of s evs tfd] Cons.prems ServerEvents by fastforce
    obtain s2 where "server_rounds tfd ws s1 = Some (ServerWaitFailed \<in> set ws, s2)" "server_wf s2"
      "k_closed s2 = k_closed s1" "set (k_open s1) \<subseteq> set (k_open s2)"
      using Cons.IH [of s1] Cons.prems(2) s1(2) by (auto simp: server_kept_def)
    then show ?thesis using s1 ServerEvents by (auto simp: server_kept_def)
  qed (use Cons.prems in simp)
qed simp

definition sample_server :: Server where
  "sample_server =
     (case Server_new TCP \<lparr>sv_socket = 5, sv_reuseaddr = True, sv_reuseport = True, sv_bind = True, sv_listen = True\<rparr>
             (Server_init [0, 1, 2, 3, 4]) of
        Inl _ \<Rightarrow> Server_init []
      | Inr (_, s) \<Rightarrow> (case server_start 6 3 s of None \<Rightarrow> Server_init [] | Some (_, s) \<Rightarrow> s))"

theorem server_never_closes_witness:
  "\<exists>s'. server_rounds 3
      [ServerEvents [\<lparr>ev_fd = 5, ev_events = EPOLLIN, ev_accept = True, ev_got = Some []\<rparr>],
       ServerEvents [\<lparr>ev_fd = 7, ev_events = EPOLLRDHUP, ev_accept = True, ev_got = Some []\<rparr>]] sample_server = Some (False, s') \<and>
    server_wf s' \<and> k_closed s' = []"
proof -
  have s: "sample_server =
    \<lparr>k_open = [6, 5, 0, 1, 2, 3, 4], k_epoll = [3, 5], k_closed = [], k_broken = [], k_sent = [], k_written = [],
     heap = [(0, \<lparr>cn_fd = 5, cn_recv = Some ServerAccept, cn_send = None, cn_close = None, cn_buffer = []\<rparr>)], heap_next = 1,
     server_handler = Some 0, connections = [0], new_connection = None, received = []\<rparr>"
    by (simp add: sample_server_def Server_new_def Server_init_def SETSOCKOPT_def sys_open_def make_connection_def
        Connection_new_def Cleaner_cancel_def Cleaner_destroy_def server_start_def epollRegister_def
        registerCallback_def node_set_def)
  have "server_wf sample_server" unfolding s by (simp add: server_wf_def server_obj_def)
  from server_never_closes [OF this, where ws = "[ServerEvents [\<lparr>ev_fd = 5, ev_events = EPOLLIN, ev_accept = True, ev_got = Some []\<rparr>],
       ServerEvents [\<lparr>ev_fd = 7, ev_events = EPOLLRDHUP, ev_accept = True, ev_got = Some []\<rparr>]]" and tfd = 3]
  show ?thesis by (auto simp: s)
qed

text \<open>A peer that hangs up is forgotten, while its object and its descriptor stay.\<close>

lemma server_hangup_leaks:
  assumes "server_wf s" "a \<in> set (connections s)" "map_of (heap s) a = Some c" "server_handler s \<noteq> Some a"
    "ev_fd ev = cn_fd c" "ev_events ev = EPOLLRDHUP"
  shows "server_event ev s =
    Some (False, s\<lparr>k_epoll := remove1 (cn_fd c) (k_epoll s), connections := removeAll a (connections s)\<rparr>)"
proof -
  have c: "(a, c) \<in> set (heap s)" using assms(3) by (rule map_of_SomeD)
  have w: "distinct (map (cn_fd \<circ> snd) (heap s))" "new_connection s = None" "cn_fd c \<in> set (k_open s)"
    using assms(1) c by (auto simp: server_wf_def)
  have "server_find (ev_fd ev) s = Some a"
  proof (cases "server_find (ev_fd ev) s")
    case None
    then show ?thesis using assms(2,3,5) by (auto simp: server_find_def find_None_iff)
  next
    case (Some b)
    obtain d where "(b, d) \<in> set (heap s)" "cn_fd d = ev_fd ev" using server_find_Some [OF Some] by metis
    then show ?thesis using heap_fd_inj [OF w(1) _ c] assms(5) Some by metis
  qed
  moreover have cb: "cn_close c = Some (ServerClosed a)"
    using assms(1,4) c unfolding server_wf_def server_obj_def by fastforce
  moreover have "EPOLLRDHUP AND EPOLLRDHUP \<noteq> 0" by (simp add: EPOLLRDHUP_def)
  moreover let ?s = "s\<lparr>k_epoll := remove1 (cn_fd c) (k_epoll s), connections := removeAll a (connections s)\<rparr>"
  have "release server_captures (server_roots ?s) a ?s = ?s"
    by (rule release_captured [OF _ cb]) (use c in simp_all)
  ultimately show ?thesis
    using assms(3,6) w(2) by (simp add: server_event_def eventTrigger_def server_call_def epollUnregister_eq [OF w(3)] Let_def)
qed

section \<open>Resources and limits\<close>

text \<open>A group that could not be set up holds no descriptor, and leaves the open ones as they were.\<close>

lemma Group_new_releases:
  assumes "gs_socket sys = -1 \<or> gs_socket sys \<notin> set (k_open k)" "-1 \<notin> set (k_open k)" "Group_new sys k = (fd, k')"
  shows "fd = -1 \<and> k_open k' = k_open k \<or> fd = gs_socket sys \<and> fd \<noteq> -1 \<and> k_open k' = fd # k_open k"
  using assms
  by (auto simp: Group_new_def Group_Join_def SETSOCKOPT_def sys_open_def sys_close_def Cleaner_destroy_def
      Cleaner_cancel_def Let_def remove1_idem split: if_splits)

text \<open>A counter reports once every thirty ticks.\<close>

fun ticks_report :: "real list \<Rightarrow> Counter \<Rightarrow> nat \<times> Counter" where
  "ticks_report [] c = (0, c)"
| "ticks_report (t # ts) c =
     (case Counter_tick t c of (f, c) \<Rightarrow> case ticks_report ts c of (n, c) \<Rightarrow> ((if f = None then n else Suc n), c))"

lemma Counter_reports:
  assumes "ct_count c < 30"
  shows "fst (ticks_report ts c) = (ct_count c + length ts) div 30 \<and>
    ct_count (snd (ticks_report ts c)) = (ct_count c + length ts) mod 30"
  using assms
proof (induction ts arbitrary: c)
  case (Cons t ts)
  show ?case
  proof (cases "ct_count c = 29")
    case True
    then have "Counter_tick t c = (Some (30 / (t - ct_ts c)), c\<lparr>ct_count := 0, ct_ts := t\<rparr>)"
      by (simp add: Counter_tick_def Counter_MAX_def Counter_Reset_def Let_def)
    then show ?thesis using Cons.IH [of "c\<lparr>ct_count := 0, ct_ts := t\<rparr>"] True by (simp add: case_prod_beta)
  next
    case False
    then have "Counter_tick t c = (None, c\<lparr>ct_count := ct_count c + 1\<rparr>)"
      by (simp add: Counter_tick_def Counter_MAX_def Let_def)
    then show ?thesis using Cons.IH [of "c\<lparr>ct_count := ct_count c + 1\<rparr>"] Cons.prems False by (simp add: case_prod_beta)
  qed
qed simp

text \<open>A recorder that is moved reports twice: the source keeps its own flag.\<close>

lemma Recorder_move_reports_twice:
  assumes "\<not> rc_emit other" "Recorder_move this other = (r, other')"
  shows "fst (Recorder_Done t r) = Some (rc_tag other, t - rc_ts other)"
    "fst (Recorder_Done t other') = Some (rc_tag this, t - rc_ts other)"
  using assms by (auto simp: Recorder_move_def Recorder_Done_def)

text \<open>The port of a nonnegative argument lies between 10000 and 20000.\<close>

lemma server_port_range:
  assumes "0 \<le> t"
  shows "10000 \<le> sint (server_port (Some t)) \<and> sint (server_port (Some t)) \<le> 20000"
proof -
  define p where "p = 10000 + (if t > 10000 then t mod 10000 else t)"
  have p: "10000 \<le> p" "p \<le> 20000" using assms pos_mod_bound [of 10000 t] by (auto simp: p_def)
  have "sint (of_int p :: 16 word) = signed_take_bit 15 p" by (simp add: signed_of_int)
  also have "\<dots> = p" using p by (intro signed_take_bit_int_eq_self) auto
  finally have "sint (of_int p :: 16 word) = p" .
  moreover have "server_port (Some t) = of_int p" by (simp add: server_port_def PORT_BASE_def p_def)
  ultimately show ?thesis using p by simp
qed

end
