(* ===== verification/Collector.thy ===== *)
theory Collector
  imports Network Telemetry
begin

text \<open>
  The collector of \<^verbatim>\<open>src/socket/collector.h\<close> and \<^verbatim>\<open>collector.cpp\<close>: it receives telemetry datagrams from
  multicast groups, packs and masks them, and sends them over one TCP connection that a timer restores when
  it is lost.  One thread (\<^verbatim>\<open>Produce\<close>) handles the events, a second one (\<^verbatim>\<open>Consume\<close>) sends the payloads; they
  share two vectors under a spin lock and a socket pair that carries one byte per payload.  The blocking
  queue and the block pool of \<^verbatim>\<open>collector.h\<close> come first.
\<close>

unbundle bit_operations_syntax

section \<open>Blocking queue\<close>

record 'a Queue =
  q_data :: "'a list"
  q_finish :: bool

definition Queue_new :: "'a Queue" where
  "Queue_new = \<lparr>q_data = [], q_finish = False\<rparr>"

definition offer :: "'a \<Rightarrow> 'a Queue \<Rightarrow> 'a Queue" where
  "offer t q = q\<lparr>q_data := q_data q @ [t]\<rparr>"

text \<open>\<^verbatim>\<open>poll\<close>: it still waits, or returns its flag and the element it swapped out.\<close>

datatype 'a poll_result = Waits | Returns "'a option"

definition queue_poll :: "'a Queue \<Rightarrow> 'a poll_result \<times> 'a Queue" where
  "queue_poll q =
     (if \<not> (q_finish q \<or> q_data q \<noteq> []) then (Waits, q)
      else if q_finish q then (Returns None, q)
      else (Returns (Some (hd (q_data q))), q\<lparr>q_data := tl (q_data q)\<rparr>))"

definition queue_finish :: "'a Queue \<Rightarrow> 'a Queue" where
  "queue_finish q = q\<lparr>q_finish := True\<rparr>"

section \<open>Block pool\<close>

text \<open>
  The rounded size of a block; the pool's area starts at \<open>base\<close>.  \<open>fresh\<close> is what \<^verbatim>\<open>malloc\<close> returns when the
  stack is empty; the flag of an acquired block says whether its deleter gives it back to the stack.
\<close>

definition pool_block :: "nat \<Rightarrow> nat" where
  "pool_block b = (if b AND 7 \<noteq> 0 then b - (b AND 7) + 8 else b)"

record Pool =
  p_base :: nat
  p_block :: nat
  p_stack :: "nat list"

definition Pool_new :: "nat \<Rightarrow> nat \<Rightarrow> nat \<Rightarrow> Pool" where
  "Pool_new n b base =
     \<lparr>p_base = base, p_block = pool_block b, p_stack = map (\<lambda>i. base + i * pool_block b) [0..<n]\<rparr>"

definition pool_acquire :: "nat \<Rightarrow> Pool \<Rightarrow> (nat \<times> bool) \<times> Pool" where
  "pool_acquire fresh p =
     (if p_stack p \<noteq> [] then ((last (p_stack p), True), p\<lparr>p_stack := butlast (p_stack p)\<rparr>) else ((fresh, False), p))"

definition pool_release :: "nat \<times> bool \<Rightarrow> Pool \<Rightarrow> Pool" where
  "pool_release v p = (if snd v then p\<lparr>p_stack := p_stack p @ [fst v]\<rparr> else p)"

section \<open>Payload channel\<close>

text \<open>
  The two vectors, the bytes on the way in the socket pair, and where the consumer is: before its test of the
  state, blocked in \<^verbatim>\<open>read\<close>, before the swap, at the \<open>i\<close>th payload, or done.  \<open>ch_notify\<close> says that the
  producer has stored a payload and not yet written its byte.  \<open>ch_taken\<close> lists the payloads the consumer has
  gone through, each with whether it was sent.
\<close>

datatype consumer = Consume_top | Consume_read | Consume_swap | Consume_send nat | Consume_end

record Channel =
  ch_pv :: "u8 list list"
  ch_cv :: "u8 list list"
  ch_pipe :: "u8 list"
  ch_at :: consumer
  ch_notify :: bool
  ch_taken :: "(u8 list \<times> bool) list"

definition Channel_new :: Channel where
  "Channel_new = \<lparr>ch_pv = [], ch_cv = [], ch_pipe = [], ch_at = Consume_top, ch_notify = False, ch_taken = []\<rparr>"

definition READY_CHAR :: u8 where
  "READY_CHAR = 82"

definition chan_push :: "u8 list \<Rightarrow> Channel \<Rightarrow> Channel" where
  "chan_push payload c = c\<lparr>ch_pv := ch_pv c @ [payload], ch_notify := True\<rparr>"

definition chan_notify :: "Channel \<Rightarrow> Channel" where
  "chan_notify c = c\<lparr>ch_pipe := ch_pipe c @ [READY_CHAR], ch_notify := False\<rparr>"

definition chan_quit :: "Channel \<Rightarrow> Channel" where
  "chan_quit c = c\<lparr>ch_pipe := ch_pipe c @ str ''QUIT'' @ [0]\<rparr>"

datatype collector_state = UNINITIALIZED_C | READY_C | DISCONNECTED_C | DONE_C

text \<open>One step of \<^verbatim>\<open>Consume\<close> when it sees the given state.\<close>

definition consume_step :: "collector_state \<Rightarrow> Channel \<Rightarrow> Channel" where
  "consume_step st c =
     (case ch_at c of
        Consume_top \<Rightarrow> c\<lparr>ch_at := (if st = DONE_C then Consume_end else Consume_read)\<rparr>
      | Consume_read \<Rightarrow>
          (case ch_pipe c of
             [] \<Rightarrow> c
           | b # bs \<Rightarrow> c\<lparr>ch_pipe := bs, ch_at := (if b \<noteq> READY_CHAR then Consume_end else Consume_swap)\<rparr>)
      | Consume_swap \<Rightarrow>
          (let c = c\<lparr>ch_cv := ch_pv c, ch_pv := ch_cv c\<rparr> in
           c\<lparr>ch_at := (if ch_cv c = [] then Consume_top else Consume_send 0)\<rparr>)
      | Consume_send i \<Rightarrow>
          if i < length (ch_cv c)
          then c\<lparr>ch_taken := ch_taken c @ [(ch_cv c ! i, st = READY_C)], ch_at := Consume_send (Suc i)\<rparr>
          else c\<lparr>ch_cv := [], ch_at := Consume_top\<rparr>
      | Consume_end \<Rightarrow> c)"

section \<open>State of the collector\<close>

datatype kcb = HandleGroupMsg | HandlerInterrupt | SourceClosed nat | RemoteClosed nat | Reconnect

fun kcb_captures :: "kcb \<Rightarrow> nat list" where
  "kcb_captures (SourceClosed a) = [a]"
| "kcb_captures (RemoteClosed a) = [a]"
| "kcb_captures _ = []"

text \<open>
  \<open>kept\<close> is the copy of the handlers that \<^verbatim>\<open>Produce\<close> holds while it handles an event.  The timer's descriptor
  is uninitialized (\<^term>\<open>None\<close>) until the constructor has created the timer; \<open>paired\<close> says whether the socket
  pair exists.
\<close>

record Collector = "kcb Net" +
  col_fd :: int
  epoll_handler :: int
  timer_fd :: "int option"
  timer_armed :: bool
  retry_count :: u64
  col_state :: collector_state
  handlers :: "nat list"
  kept :: "nat list"
  terminator :: Terminator
  chan :: Channel
  paired :: bool
  has_db :: bool
  db_rows :: "(u8 list \<times> u8 list) list"

definition col_roots :: "Collector \<Rightarrow> nat list" where
  "col_roots c = handlers c @ kept c"

text \<open>The answers of the calls of \<^verbatim>\<open>Connect\<close>.\<close>

record connect_sys =
  cs_socket :: bool
  cs_sndtimeo :: bool
  cs_nodelay :: bool
  cs_connect :: bool

definition Collector_Connect :: "connect_sys \<Rightarrow> Collector \<Rightarrow> bool \<times> Collector" where
  "Collector_Connect sys c =
     (let try_connect = (\<lambda>c. (cs_connect sys, c)) in
      if col_fd c = -1 then
        (let fd = sys_accept (cs_socket sys) c; c = (sys_open fd c)\<lparr>col_fd := fd\<rparr> in
         if fd = -1 then (False, c)
         else case SETSOCKOPT (cs_sndtimeo sys) fd c of (ok, fd, c) \<Rightarrow>
         let c = c\<lparr>col_fd := fd\<rparr> in
         if \<not> ok then (False, c)
         else case SETSOCKOPT (cs_nodelay sys) fd c of (ok, fd, c) \<Rightarrow>
         let c = c\<lparr>col_fd := fd\<rparr> in
         if \<not> ok then (False, c) else try_connect c)
      else try_connect c)"

definition handler_find :: "int \<Rightarrow> Collector \<Rightarrow> nat option" where
  "handler_find fd c = find (\<lambda>a. map_option cn_fd (map_of (heap c) a) = Some fd) (handlers c)"

definition OnConnect :: "Collector \<Rightarrow> Collector option" where
  "OnConnect c = do {
     c \<leftarrow> (if col_state c = DISCONNECTED_C then do {
         t \<leftarrow> timer_fd c;
         let c = c\<lparr>timer_armed := False\<rparr>;
         let c = snd (epollUnregister t c);
         case handler_find t c of
           None \<Rightarrow> Some c
         | Some a \<Rightarrow> do {
             let c = c\<lparr>handlers := removeAll a (handlers c)\<rparr>;
             c \<leftarrow> Connection_cancel a c;
             Some (release kcb_captures (col_roots c) a c)
           }
       } else Some c);
     let (a, c) = make_connection (col_fd c) c;
     let c = snd (epollRegister (col_fd c) c);
     c \<leftarrow> registerCallback None None (Some (RemoteClosed a)) a c;
     Some (c\<lparr>handlers := a # handlers c, retry_count := 0, col_state := READY_C\<rparr>)
   }"

definition OnDisconnect :: "Collector \<Rightarrow> Collector option" where
  "OnDisconnect c = do {
     t \<leftarrow> timer_fd c;
     let c = c\<lparr>timer_armed := True\<rparr>;
     let (a, c) = make_connection t c;
     let c = snd (epollRegister t c);
     c \<leftarrow> registerCallback (Some Reconnect) None None a c;
     Some (c\<lparr>handlers := a # handlers c, col_state := DISCONNECTED_C\<rparr>)
   }"

section \<open>Callbacks\<close>

definition addPayload :: "u8 list \<Rightarrow> Collector \<Rightarrow> Collector" where
  "addPayload payload c =
     (let ch = chan_push payload (chan c) in
      c\<lparr>chan := (if paired c then chan_notify ch else ch\<lparr>ch_notify := False\<rparr>)\<rparr>)"

text \<open>
  The answers an event may need: the answers for a new connection, the expirations the timer reports, the
  datagram with the address of its sender as text, and the random byte of the mask.
\<close>

record collector_answer =
  ka_connect :: connect_sys
  ka_expiration :: u64
  ka_got :: "u8 list"
  ka_from :: "u8 list"
  ka_mask :: u8

definition group_payload :: "u8 list \<Rightarrow> u8 list \<Rightarrow> u8 \<Rightarrow> (u8 list \<times> u8 list) option" where
  "group_payload from got msk = do {
     let got = take 64 got;
     buf \<leftarrow> cstring (got @ replicate (64 - length got) 0);
     i \<leftarrow> parseIp from Input_new;
     i \<leftarrow> parseWeight buf i;
     i \<leftarrow> parseBlock buf i;
     let i = parseSerial buf i;
     p \<leftarrow> Encrypt msk (Data_bytes (Encode i)) kDataSize;
     Some (buf, p)
   }"

definition handle_group_msg :: "collector_answer \<Rightarrow> Collector \<Rightarrow> Collector option" where
  "handle_group_msg ans c = do {
     (buf, p) \<leftarrow> group_payload (ka_from ans) (ka_got ans) (ka_mask ans);
     let c = addPayload p c;
     Some (if has_db c then c\<lparr>db_rows := db_rows c @ [(ka_from ans, buf)]\<rparr> else c)
   }"

text \<open>
  \<^verbatim>\<open>quit\<close> asks both threads to end and waits for the consumer, which takes as many steps as the channel's
  size allows.
\<close>

definition chan_size :: "Channel \<Rightarrow> nat" where
  "chan_size c =
     5 * length (ch_pipe c) + 2 * length (ch_pv c) + length (ch_cv c) +
     (case ch_at c of Consume_top \<Rightarrow> 1 | Consume_read \<Rightarrow> 0 | Consume_swap \<Rightarrow> 4 | Consume_send i \<Rightarrow> 3 | Consume_end \<Rightarrow> 0) -
     (case ch_at c of Consume_send i \<Rightarrow> i | _ \<Rightarrow> 0)"

definition Collector_quit :: "Collector \<Rightarrow> Collector" where
  "Collector_quit c =
     (let c = c\<lparr>terminator := Terminator_trigger (terminator c)\<rparr>;
          ch = (if paired c then chan_quit (chan c) else chan c) in
      c\<lparr>chan := (consume_step (col_state c) ^^ chan_size ch) ch\<rparr>)"

definition collector_call :: "collector_answer \<Rightarrow> kcb \<Rightarrow> int \<Rightarrow> Collector \<Rightarrow> Collector option" where
  "collector_call ans cb fd c =
     (case cb of
        HandleGroupMsg \<Rightarrow> handle_group_msg ans c
      | HandlerInterrupt \<Rightarrow> Some (Collector_quit c)
      | SourceClosed a \<Rightarrow>
          (let c = c\<lparr>handlers := removeAll a (handlers c)\<rparr> in Some (release kcb_captures (col_roots c) a c))
      | RemoteClosed a \<Rightarrow> do {
          c \<leftarrow> Connection_cancel a c;
          let c = c\<lparr>handlers := removeAll a (handlers c)\<rparr>;
          let c = release kcb_captures (col_roots c) a c;
          let (fd, c) = FdHelper_Close (col_fd c) c;
          OnDisconnect (c\<lparr>col_fd := fd\<rparr>)
        }
      | Reconnect \<Rightarrow>
          (let c = c\<lparr>retry_count := retry_count c + ka_expiration ans\<rparr> in
           case Collector_Connect (ka_connect ans) c of (ok, c) \<Rightarrow> if ok then OnConnect c else Some c))"

section \<open>Construction and event loop\<close>

record collector_sys =
  ks_connect :: connect_sys
  ks_epoll :: bool
  ks_timer :: bool
  ks_db :: bool

definition Collector_init :: "int list \<Rightarrow> Terminator \<Rightarrow> Collector" where
  "Collector_init fds tm =
     \<lparr>k_open = fds, k_epoll = [], k_closed = [], k_broken = [], k_sent = [], k_written = [], heap = [], heap_next = 0,
      col_fd = -1, epoll_handler = -1, timer_fd = None, timer_armed = False, retry_count = 0,
      col_state = UNINITIALIZED_C, handlers = [], kept = [], terminator = tm, chan = Channel_new, paired = False,
      has_db = False, db_rows = []\<rparr>"

definition Collector_new :: "collector_sys \<Rightarrow> Collector \<Rightarrow> Collector" where
  "Collector_new sys c =
     (case Collector_Connect (ks_connect sys) c of (ok, c) \<Rightarrow>
        if \<not> ok then c
        else
          (let e = sys_accept (ks_epoll sys) c; c = (sys_open e c)\<lparr>epoll_handler := e\<rparr> in
           if e = -1 then c
           else
             (let t = sys_accept (ks_timer sys) c; c = (sys_open t c)\<lparr>timer_fd := Some t\<rparr> in
              if t = -1 then c else c\<lparr>has_db := ks_db sys, paired := True, col_state := READY_C\<rparr>)))"

definition registerSource :: "int \<Rightarrow> kcb \<Rightarrow> Collector \<Rightarrow> (bool \<times> Collector) option" where
  "registerSource fd on_recv c =
     (if epoll_handler c = -1 then Some (False, sys_close fd c)
      else
        (case make_connection fd c of (a, c) \<Rightarrow>
         case epollRegister fd c of (rc, c) \<Rightarrow>
           if rc = -1 then Some (False, release kcb_captures (col_roots c) a c)
           else do {
             c \<leftarrow> registerCallback (Some on_recv) None (Some (SourceClosed a)) a c;
             Some (True, c\<lparr>handlers := a # handlers c\<rparr>)
           }))"

record epoll_collector_event =
  ke_fd :: int
  ke_events :: u32
  ke_answer :: collector_answer

text \<open>The flag says that the terminator's event ends the loop.\<close>

definition collector_event :: "epoll_collector_event \<Rightarrow> Collector \<Rightarrow> (bool \<times> Collector) option" where
  "collector_event ev c =
     (if ke_fd ev = observeFd (terminator c)
      then Some (True, c\<lparr>terminator := Terminator_cleanup (terminator c), col_state := DONE_C\<rparr>)
      else
        (let c = c\<lparr>kept := handlers c\<rparr> in
         case handler_find (ke_fd ev) c of
           None \<Rightarrow> Some (False, c\<lparr>kept := []\<rparr>)
         | Some a \<Rightarrow> do {
             c \<leftarrow> eventTrigger (collector_call (ke_answer ev)) (ke_events ev) a c;
             let old = kept c;
             let c = c\<lparr>kept := []\<rparr>;
             Some (False, fold (\<lambda>a c. release kcb_captures (col_roots c) a c) old c)
           }))"

fun collector_events :: "epoll_collector_event list \<Rightarrow> Collector \<Rightarrow> (bool \<times> Collector) option" where
  "collector_events [] c = Some (False, c)"
| "collector_events (ev # evs) c = do {
     (r, c) \<leftarrow> collector_event ev c;
     if r then Some (True, c) else collector_events evs c
   }"

datatype collector_wait = CollectorEvents "epoll_collector_event list" | CollectorInterrupted | CollectorWaitFailed

fun collector_rounds :: "collector_wait list \<Rightarrow> Collector \<Rightarrow> Collector option" where
  "collector_rounds [] c = Some c"
| "collector_rounds (CollectorInterrupted # ws) c = collector_rounds ws c"
| "collector_rounds (CollectorWaitFailed # ws) c = Some c"
| "collector_rounds (CollectorEvents evs # ws) c = do {
     (r, c) \<leftarrow> collector_events evs c;
     if r then Some c else collector_rounds ws c
   }"

definition Collector_Produce :: "collector_wait list \<Rightarrow> Collector \<Rightarrow> Collector option" where
  "Collector_Produce ws c =
     (case epollRegister (observeFd (terminator c)) c of (rc, c) \<Rightarrow>
        if rc = -1 then Some (Connection_Cleanup (observeFd (terminator c)) c)
        else do { c \<leftarrow> OnConnect c; collector_rounds ws c })"

definition Collector_loop :: "collector_wait list \<Rightarrow> Collector \<Rightarrow> Collector option" where
  "Collector_loop ws c = (if col_state c \<noteq> UNINITIALIZED_C then Collector_Produce ws c else Some c)"

text \<open>The destructor; its members are destroyed in the reverse order of their declarations.\<close>

definition Collector_destroy :: "Collector \<Rightarrow> Collector option" where
  "Collector_destroy c = do {
     let c = Collector_quit c;
     let c = snd (FdHelper_Close (col_fd c) c);
     let c = snd (FdHelper_Close (epoll_handler c) c);
     t \<leftarrow> timer_fd c;
     let c = snd (FdHelper_Close t c);
     let c = sys_close (tm_write (terminator c)) (sys_close (tm_read (terminator c)) c);
     let hs = handlers c;
     Some (fold (\<lambda>a c. release kcb_captures (col_roots c) a c) hs (c\<lparr>handlers := []\<rparr>))
   }"

section \<open>Ports of the command line\<close>

fun split_loop :: "u8 \<Rightarrow> u8 list \<Rightarrow> u8 list \<Rightarrow> u8 list list" where
  "split_loop separator token [] = (if token \<noteq> [] then [token] else [])"
| "split_loop separator token (c # s) =
     (if c = separator then
        (if token \<noteq> [] then token # split_loop separator [] s else split_loop separator [] s)
      else split_loop separator (token @ [c]) s)"

definition split :: "u8 list \<Rightarrow> u8 \<Rightarrow> u8 list list" where
  "split s separator = split_loop separator [] s"

text \<open>\<^verbatim>\<open>std::stoi\<close> throws (\<^term>\<open>None\<close>) when there is no digit or the number is no \<^verbatim>\<open>int\<close>.\<close>

definition stoi :: "u8 list \<Rightarrow> int option" where
  "stoi s =
     (let r = dropWhile isspace s;
          r = (case r of [] \<Rightarrow> [] | c # r' \<Rightarrow> if c = 45 \<or> c = 43 then r' else r) in
      if r = [] \<or> \<not> isdigit (hd r) then None else atoi s)"

definition collector_port :: "u8 list \<Rightarrow> 16 word option" where
  "collector_port s = map_option (\<lambda>n. of_int (uint (of_int n AND (0xff :: u32)) + PORT_BASE)) (stoi s)"

definition collector_ports :: "u8 list \<Rightarrow> 16 word list option" where
  "collector_ports arg = those (map collector_port (split arg 44))"

section \<open>The payload channel\<close>

text \<open>
  Every interleaving of the producer's two steps per payload, its request to quit, and the consumer's steps
  under any states it may see; the first argument lists the payloads that were added.
\<close>

inductive chan_reach :: "u8 list list \<Rightarrow> Channel \<Rightarrow> bool" where
  start: "chan_reach [] Channel_new"
| push: "chan_reach ps c \<Longrightarrow> \<not> ch_notify c \<Longrightarrow> chan_reach (ps @ [p]) (chan_push p c)"
| notify: "chan_reach ps c \<Longrightarrow> ch_notify c \<Longrightarrow> chan_reach ps (chan_notify c)"
| quit: "chan_reach ps c \<Longrightarrow> \<not> ch_notify c \<Longrightarrow> chan_reach ps (chan_quit c)"
| consume: "chan_reach ps c \<Longrightarrow> chan_reach ps (consume_step st c)"

definition chan_pending :: "Channel \<Rightarrow> u8 list list" where
  "chan_pending c = (case ch_at c of Consume_send i \<Rightarrow> drop i (ch_cv c) | _ \<Rightarrow> [])"

definition chan_inv :: "u8 list list \<Rightarrow> Channel \<Rightarrow> bool" where
  "chan_inv ps c \<longleftrightarrow>
     map fst (ch_taken c) @ chan_pending c @ ch_pv c = ps \<and>
     (case ch_at c of Consume_send i \<Rightarrow> i \<le> length (ch_cv c) | _ \<Rightarrow> ch_cv c = []) \<and>
     (ch_pv c \<noteq> [] \<longrightarrow> ch_notify c \<or> ch_at c = Consume_swap \<or> ch_at c = Consume_end \<or> READY_CHAR \<in> set (ch_pipe c))"

lemma chan_inv_step:
  assumes "chan_inv ps c"
  shows "chan_inv ps (consume_step st c)"
proof (cases "ch_at c")
  case (Consume_send i)
  show ?thesis
  proof (cases "i < length (ch_cv c)")
    case True
    then have "drop i (ch_cv c) = ch_cv c ! i # drop (Suc i) (ch_cv c)" by (rule Cons_nth_drop_Suc [symmetric])
    then show ?thesis using assms Consume_send True by (simp add: chan_inv_def consume_step_def chan_pending_def)
  next
    case False
    then show ?thesis using assms Consume_send by (simp add: chan_inv_def consume_step_def chan_pending_def)
  qed
qed (use assms in \<open>auto simp: chan_inv_def consume_step_def chan_pending_def Let_def split: list.splits\<close>)

lemma chan_reach_inv: "chan_reach ps c \<Longrightarrow> chan_inv ps c"
proof (induction rule: chan_reach.induct)
  case (consume ps c st)
  then show ?case by (intro chan_inv_step)
qed (auto simp: chan_inv_def Channel_new_def chan_push_def chan_notify_def chan_quit_def chan_pending_def split: consumer.splits)

text \<open>C5. Over every interleaving of the two threads the payloads are taken in the order they were added,
  none twice and none skipped; and whenever the consumer is blocked in its read while the producer is
  between two payloads, every payload has been taken.\<close>

theorem payloads_exactly_once:
  assumes "chan_reach ps c"
  shows "map fst (ch_taken c) @ chan_pending c @ ch_pv c = ps \<and>
    (ch_at c = Consume_read \<and> ch_pipe c = [] \<and> \<not> ch_notify c \<longrightarrow> map fst (ch_taken c) = ps)"
  using chan_reach_inv [OF assms] by (auto simp: chan_inv_def chan_pending_def)

theorem payloads_exactly_once_witness:
  "let c = consume_step READY_C (chan_push [2] (consume_step READY_C (chan_notify (chan_push [1] (consume_step READY_C Channel_new))))) in
   map fst (ch_taken c) @ chan_pending c @ ch_pv c = [[1], [2]]"
proof -
  have "chan_reach ([] @ [[1]] @ [[2]])
      (consume_step READY_C (chan_push [2] (consume_step READY_C (chan_notify (chan_push [1] (consume_step READY_C Channel_new))))))"
    unfolding append_assoc [symmetric]
    by (intro chan_reach.intros) (simp_all add: Channel_new_def consume_step_def chan_push_def chan_notify_def)
  from payloads_exactly_once [OF this] show ?thesis by (simp add: Let_def)
qed

text \<open>Each step of the consumer that changes something makes the channel smaller, so that it comes to rest.\<close>

lemma consume_step_smaller:
  assumes "case ch_at c of Consume_send i \<Rightarrow> i \<le> length (ch_cv c) | _ \<Rightarrow> ch_cv c = []"
    "ch_at c \<noteq> Consume_end" "\<not> (ch_at c = Consume_read \<and> ch_pipe c = [])"
  shows "chan_size (consume_step st c) < chan_size c"
  using assms
  by (cases "ch_at c") (auto simp: chan_size_def consume_step_def Let_def split: list.splits)

definition chan_rests :: "Channel \<Rightarrow> bool" where
  "chan_rests c \<longleftrightarrow> ch_at c = Consume_end \<or> ch_at c = Consume_read \<and> ch_pipe c = []"

lemma chan_rests_stable:
  assumes "chan_rests c"
  shows "(consume_step st ^^ n) c = c"
proof (induction n)
  case (Suc n)
  have "consume_step st c = c" using assms by (auto simp: chan_rests_def consume_step_def)
  then show ?case using Suc by simp
qed simp

lemma consumer_comes_to_rest:
  assumes "chan_inv ps c" "chan_size c \<le> n"
  shows "chan_rests ((consume_step st ^^ n) c)"
  using assms
proof (induction n arbitrary: c)
  case 0
  then show ?case using consume_step_smaller [of c st] by (fastforce simp: chan_inv_def chan_rests_def)
next
  case (Suc n)
  show ?case
  proof (cases "chan_rests c")
    case True
    then show ?thesis by (simp only: chan_rests_stable)
  next
    case False
    then have "chan_size (consume_step st c) \<le> n"
      using consume_step_smaller [of c st] Suc.prems by (fastforce simp: chan_inv_def chan_rests_def)
    then show ?thesis using Suc.IH [OF chan_inv_step [OF Suc.prems(1)]] by (simp add: funpow_swap1)
  qed
qed

text \<open>The bytes of a request to quit end the consumer, so that joining it returns.\<close>

lemma consume_step_quit:
  assumes "ch_at c \<noteq> Consume_end \<longrightarrow> (\<exists>b \<in> set (ch_pipe c). b \<noteq> READY_CHAR)"
  shows "ch_at (consume_step st c) \<noteq> Consume_end \<longrightarrow> (\<exists>b \<in> set (ch_pipe (consume_step st c)). b \<noteq> READY_CHAR)"
proof (cases "ch_at c = Consume_read")
  case True
  then show ?thesis using assms by (cases "ch_pipe c") (auto simp: consume_step_def)
next
  case False
  then have "ch_pipe (consume_step st c) = ch_pipe c" by (simp add: consume_step_def Let_def split: consumer.split)
  then show ?thesis using assms by (cases "ch_at c = Consume_end") (simp_all add: consume_step_def)
qed

lemma consume_steps_quit:
  assumes "ch_at c \<noteq> Consume_end \<longrightarrow> (\<exists>b \<in> set (ch_pipe c). b \<noteq> READY_CHAR)"
  shows "ch_at ((consume_step st ^^ n) c) \<noteq> Consume_end \<longrightarrow> (\<exists>b \<in> set (ch_pipe ((consume_step st ^^ n) c)). b \<noteq> READY_CHAR)"
proof (induction n)
  case (Suc n)
  then show ?case unfolding funpow.simps comp_apply by (rule consume_step_quit)
qed (use assms in simp)

lemma quit_joins_consumer:
  assumes "chan_inv ps (chan c)" "paired c"
  shows "ch_at (chan (Collector_quit c)) = Consume_end"
proof -
  let ?ch = "chan_quit (chan c)"
  have i: "chan_inv ps ?ch" using assms(1) by (auto simp: chan_inv_def chan_quit_def chan_pending_def split: consumer.splits)
  have "\<exists>b \<in> set (ch_pipe ?ch). b \<noteq> READY_CHAR" by (simp add: chan_quit_def READY_CHAR_def)
  then show ?thesis
    using consume_steps_quit [where c = ?ch and st = "col_state c" and n = "chan_size ?ch"] consumer_comes_to_rest [OF i order.refl, where st = "col_state c"] assms(2)
    by (auto simp: Collector_quit_def Let_def chan_rests_def)
qed

text \<open>The states of the channel in which the consumer sends.\<close>

definition chan_ready :: "Channel \<Rightarrow> bool" where
  "chan_ready c \<longleftrightarrow> \<not> ch_notify c \<and> ch_at c \<noteq> Consume_end \<and> set (ch_pipe c) \<subseteq> {READY_CHAR}"

lemma chan_ready_step:
  assumes "chan_ready c"
  shows "chan_ready (consume_step READY_C c) \<and> (\<exists>qs. ch_taken (consume_step READY_C c) = ch_taken c @ map (\<lambda>p. (p, True)) qs)"
proof (cases "ch_at c")
  case (Consume_send i)
  then have t: "ch_taken (consume_step READY_C c) =
      ch_taken c @ map (\<lambda>p. (p, True)) (if i < length (ch_cv c) then [ch_cv c ! i] else [])"
    by (simp add: consume_step_def)
  have "chan_ready (consume_step READY_C c)" using assms Consume_send by (simp add: chan_ready_def consume_step_def)
  then show ?thesis using t by blast
qed (use assms in \<open>auto simp: chan_ready_def consume_step_def Let_def split: list.split intro!: exI [of _ "[]"]\<close>)

lemma chan_ready_steps:
  assumes "chan_ready c"
  shows "chan_ready ((consume_step READY_C ^^ n) c) \<and>
    (\<exists>qs. ch_taken ((consume_step READY_C ^^ n) c) = ch_taken c @ map (\<lambda>p. (p, True)) qs)"
proof (induction n)
  case 0
  then show ?case using assms by (auto intro!: exI [of _ "[]"])
next
  case (Suc n)
  let ?d = "(consume_step READY_C ^^ n) c"
  obtain qs where qs: "chan_ready ?d" "ch_taken ?d = ch_taken c @ map (\<lambda>p. (p, True)) qs" using Suc by blast
  obtain rs where "chan_ready (consume_step READY_C ?d)" "ch_taken (consume_step READY_C ?d) = ch_taken ?d @ map (\<lambda>p. (p, True)) rs"
    using chan_ready_step [OF qs(1)] by blast
  then show ?case using qs(2) by (auto intro!: exI [of _ "qs @ rs"])
qed

lemma consumer_delivers:
  assumes "chan_reach ps c" "chan_ready c" "d = (consume_step READY_C ^^ chan_size c) c"
  shows "chan_rests d" "chan_ready d" "map fst (ch_taken d) = ps"
    "\<exists>qs. ch_taken d = ch_taken c @ map (\<lambda>p. (p, True)) qs"
proof -
  show d: "chan_ready d" "\<exists>qs. ch_taken d = ch_taken c @ map (\<lambda>p. (p, True)) qs"
    using chan_ready_steps [OF assms(2), of "chan_size c"] unfolding assms(3) by blast+
  have "chan_reach ps ((consume_step READY_C ^^ n) c)" for n
    by (induction n) (auto intro: assms(1) chan_reach.consume)
  then have i: "chan_inv ps d" unfolding assms(3) by (rule chan_reach_inv)
  show r: "chan_rests d"
    unfolding assms(3) by (rule consumer_comes_to_rest [OF chan_reach_inv [OF assms(1)] order.refl])
  have "ch_at d = Consume_read" "ch_pipe d = []" using r d(1) by (auto simp: chan_rests_def chan_ready_def)
  then show "map fst (ch_taken d) = ps" using i d(1) by (auto simp: chan_inv_def chan_pending_def chan_ready_def)
qed

text \<open>C17. As long as the connection is up and nobody asked to quit, the consumer takes and sends every payload
  that is waiting, in a number of steps bounded by the size of the channel, and then blocks.\<close>

theorem payloads_delivered:
  assumes "chan_reach ps c" "chan_ready c"
  shows "\<exists>d qs. d = (consume_step READY_C ^^ chan_size c) c \<and> ch_at d = Consume_read \<and> ch_pipe d = [] \<and>
    ch_taken d = ch_taken c @ map (\<lambda>p. (p, True)) qs \<and> map fst (ch_taken c) @ qs = ps"
proof -
  define d where "d = (consume_step READY_C ^^ chan_size c) c"
  note delivered = consumer_delivers [OF assms d_def]
  have "ch_at d = Consume_read" "ch_pipe d = []"
    using delivered(1,2) by (auto simp: chan_rests_def chan_ready_def)
  moreover obtain qs where "ch_taken d = ch_taken c @ map (\<lambda>p. (p, True)) qs" using delivered(4) by blast
  ultimately show ?thesis using delivered(3) by (auto simp: d_def [symmetric] comp_def)
qed

theorem payloads_delivered_witness:
  "let c = chan_notify (chan_push [1] Channel_new); d = (consume_step READY_C ^^ chan_size c) c in
   ch_at d = Consume_read \<and> ch_taken d = [([1], True)]"
proof -
  let ?c = "chan_notify (chan_push [1] Channel_new)"
  have "chan_reach ([] @ [[1]]) ?c"
    by (intro chan_reach.intros) (simp_all add: Channel_new_def chan_push_def)
  moreover have "chan_ready ?c" "ch_taken ?c = []"
    by (simp_all add: chan_ready_def chan_notify_def chan_push_def Channel_new_def)
  ultimately show ?thesis using payloads_delivered [of "[[1]]" ?c] by (auto simp: Let_def)
qed

section \<open>Queue, pool and ports\<close>

text \<open>A pool's blocks lie side by side, so that no two blocks that are in use or on the stack overlap.\<close>

lemma and_7: "b AND 7 = b mod 8" for b :: nat
  using take_bit_eq_mask [of 3 b] by (simp add: take_bit_eq_mod mask_eq_exp_minus_1)

lemma pool_block_ge: "b \<le> pool_block b" "8 dvd pool_block b"
proof -
  have "b mod 8 < 8" "b mod 8 \<le> b" by simp_all
  then show "b \<le> pool_block b" unfolding pool_block_def and_7 by (cases "b mod 8 = 0") simp_all
  have "8 dvd b - b mod 8" by (simp add: minus_mod_eq_mult_div)
  then have "8 dvd b - b mod 8 + 8" by (rule dvd_add) simp
  then show "8 dvd pool_block b" unfolding pool_block_def and_7 by (simp add: dvd_eq_mod_eq_0)
qed

definition pool_wf :: "nat \<Rightarrow> nat list \<Rightarrow> Pool \<Rightarrow> bool" where
  "pool_wf n used p \<longleftrightarrow> distinct (p_stack p @ used) \<and>
     set (p_stack p @ used) = (\<lambda>i. p_base p + i * p_block p) ` {0..<n}"

lemma pool_new_wf: "0 < b \<Longrightarrow> pool_wf n [] (Pool_new n b base)"
proof -
  assume "0 < b"
  then have "0 < pool_block b" using pool_block_ge(1) [of b] by simp
  then show ?thesis by (auto simp: pool_wf_def Pool_new_def distinct_map inj_on_def)
qed

lemma pool_acquire_wf:
  assumes "pool_wf n used p" "pool_acquire fresh p = (v, p')"
  shows "pool_wf n (if snd v then fst v # used else used) p'" "p_base p' = p_base p" "p_block p' = p_block p"
proof -
  show "pool_wf n (if snd v then fst v # used else used) p'"
  proof (cases "p_stack p" rule: rev_cases)
    case Nil
    then show ?thesis using assms by (auto simp: pool_acquire_def)
  next
    case (snoc ys y)
    then have "v = (y, True)" "p' = p\<lparr>p_stack := ys\<rparr>" using assms(2) by (auto simp: pool_acquire_def)
    then show ?thesis using assms(1) snoc by (simp add: pool_wf_def)
  qed
  show "p_base p' = p_base p" "p_block p' = p_block p" using assms(2) by (auto simp: pool_acquire_def split: if_splits)
qed

lemma pool_release_wf:
  assumes "pool_wf n used p" "v \<in> set used"
  shows "pool_wf n (remove1 v used) (pool_release (v, True) p)"
  using assms by (auto simp: pool_wf_def pool_release_def)

text \<open>Two blocks of the area that are not the same do not overlap.\<close>

lemma pool_blocks_apart:
  assumes "pool_wf n used p" "x \<in> set used" "y \<in> set used" "x < y"
  shows "x + p_block p \<le> y"
proof -
  obtain i j where x: "x = p_base p + i * p_block p" and y: "y = p_base p + j * p_block p"
    using assms(1-3) unfolding pool_wf_def by (metis (no_types, lifting) Un_iff imageE set_append)
  then have "i * p_block p < j * p_block p" using assms(4) by simp
  then have "Suc i * p_block p \<le> j * p_block p" by (intro mult_le_mono1) (metis mult_less_cancel2 Suc_leI)
  then show ?thesis using x y by simp
qed

text \<open>The queue hands out its elements in order, until it is finished.\<close>

lemma queue_poll_offer:
  "queue_poll (offer t q) =
     (if q_finish q then (Returns None, offer t q)
      else (Returns (Some (hd (q_data q @ [t]))), q\<lparr>q_data := tl (q_data q @ [t])\<rparr>))"
  by (simp add: queue_poll_def offer_def)

lemma queue_finish_drops: "fst (queue_poll (queue_finish q)) = Returns None"
  by (simp add: queue_poll_def queue_finish_def)

text \<open>Splitting gives the nonempty fields between separators.\<close>

fun fields :: "u8 \<Rightarrow> u8 list \<Rightarrow> u8 list list" where
  "fields sep [] = [[]]"
| "fields sep (c # s) = (if c = sep then [] # fields sep s else (c # hd (fields sep s)) # tl (fields sep s))"

lemma fields_nonempty: "fields sep s \<noteq> []"
  by (cases s) auto

lemma split_loop_fields:
  "split_loop sep token s = filter (\<lambda>f. f \<noteq> []) ((token @ hd (fields sep s)) # tl (fields sep s))"
proof (induction sep token s rule: split_loop.induct)
  case (2 sep token c s)
  then show ?case using fields_nonempty [of sep s] by (cases "fields sep s") auto
qed simp

lemma split_fields: "split s sep = filter (\<lambda>f. f \<noteq> []) (fields sep s)"
  using fields_nonempty [of sep s] by (cases "fields sep s") (simp_all add: split_def split_loop_fields)

lemma join_fields: "concat (map (\<lambda>f. f @ [sep]) (fields sep s)) = s @ [sep]"
proof (induction s)
  case (Cons c s)
  then show ?case using fields_nonempty [of sep s] by (cases "fields sep s") auto
qed simp

text \<open>Every port the command line can name lies in a range of 256 ports.\<close>

lemma collector_port_range:
  assumes "collector_port s = Some p"
  shows "10000 \<le> sint p" "sint p \<le> 10255"
proof -
  obtain n where p: "p = of_int (uint (of_int n AND (0xff :: u32)) + 10000)"
    using assms by (auto simp: collector_port_def PORT_BASE_def)
  define m where "m = uint (of_int n AND (0xff :: u32))"
  have "of_int n AND (0xff :: u32) = take_bit 8 (of_int n)"
    using take_bit_eq_mask [of 8 "of_int n :: u32"] by (simp add: mask_eq_exp_minus_1)
  then have "m = take_bit 8 (uint (of_int n :: u32))" by (simp add: m_def unsigned_take_bit_eq)
  then have m: "0 \<le> m" "m < 256" using take_bit_int_less_exp [of 8 "uint (of_int n :: u32)"] by simp_all
  have "sint (of_int k :: 16 word) = signed_take_bit 15 k" for k by (simp add: signed_of_int)
  then have "sint p = signed_take_bit 15 (m + 10000)" unfolding p m_def .
  also have "\<dots> = m + 10000" using m by (intro signed_take_bit_int_eq_self) auto
  finally show "10000 \<le> sint p" "sint p \<le> 10255" using m by simp_all
qed

section \<open>Connected or reconnecting\<close>

text \<open>
  The objects of the handlers: a source, the connection to the server while it is up, or the timer while it is
  down.  An object without a handler captures itself or has no descriptor.
\<close>

definition kcb_obj :: "int \<Rightarrow> int \<Rightarrow> collector_state \<Rightarrow> nat \<Rightarrow> kcb Connection \<Rightarrow> bool" where
  "kcb_obj fd t st a x \<longleftrightarrow>
     cn_close x = Some (SourceClosed a) \<and> cn_recv x \<in> {Some HandleGroupMsg, Some HandlerInterrupt} \<and> cn_fd x \<notin> {fd, t} \<or>
     cn_close x = Some (RemoteClosed a) \<and> cn_recv x = None \<and> cn_fd x = fd \<and> st = READY_C \<or>
     cn_close x = None \<and> cn_recv x = Some Reconnect \<and> cn_fd x = t \<and> st = DISCONNECTED_C"

definition col_heap :: "Collector \<Rightarrow> bool" where
  "col_heap c \<longleftrightarrow> distinct (map fst (heap c)) \<and> (\<forall>a x. map_of (heap c) a = Some x \<longrightarrow> a < heap_next c) \<and>
     (\<forall>a x. map_of (heap c) a = Some x \<longrightarrow>
        a \<in> set (handlers c) \<or> cn_close x \<in> {Some (SourceClosed a), Some (RemoteClosed a)} \<or> cn_fd x = -1)"

definition col_handlers :: "int \<Rightarrow> Collector \<Rightarrow> bool" where
  "col_handlers t c \<longleftrightarrow>
     (\<forall>a \<in> set (handlers c). \<exists>x. map_of (heap c) a = Some x \<and> cn_fd x \<in> set (k_open c) \<and>
        kcb_obj (col_fd c) t (col_state c) a x) \<and>
     (\<forall>a \<in> set (handlers c). \<forall>b \<in> set (handlers c).
        map_option cn_fd (map_of (heap c) a) = map_option cn_fd (map_of (heap c) b) \<longrightarrow> a = b)"

definition col_kernel :: "int \<Rightarrow> Collector \<Rightarrow> bool" where
  "col_kernel t c \<longleftrightarrow> timer_fd c = Some t \<and> t \<in> set (k_open c) \<and> t \<noteq> col_fd c \<and> -1 \<notin> set (k_open c) \<and>
     distinct (k_open c) \<and> distinct (k_epoll c) \<and> set (k_epoll c) \<subseteq> set (k_open c)"

definition col_mode :: "int \<Rightarrow> Collector \<Rightarrow> bool" where
  "col_mode t c \<longleftrightarrow>
     (if col_state c = READY_C then
        \<not> timer_armed c \<and> t \<notin> set (k_epoll c) \<and> col_fd c \<in> set (k_epoll c) \<and>
        (\<exists>a \<in> set (handlers c). map_option cn_fd (map_of (heap c) a) = Some (col_fd c))
      else
        col_state c = DISCONNECTED_C \<and> timer_armed c \<and> t \<in> set (k_epoll c) \<and> col_fd c \<notin> set (k_epoll c) \<and>
        col_fd c \<in> insert (-1) (set (k_open c)) \<and>
        (\<exists>a \<in> set (handlers c). map_option cn_fd (map_of (heap c) a) = Some t))"

definition col_core :: "int \<Rightarrow> Collector \<Rightarrow> bool" where
  "col_core t c \<longleftrightarrow> col_heap c \<and> col_handlers t c \<and> col_kernel t c \<and> col_mode t c"

lemmas col_defs = col_core_def col_heap_def col_handlers_def col_kernel_def col_mode_def

lemma col_handlersD:
  "col_handlers t c \<Longrightarrow> a \<in> set (handlers c) \<Longrightarrow>
     \<exists>x. map_of (heap c) a = Some x \<and> cn_fd x \<in> set (k_open c) \<and> kcb_obj (col_fd c) t (col_state c) a x"
  by (simp add: col_handlers_def)

lemma handler_find_Some:
  assumes "handler_find fd c = Some a"
  obtains x where "a \<in> set (handlers c)" "map_of (heap c) a = Some x" "cn_fd x = fd"
  using assms by (auto simp: handler_find_def find_Some_iff)

lemma handler_find_eq:
  assumes "col_handlers t c" "a \<in> set (handlers c)" "map_option cn_fd (map_of (heap c) a) = Some fd"
  shows "handler_find fd c = Some a"
proof (cases "handler_find fd c")
  case None
  then show ?thesis using assms(2,3) by (auto simp: handler_find_def find_None_iff)
next
  case (Some b)
  obtain x where "b \<in> set (handlers c)" "map_of (heap c) b = Some x" "cn_fd x = fd"
    using handler_find_Some [OF Some] .
  then have "b = a" using assms unfolding col_handlers_def by fastforce
  then show ?thesis using Some by simp
qed

text \<open>The effect of losing the connection, of a failed and of a successful attempt to connect again.\<close>

definition col_lost :: "int \<Rightarrow> nat \<Rightarrow> kcb Connection \<Rightarrow> Collector \<Rightarrow> Collector" where
  "col_lost t a x c =
     c\<lparr>k_open := remove1 (col_fd c) (k_open c), k_epoll := t # remove1 (col_fd c) (k_epoll c),
       k_closed := k_closed c @ [col_fd c],
       heap := node_set a (x\<lparr>cn_fd := -1\<rparr>) (heap c) @
         [(heap_next c, (Connection_new t)\<lparr>cn_recv := Some Reconnect\<rparr>)],
       heap_next := Suc (heap_next c), handlers := heap_next c # removeAll a (handlers c), col_fd := -1,
       timer_armed := True, col_state := DISCONNECTED_C\<rparr>"

lemma map_of_fresh: "(\<forall>a x. map_of h a = Some x \<longrightarrow> a < n) \<Longrightarrow> map_of h n = None" for h :: "(nat \<times> 'a) list"
  by (cases "map_of h n") auto

lemma map_of_append_fresh:
  "([n \<mapsto> y] ++ map_of h) b = (if b = n \<and> map_of h n = None then Some y else map_of h b)"
  by (auto simp: map_add_def split: option.split)

lemma node_set_append_fresh:
  assumes "\<forall>a x. map_of h a = Some x \<longrightarrow> a < n"
  shows "node_set n z (h @ [(n, y)]) = h @ [(n, z)]"
proof -
  have "n \<notin> fst ` set h" using map_of_fresh [OF assms] by (simp add: map_of_eq_None_iff)
  then show ?thesis by (force simp: node_set_def intro!: map_idI)
qed

lemma remote_closed_eq:
  assumes "col_core t c" "map_of (heap c) a = Some x" "cn_close x = Some (RemoteClosed a)" "cn_fd x = col_fd c"
    "col_state c = READY_C"
  shows "collector_call ans (RemoteClosed a) fd (snd (epollUnregister (col_fd c) c)) = Some (col_lost t a x c)"
proof -
  have k: "timer_fd c = Some t" "t \<in> set (k_open c)" "t \<noteq> col_fd c" "-1 \<notin> set (k_open c)" "distinct (k_open c)"
    "distinct (k_epoll c)" "t \<notin> set (k_epoll c)" "col_fd c \<in> set (k_open c)" "col_fd c \<noteq> -1"
    using assms(1,5) by (auto simp: col_defs)
  have fresh: "\<forall>b y. map_of (node_set a (x\<lparr>cn_fd := -1\<rparr>) (heap c)) b = Some y \<longrightarrow> b < heap_next c"
    using assms(1,2) by (auto simp: col_defs map_of_node_set)
  let ?c = "c\<lparr>k_epoll := remove1 (col_fd c) (k_epoll c), heap := node_set a (x\<lparr>cn_fd := -1\<rparr>) (heap c),
      handlers := removeAll a (handlers c)\<rparr>"
  have "(a, x\<lparr>cn_fd := -1\<rparr>) \<in> set (heap ?c)"
    using assms(2) by (intro map_of_SomeD) (simp add: map_of_node_set)
  then have rel: "release kcb_captures (col_roots ?c) a ?c = ?c"
    by (rule release_captured [where cb = "RemoteClosed a"]) (simp_all add: assms(3))
  show ?thesis
    using assms(2) k rel
    by (simp add: collector_call_def Connection_cancel_def epollUnregister_eq [OF k(8)] FdHelper_Close_def sys_close_def
        OnDisconnect_def make_connection_def epollRegister_def registerCallback_def map_of_append_fresh
        node_set_append_fresh [OF fresh] map_of_fresh [OF fresh] col_lost_def remove1_idem Let_def Connection_new_def)
qed

text \<open>Replacing the handler of the connection by the one of the timer, or the other way round.\<close>

definition mode_fd :: "int \<Rightarrow> Collector \<Rightarrow> int" where
  "mode_fd t c = (if col_state c = READY_C then col_fd c else t)"

lemma other_handlers_sources:
  assumes "col_handlers t c" "a \<in> set (handlers c)" "map_option cn_fd (map_of (heap c) a) = Some (mode_fd t c)"
    "b \<in> set (handlers c)" "b \<noteq> a"
  shows "\<exists>y. map_of (heap c) b = Some y \<and> cn_fd y \<in> set (k_open c) - {col_fd c, t} \<and>
    cn_close y = Some (SourceClosed b) \<and> cn_recv y \<in> {Some HandleGroupMsg, Some HandlerInterrupt}"
proof -
  obtain y where y: "map_of (heap c) b = Some y" "cn_fd y \<in> set (k_open c)" "kcb_obj (col_fd c) t (col_state c) b y"
    using col_handlersD [OF assms(1,4)] by blast
  have "cn_fd y \<noteq> mode_fd t c" using assms y(1) unfolding col_handlers_def by force
  then show ?thesis using y by (auto simp: kcb_obj_def mode_fd_def)
qed

lemma swap_handler:
  assumes "col_heap c" "col_handlers t c" "a \<in> set (handlers c)" "map_of (heap c) a = Some x" "cn_fd x = mode_fd t c"
    and d: "heap d = node_set a (x\<lparr>cn_fd := -1\<rparr>) (heap c) @ [(heap_next c, y)]" "heap_next d = Suc (heap_next c)"
      "handlers d = heap_next c # removeAll a (handlers c)"
    and y: "kcb_obj (col_fd d) t (col_state d) (heap_next c) y" "cn_fd y \<in> set (k_open d)" "cn_fd y \<in> {col_fd c, t}"
    and op: "set (k_open c) - {col_fd c, t} \<subseteq> set (k_open d) - {col_fd d, t}"
  shows "col_heap d" "col_handlers t d" "map_of (heap d) (heap_next c) = Some y"
proof -
  let ?n = "heap_next c"
  have fresh: "map_of (heap c) ?n = None" using assms(1) by (intro map_of_fresh) (simp add: col_heap_def)
  have m: "map_of (heap d) b = (if b = ?n then Some y else if b = a then Some (x\<lparr>cn_fd := -1\<rparr>) else map_of (heap c) b)" for b
    using fresh assms(4) by (auto simp: d map_of_append_fresh map_of_node_set)
  have an: "a < ?n" "?n \<notin> set (handlers c)"
    using assms(1,4) col_handlersD [OF assms(2), of ?n] fresh by (auto simp: col_heap_def)
  have src: "\<exists>z. map_of (heap c) b = Some z \<and> cn_fd z \<in> set (k_open c) - {col_fd c, t} \<and>
      cn_close z = Some (SourceClosed b) \<and> cn_recv z \<in> {Some HandleGroupMsg, Some HandlerInterrupt}"
    if "b \<in> set (handlers c)" "b \<noteq> a" for b
    using other_handlers_sources [OF assms(2,3) _ that] assms(4,5) by simp
  show "map_of (heap d) (heap_next c) = Some y" by (simp add: m)
  have "\<forall>b z. map_of (heap d) b = Some z \<longrightarrow> b < heap_next d" using assms(1) an(1) by (auto simp: m d(2) col_heap_def less_Suc_eq)
  moreover have "distinct (map fst (heap d))" using assms(1) fresh by (auto simp: d(1) col_heap_def map_of_eq_None_iff)
  moreover have "\<forall>b z. map_of (heap d) b = Some z \<longrightarrow>
      b \<in> set (handlers d) \<or> cn_close z \<in> {Some (SourceClosed b), Some (RemoteClosed b)} \<or> cn_fd z = -1"
    using assms(1) by (auto simp: m d(3) col_heap_def)
  ultimately show "col_heap d" by (simp add: col_heap_def)
  show "col_handlers t d"
    unfolding col_handlers_def m
  proof (intro conjI ballI impI)
    fix b assume b: "b \<in> set (handlers d)"
    show "\<exists>z. (if b = ?n then Some y else if b = a then Some (x\<lparr>cn_fd := -1\<rparr>) else map_of (heap c) b) = Some z \<and>
       cn_fd z \<in> set (k_open d) \<and> kcb_obj (col_fd d) t (col_state d) b z"
    proof (cases "b = ?n")
      case False
      then obtain z where z: "map_of (heap c) b = Some z" "cn_fd z \<in> set (k_open c) - {col_fd c, t}"
        "cn_close z = Some (SourceClosed b)" "cn_recv z \<in> {Some HandleGroupMsg, Some HandlerInterrupt}" "b \<noteq> a"
        using b src [of b] by (auto simp: d(3))
      then show ?thesis using False subsetD [OF op z(2)] by (auto simp: kcb_obj_def)
    qed (use y in simp)
  next
    fix b b' assume "b \<in> set (handlers d)" "b' \<in> set (handlers d)"
      "map_option cn_fd (if b = ?n then Some y else if b = a then Some (x\<lparr>cn_fd := -1\<rparr>) else map_of (heap c) b) =
       map_option cn_fd (if b' = ?n then Some y else if b' = a then Some (x\<lparr>cn_fd := -1\<rparr>) else map_of (heap c) b')"
    then show "b = b'"
      using src [of b] src [of b'] y(3) assms(2) unfolding col_handlers_def d(3) by (auto split: if_splits)
  qed
qed

lemma col_lost_core:
  assumes "col_core t c" "a \<in> set (handlers c)" "map_of (heap c) a = Some x" "cn_fd x = col_fd c" "col_state c = READY_C"
  shows "col_core t (col_lost t a x c)"
proof -
  let ?d = "col_lost t a x c" and ?y = "(Connection_new t)\<lparr>cn_recv := Some Reconnect\<rparr>"
  have c: "col_heap c" "col_handlers t c" "col_kernel t c" "col_mode t c" using assms(1) by (simp_all add: col_core_def)
  have k: "t \<in> set (k_open c)" "t \<noteq> col_fd c" "-1 \<notin> set (k_open c)" "distinct (k_open c)" "distinct (k_epoll c)"
    "set (k_epoll c) \<subseteq> set (k_open c)" "timer_fd c = Some t" "t \<notin> set (k_epoll c)"
    using c(3,4) assms(5) by (auto simp: col_kernel_def col_mode_def)
  have "col_heap ?d \<and> col_handlers t ?d \<and> map_of (heap ?d) (heap_next c) = Some ?y"
    by (intro conjI; rule swap_handler [OF c(1,2) assms(2,3), where d = ?d and y = ?y])
       (use k assms(4,5) in \<open>auto simp: col_lost_def mode_fd_def kcb_obj_def Connection_new_def\<close>)
  moreover have "col_kernel t ?d" using k by (auto simp: col_kernel_def col_lost_def)
  moreover have "col_mode t ?d"
    using k calculation(1) by (auto simp: col_mode_def col_lost_def Connection_new_def)
  ultimately show ?thesis by (simp add: col_core_def)
qed

lemma Collector_Connect_cases:
  assumes "Collector_Connect sys c = (ok, c')" "set (k_epoll c) \<subseteq> set (k_open c)"
  obtains f opn cl where "c' = c\<lparr>col_fd := f, k_open := opn, k_closed := cl\<rparr>"
    "f = -1 \<and> \<not> ok \<and> opn = k_open c \<or> f = col_fd c \<and> f \<noteq> -1 \<and> opn = k_open c \<or>
     f = new_fd c \<and> opn = f # k_open c"
proof -
  have f: "new_fd c \<noteq> -1" "new_fd c \<notin> set (k_open c)" "new_fd c \<notin> set (k_epoll c)"
    using new_fd_fresh [of c] assms(2) by auto
  show thesis
  proof (cases "col_fd c = -1")
    case False
    then have "ok = cs_connect sys" "c' = c" using assms(1) by (simp_all add: Collector_Connect_def)
    then show thesis using that [where f = "col_fd c" and opn = "k_open c" and cl = "k_closed c"] False by simp
  next
    case True
    consider "\<not> cs_socket sys" | "cs_socket sys" "cs_sndtimeo sys" "cs_nodelay sys"
      | "cs_socket sys" "\<not> (cs_sndtimeo sys \<and> cs_nodelay sys)" by blast
    then show thesis
    proof cases
      case 1
      then have "\<not> ok" "c' = c\<lparr>col_fd := -1\<rparr>" using assms(1) True by (auto simp: Collector_Connect_def sys_accept_def sys_open_def)
      then show thesis using that [where f = "-1" and opn = "k_open c" and cl = "k_closed c"] by simp
    next
      case 2
      then have "c' = c\<lparr>col_fd := new_fd c, k_open := new_fd c # k_open c\<rparr>"
        using assms(1) True f by (auto simp: Collector_Connect_def sys_accept_def sys_open_def SETSOCKOPT_def Let_def)
      then show thesis using that [where f = "new_fd c" and opn = "new_fd c # k_open c" and cl = "k_closed c"] by simp
    next
      case 3
      then have "\<not> ok" "c' = c\<lparr>col_fd := -1, k_closed := k_closed c @ [new_fd c]\<rparr>"
        using assms(1) True f
        by (cases "cs_sndtimeo sys"; auto simp: Collector_Connect_def sys_accept_def sys_open_def SETSOCKOPT_def sys_close_def
            remove1_idem Let_def split: if_splits)+
      then show thesis using that [where f = "-1" and opn = "k_open c" and cl = "k_closed c @ [new_fd c]"] by simp
    qed
  qed
qed

lemma Connect_retry: "fst (Collector_Connect sys (c\<lparr>retry_count := r\<rparr>)) = fst (Collector_Connect sys c)"
  by (simp add: Collector_Connect_def sys_accept_def new_fd_def sys_open_def SETSOCKOPT_def Let_def)

lemma col_retry_core:
  assumes "col_core t c" "col_state c = DISCONNECTED_C" "Collector_Connect sys c = (ok, c')"
  shows "col_core t c'" "col_state c' = DISCONNECTED_C" "ok \<Longrightarrow> col_fd c' \<noteq> -1" "kept c' = kept c" "handlers c' = handlers c"
    "terminator c' = terminator c" "heap c' = heap c"
proof -
  have ep: "set (k_epoll c) \<subseteq> set (k_open c)" using assms(1) by (simp add: col_defs)
  obtain f opn cl where c': "c' = c\<lparr>col_fd := f, k_open := opn, k_closed := cl\<rparr>" and
    f: "f = -1 \<and> \<not> ok \<and> opn = k_open c \<or> f = col_fd c \<and> f \<noteq> -1 \<and> opn = k_open c \<or> f = new_fd c \<and> opn = f # k_open c"
    using Collector_Connect_cases [OF assms(3) ep] by metis
  have n: "new_fd c \<noteq> -1" "new_fd c \<notin> set (k_open c)" "new_fd c \<notin> set (k_epoll c)" using new_fd_fresh [of c] ep by auto
  have t: "t \<in> set (k_open c)" "-1 \<notin> set (k_open c)" "t \<noteq> -1" using assms(1) by (auto simp: col_defs)
  have o: "kcb_obj f t DISCONNECTED_C a x"
    if "kcb_obj (col_fd c) t DISCONNECTED_C a x" "cn_fd x \<in> set (k_open c)" for a x
    using that f n t by (auto simp: kcb_obj_def)
  have sub: "set (k_open c) \<subseteq> set opn" using f by auto
  have "col_handlers t c'" using assms(1,2) o sub unfolding col_core_def col_handlers_def c' by simp blast
  moreover have "col_heap c'" using assms(1) by (simp add: col_core_def col_heap_def c')
  moreover have "col_kernel t c'" using assms(1) f n t unfolding col_core_def col_kernel_def c' by auto
  moreover have "col_mode t c'" using assms(1,2) f n t ep unfolding col_core_def col_mode_def c' by auto
  ultimately show "col_core t c'" by (simp add: col_core_def)
  show "col_state c' = DISCONNECTED_C" "kept c' = kept c" "handlers c' = handlers c" "terminator c' = terminator c"
    "heap c' = heap c" using assms(2) c' by simp_all
  show "ok \<Longrightarrow> col_fd c' \<noteq> -1" using f n c' by auto
qed

definition col_back :: "int \<Rightarrow> nat \<Rightarrow> kcb Connection \<Rightarrow> Collector \<Rightarrow> Collector" where
  "col_back t a x c =
     c\<lparr>k_epoll := col_fd c # remove1 t (k_epoll c),
       heap := node_set a (x\<lparr>cn_fd := -1\<rparr>) (heap c) @
         [(heap_next c, (Connection_new (col_fd c))\<lparr>cn_close := Some (RemoteClosed (heap_next c))\<rparr>)],
       heap_next := Suc (heap_next c), handlers := heap_next c # removeAll a (handlers c),
       timer_armed := False, retry_count := 0, col_state := READY_C\<rparr>"

lemma OnConnect_eq:
  assumes "col_core t c" "col_state c = DISCONNECTED_C" "col_fd c \<noteq> -1" "a \<in> set (handlers c)" "a \<in> set (kept c)"
    "map_of (heap c) a = Some x" "cn_fd x = t"
  shows "OnConnect c = Some (col_back t a x c)"
proof -
  have k: "timer_fd c = Some t" "t \<in> set (k_open c)" "t \<noteq> col_fd c" "col_fd c \<in> set (k_open c)" "col_fd c \<notin> set (k_epoll c)"
    using assms(1-3) by (auto simp: col_defs)
  have fresh: "\<forall>b y. map_of (node_set a (x\<lparr>cn_fd := -1\<rparr>) (heap c)) b = Some y \<longrightarrow> b < heap_next c"
    using assms(1,6) by (auto simp: col_defs map_of_node_set)
  define c1 where "c1 = c\<lparr>timer_armed := False, k_epoll := remove1 t (k_epoll c)\<rparr>"
  have "col_handlers t c" using assms(1) by (simp add: col_core_def)
  then have "handler_find t c = Some a" using assms(4,6,7) by (intro handler_find_eq) auto
  then have hf: "handler_find t c1 = Some a" by (simp add: handler_find_def c1_def)
  define c2 where "c2 = c1\<lparr>handlers := removeAll a (handlers c), heap := node_set a (x\<lparr>cn_fd := -1\<rparr>) (heap c)\<rparr>"
  have "a \<in> set (col_roots c2)" using assms(5) by (simp add: col_roots_def c2_def c1_def)
  then have "conn_refs kcb_captures (col_roots c2) a c2 \<noteq> 0" by (simp add: conn_refs_def count_list_0_iff)
  then have rel: "release kcb_captures (col_roots c2) a c2 = c2" by (simp add: release_def split: option.split)
  have un: "snd (epollUnregister t (c\<lparr>timer_armed := False\<rparr>)) = c1" using k(2) by (simp add: epollUnregister_eq c1_def)
  have "OnConnect c = do {
     let (a, c) = make_connection (col_fd c2) c2;
     let c = snd (epollRegister (col_fd c) c);
     c \<leftarrow> registerCallback None None (Some (RemoteClosed a)) a c;
     Some (c\<lparr>handlers := a # handlers c, retry_count := 0, col_state := READY_C\<rparr>) }"
    using assms(2,6) k(1) hf rel un by (simp add: OnConnect_def Connection_cancel_def c2_def c1_def Let_def)
  then show ?thesis using k
    by (simp add: c2_def c1_def make_connection_def epollRegister_def registerCallback_def map_of_append_fresh
        node_set_append_fresh [OF fresh] map_of_fresh [OF fresh] col_back_def Connection_new_def Let_def)
qed

lemma col_back_core:
  assumes "col_core t c" "col_state c = DISCONNECTED_C" "col_fd c \<noteq> -1" "a \<in> set (handlers c)"
    "map_of (heap c) a = Some x" "cn_fd x = t"
  shows "col_core t (col_back t a x c)"
proof -
  let ?d = "col_back t a x c" and ?y = "(Connection_new (col_fd c))\<lparr>cn_close := Some (RemoteClosed (heap_next c))\<rparr>"
  have c: "col_heap c" "col_handlers t c" "col_kernel t c" "col_mode t c" using assms(1) by (simp_all add: col_core_def)
  have k: "t \<in> set (k_open c)" "t \<noteq> col_fd c" "-1 \<notin> set (k_open c)" "distinct (k_open c)" "distinct (k_epoll c)"
    "set (k_epoll c) \<subseteq> set (k_open c)" "timer_fd c = Some t" "col_fd c \<notin> set (k_epoll c)" "col_fd c \<in> set (k_open c)"
    using c(3,4) assms(2,3) by (auto simp: col_kernel_def col_mode_def)
  have "col_heap ?d \<and> col_handlers t ?d \<and> map_of (heap ?d) (heap_next c) = Some ?y"
    by (intro conjI; rule swap_handler [OF c(1,2) assms(4,5), where d = ?d and y = ?y])
       (use k assms(2,6) in \<open>auto simp: col_back_def mode_fd_def kcb_obj_def Connection_new_def\<close>)
  moreover have "col_kernel t ?d" using k by (auto simp: col_kernel_def col_back_def)
  moreover have "col_mode t ?d"
    using k calculation(1) by (auto simp: col_mode_def col_back_def Connection_new_def)
  ultimately show ?thesis by (simp add: col_core_def)
qed

text \<open>What the invariant does not depend on.\<close>

lemma col_core_other [simp]:
  "col_core t (c\<lparr>kept := ks\<rparr>) = col_core t c" "col_core t (c\<lparr>chan := ch\<rparr>) = col_core t c"
  "col_core t (c\<lparr>db_rows := rs\<rparr>) = col_core t c" "col_core t (c\<lparr>terminator := tm\<rparr>) = col_core t c"
  "col_core t (c\<lparr>retry_count := r\<rparr>) = col_core t c"
  by (simp_all add: col_defs)

lemma source_closed_core:
  assumes "col_core t c" "map_of (heap c) a = Some x" "cn_close x = Some (SourceClosed a)" "cn_fd x \<notin> {col_fd c, t}"
  shows "col_core t (c\<lparr>k_epoll := remove1 (cn_fd x) (k_epoll c), handlers := removeAll a (handlers c)\<rparr>)"
proof -
  let ?d = "c\<lparr>k_epoll := remove1 (cn_fd x) (k_epoll c), handlers := removeAll a (handlers c)\<rparr>"
  have c: "col_heap c" "col_handlers t c" "col_kernel t c" "col_mode t c" using assms(1) by (simp_all add: col_core_def)
  have "b \<in> set (removeAll a (handlers c)) \<or> cn_close y \<in> {Some (SourceClosed b), Some (RemoteClosed b)} \<or> cn_fd y = -1"
    if y: "map_of (heap c) b = Some y" for b y
  proof (cases "b = a")
    case True
    then have "y = x" using y assms(2) by simp
    then show ?thesis using True assms(3) by simp
  next
    case False
    have "b \<in> set (handlers c) \<or> cn_close y \<in> {Some (SourceClosed b), Some (RemoteClosed b)} \<or> cn_fd y = -1"
      using c(1) y unfolding col_heap_def by metis
    then show ?thesis using False by simp
  qed
  then have "col_heap ?d" using c(1) unfolding col_heap_def by simp
  moreover have "col_handlers t ?d" using c(2) by (auto simp: col_handlers_def)
  moreover have "col_kernel t ?d" using c(3) by (auto simp: col_kernel_def)
  moreover have "\<exists>b \<in> set (removeAll a (handlers c)). map_option cn_fd (map_of (heap c) b) = Some f"
    if "\<exists>b \<in> set (handlers c). map_option cn_fd (map_of (heap c) b) = Some f" "f \<in> {col_fd c, t}" for f
    using that assms(2,4) by auto
  then have "col_mode t ?d" using c(3,4) assms(4) unfolding col_mode_def col_kernel_def
    by (cases "col_state c = READY_C") auto
  ultimately show ?thesis by (simp add: col_core_def)
qed

lemma release_core:
  assumes "col_core t c"
  shows "col_core t (release kcb_captures (col_roots c) a c) \<and>
    (\<exists>h. release kcb_captures (col_roots c) a c = c\<lparr>heap := h\<rparr>)"
proof (cases "map_of (heap c) a = None \<or> conn_refs kcb_captures (col_roots c) a c \<noteq> 0")
  case True
  then have "release kcb_captures (col_roots c) a c = c" by (auto simp: release_def split: option.split)
  then show ?thesis using assms by (simp add: exI [of _ "heap c"])
next
  case False
  then obtain x where x: "map_of (heap c) a = Some x" "conn_refs kcb_captures (col_roots c) a c = 0" by auto
  have nh: "a \<notin> set (handlers c)" using x(2) by (simp add: conn_refs_def col_roots_def count_list_0_iff)
  have "(a, x) \<in> set (heap c)" using x(1) by (rule map_of_SomeD)
  then have "a \<notin> set (concat (map kcb_captures (callbacks x)))"
    using x(2) by (force simp: conn_refs_def count_list_0_iff)
  then have "cn_close x \<notin> {Some (SourceClosed a), Some (RemoteClosed a)}" by (auto simp: callbacks_def)
  then have fd: "cn_fd x = -1" using assms x(1) nh unfolding col_core_def col_heap_def by metis
  let ?d = "c\<lparr>heap := node_erase a (heap c)\<rparr>"
  have m: "map_of (node_erase a h) b = (if b = a then None else map_of h b)" for b and h :: "(nat \<times> kcb Connection) list"
    by (induction h) (auto simp: node_erase_def)
  have c: "col_heap c" "col_handlers t c" "col_kernel t c" "col_mode t c" using assms by (simp_all add: col_core_def)
  have e: "\<forall>b \<in> set (handlers c). map_of (heap ?d) b = map_of (heap c) b" using nh by (auto simp: m)
  have "col_heap ?d" using c(1) unfolding col_heap_def by (simp add: m)
  moreover have "col_handlers t ?d" using c(2) e unfolding col_handlers_def by simp
  moreover have "col_mode t ?d" using c(4) e unfolding col_mode_def
    by (cases "col_state c = READY_C") auto
  moreover have "col_kernel t ?d" using c(3) by (simp add: col_kernel_def)
  ultimately have "col_core t ?d" by (simp add: col_core_def)
  moreover have "release kcb_captures (col_roots c) a c = c\<lparr>heap := node_erase a (heap c)\<rparr>"
    using x fd by (simp add: release_def Connection_Cleanup_def)
  ultimately show ?thesis by auto
qed

lemma releases_core:
  assumes "col_core t c"
  shows "col_core t (fold (\<lambda>a c. release kcb_captures (col_roots c) a c) as c) \<and>
    (\<exists>h. fold (\<lambda>a c. release kcb_captures (col_roots c) a c) as c = c\<lparr>heap := h\<rparr>)"
  using assms
proof (induction as arbitrary: c)
  case Nil
  then show ?case by (simp add: exI [of _ "heap c"])
next
  case (Cons a as)
  obtain h where h: "release kcb_captures (col_roots c) a c = c\<lparr>heap := h\<rparr>" "col_core t (c\<lparr>heap := h\<rparr>)"
    using release_core [OF Cons.prems, of a] by metis
  from Cons.IH [OF h(2)] show ?case by (auto simp: h(1))
qed

text \<open>
  The events epoll can report: the timer was registered for input only.  A datagram has to be one that the
  codec can parse.
\<close>

definition event_ok :: "int \<Rightarrow> int \<Rightarrow> epoll_collector_event \<Rightarrow> bool" where
  "event_ok t tfd ev \<longleftrightarrow> ke_fd ev \<noteq> tfd \<and> (ke_fd ev = t \<longrightarrow> ke_events ev AND EPOLLRDHUP = 0) \<and>
     group_payload (ka_from (ke_answer ev)) (ka_got (ke_answer ev)) (ka_mask (ke_answer ev)) \<noteq> None"

text \<open>The state after an event, by the kind of its handler.\<close>

definition next_state :: "int \<Rightarrow> epoll_collector_event \<Rightarrow> Collector \<Rightarrow> collector_state" where
  "next_state t ev c =
     (if col_state c = READY_C \<and> ke_fd ev = col_fd c \<and> ke_events ev AND EPOLLRDHUP \<noteq> 0 then DISCONNECTED_C
      else if col_state c = DISCONNECTED_C \<and> ke_fd ev = t \<and> ke_events ev AND EPOLLIN \<noteq> 0 \<and>
        fst (Collector_Connect (ka_connect (ke_answer ev)) c) then READY_C
      else col_state c)"

text \<open>What an event does, by the kind of its handler.\<close>

definition triggered :: "int \<Rightarrow> epoll_collector_event \<Rightarrow> nat \<Rightarrow> Collector \<Rightarrow> bool" where
  "triggered t ev a c \<longleftrightarrow>
     (\<exists>d. eventTrigger (collector_call (ke_answer ev)) (ke_events ev) a c = Some d \<and> col_core t d \<and>
       col_state d = next_state t ev c \<and> observeFd (terminator d) = observeFd (terminator c))"

lemma source_triggered:
  assumes "col_core t c" "event_ok t (observeFd (terminator c)) ev" "map_of (heap c) a = Some x" "cn_fd x = ke_fd ev"
    "snd (epollUnregister (ke_fd ev) c) = c\<lparr>k_epoll := remove1 (ke_fd ev) (k_epoll c)\<rparr>"
    "cn_close x = Some (SourceClosed a)" "cn_recv x \<in> {Some HandleGroupMsg, Some HandlerInterrupt}" "cn_fd x \<notin> {col_fd c, t}"
  shows "triggered t ev a c"
proof -
  note defs = triggered_def eventTrigger_def next_state_def collector_call_def assms(3-5)
  let ?d = "c\<lparr>k_epoll := remove1 (cn_fd x) (k_epoll c), handlers := removeAll a (handlers c)\<rparr>"
  have rel: "release kcb_captures (col_roots ?d) a ?d = ?d"
    by (rule release_captured [OF _ assms(6)]) (use map_of_SomeD [OF assms(3)] in simp_all)
  have hup: ?thesis if "ke_events ev AND EPOLLRDHUP \<noteq> 0"
    using that assms(4,6-8) rel source_closed_core [OF assms(1,3,6,8)] by (auto simp: defs Let_def)
  have msg: "\<exists>d. handle_group_msg (ke_answer ev) c = Some d \<and> col_core t d \<and> col_state d = col_state c \<and> terminator d = terminator c"
    using assms(1,2) by (auto simp: handle_group_msg_def event_ok_def addPayload_def Let_def)
  have quit: "col_core t (Collector_quit c) \<and> col_state (Collector_quit c) = col_state c \<and>
      observeFd (terminator (Collector_quit c)) = observeFd (terminator c)"
    using assms(1) by (simp add: Collector_quit_def observeFd_def Terminator_trigger_def Let_def)
  have input: ?thesis if "ke_events ev AND EPOLLRDHUP = 0" "ke_events ev AND EPOLLIN \<noteq> 0"
    using that assms(4,7,8) msg quit by (auto simp: defs)
  show ?thesis
    using hup input assms(1,4,8)
    by (cases "ke_events ev AND EPOLLRDHUP = 0"; cases "ke_events ev AND EPOLLIN = 0") (auto simp: defs)
qed

lemma timer_triggered:
  assumes "col_core t c" "event_ok t (observeFd (terminator c)) ev" "a \<in> set (handlers c)" "a \<in> set (kept c)"
    "map_of (heap c) a = Some x" "ke_fd ev = t" "cn_recv x = Some Reconnect" "cn_fd x = t" "col_state c = DISCONNECTED_C"
  shows "triggered t ev a c"
proof -
  let ?c = "c\<lparr>retry_count := retry_count c + ka_expiration (ke_answer ev)\<rparr>"
  obtain ok c1 where c1: "Collector_Connect (ka_connect (ke_answer ev)) ?c = (ok, c1)" by (metis surj_pair)
  have r: "col_core t c1" "col_state c1 = DISCONNECTED_C" "ok \<Longrightarrow> col_fd c1 \<noteq> -1" "kept c1 = kept c"
    "handlers c1 = handlers c" "terminator c1 = terminator c" "heap c1 = heap c"
    using col_retry_core [OF _ _ c1, of t] assms(1,9) by auto
  have ok: "ok = fst (Collector_Connect (ka_connect (ke_answer ev)) c)"
    using c1 Connect_retry [of "ka_connect (ke_answer ev)" _ c] by (metis fst_conv)
  have bk: "OnConnect c1 = Some (col_back t a x c1)" "col_core t (col_back t a x c1)" if "ok"
    using OnConnect_eq [OF r(1,2) r(3)] col_back_core [OF r(1,2) r(3)] that assms(3-5,8) r(4,5,7) by auto
  have "ke_events ev AND EPOLLRDHUP = 0" "t \<noteq> col_fd c" using assms(1,2,6) by (auto simp: event_ok_def col_defs)
  then show ?thesis
    using assms c1 r bk ok
    by (auto simp: triggered_def eventTrigger_def next_state_def collector_call_def col_back_def Let_def)
qed

lemma handler_triggered:
  assumes "col_core t c" "set (handlers c) \<subseteq> set (kept c)" "event_ok t (observeFd (terminator c)) ev"
    "handler_find (ke_fd ev) c = Some a"
  shows "triggered t ev a c"
proof -
  obtain x where x: "a \<in> set (handlers c)" "map_of (heap c) a = Some x" "cn_fd x = ke_fd ev" using handler_find_Some [OF assms(4)] .
  have ch: "col_handlers t c" using assms(1) by (simp add: col_core_def)
  have op: "ke_fd ev \<in> set (k_open c)" and o: "kcb_obj (col_fd c) t (col_state c) a x"
    using col_handlersD [OF ch x(1)] x(2,3) by auto
  consider (source) "cn_close x = Some (SourceClosed a)" "cn_recv x \<in> {Some HandleGroupMsg, Some HandlerInterrupt}" "cn_fd x \<notin> {col_fd c, t}"
    | (remote) "cn_close x = Some (RemoteClosed a)" "cn_recv x = None" "cn_fd x = col_fd c" "col_state c = READY_C"
    | (timer) "cn_close x = None" "cn_recv x = Some Reconnect" "cn_fd x = t" "col_state c = DISCONNECTED_C"
    using o unfolding kcb_obj_def by (elim disjE conjE)
  then show ?thesis
  proof cases
    case source
    then show ?thesis by (intro source_triggered [OF assms(1,3) x(2,3) epollUnregister_eq [OF op]])
  next
    case remote
    then show ?thesis
      using x assms(1) remote_closed_eq [OF assms(1) x(2) remote(1,3,4)] col_lost_core [OF assms(1) x(1,2) remote(3,4)]
      by (auto simp: triggered_def eventTrigger_def next_state_def col_lost_def)
  next
    case timer
    then show ?thesis using timer_triggered [OF assms(1,3) x(1) _ x(2)] x(1,3) assms(2) by auto
  qed
qed

lemma collector_event_core:
  assumes "col_core t c" "event_ok t (observeFd (terminator c)) ev"
  shows "\<exists>d. collector_event ev c = Some (False, d) \<and> col_core t d \<and> kept d = [] \<and>
    (handler_find (ke_fd ev) c \<noteq> None \<longrightarrow> col_state d = next_state t ev c) \<and> observeFd (terminator d) = observeFd (terminator c)"
proof -
  let ?c = "c\<lparr>kept := handlers c\<rparr>"
  have ne: "ke_fd ev \<noteq> observeFd (terminator c)" using assms(2) by (simp add: event_ok_def)
  have hf: "handler_find (ke_fd ev) ?c = handler_find (ke_fd ev) c" by (simp add: handler_find_def)
  show ?thesis
  proof (cases "handler_find (ke_fd ev) c")
    case None
    then show ?thesis using assms(1) ne hf by (simp add: collector_event_def)
  next
    case (Some a)
    have "triggered t ev a ?c" by (rule handler_triggered) (use assms Some hf in simp_all)
    then obtain d where d: "eventTrigger (collector_call (ke_answer ev)) (ke_events ev) a ?c = Some d" "col_core t d"
      "col_state d = next_state t ev ?c" "observeFd (terminator d) = observeFd (terminator c)"
      by (auto simp: triggered_def)
    obtain h where h: "fold (\<lambda>a c. release kcb_captures (col_roots c) a c) (kept d) (d\<lparr>kept := []\<rparr>) = d\<lparr>kept := [], heap := h\<rparr>"
      "col_core t (d\<lparr>kept := [], heap := h\<rparr>)"
      using releases_core [of t "d\<lparr>kept := []\<rparr>" "kept d"] d(2) by auto
    have "collector_event ev c = Some (False, d\<lparr>kept := [], heap := h\<rparr>)"
      using ne hf Some d(1) h(1) by (simp add: collector_event_def Let_def)
    moreover have "next_state t ev ?c = next_state t ev c"
      by (simp add: next_state_def Collector_Connect_def sys_accept_def new_fd_def sys_open_def SETSOCKOPT_def Let_def)
    ultimately show ?thesis using d h(2) by simp
  qed
qed


lemma mode_handler_found:
  assumes "col_core t c"
  shows "handler_find (mode_fd t c) c \<noteq> None"
proof -
  have "\<exists>a \<in> set (handlers c). map_option cn_fd (map_of (heap c) a) = Some (mode_fd t c)"
    using assms unfolding col_core_def col_mode_def mode_fd_def by (cases "col_state c = READY_C") simp_all
  then show ?thesis using handler_find_eq [of t c] assms by (auto simp: col_core_def)
qed

lemma event_bits: "EPOLLRDHUP AND EPOLLRDHUP \<noteq> 0" "EPOLLIN AND EPOLLIN \<noteq> 0" "EPOLLIN AND EPOLLRDHUP = 0"
  by (simp_all add: EPOLLRDHUP_def EPOLLIN_def)

lemma mode_event:
  assumes "col_core t c" "event_ok t (observeFd (terminator c)) ev" "ke_fd ev = mode_fd t c"
  obtains d where "collector_event ev c = Some (False, d)" "col_core t d" "kept d = []" "col_state d = next_state t ev c"
    "observeFd (terminator d) = observeFd (terminator c)"
  using collector_event_core [OF assms(1,2)] mode_handler_found [OF assms(1)] assms(3) by auto

lemma failing_attempts:
  assumes "col_core t c" "kept c = []" "col_state c = DISCONNECTED_C"
    "\<forall>ev \<in> set fs. event_ok t (observeFd (terminator c)) ev \<and> ke_fd ev = t \<and> \<not> cs_connect (ka_connect (ke_answer ev))"
  shows "\<exists>d. collector_events fs c = Some (False, d) \<and> col_core t d \<and> kept d = [] \<and> col_state d = DISCONNECTED_C \<and>
    observeFd (terminator d) = observeFd (terminator c)"
  using assms
proof (induction fs arbitrary: c)
  case (Cons ev fs)
  have "\<not> fst (Collector_Connect (ka_connect (ke_answer ev)) c)"
    using Cons.prems(4) by (auto simp: Collector_Connect_def SETSOCKOPT_def Let_def)
  then have "next_state t ev c = DISCONNECTED_C" using Cons.prems(3) by (simp add: next_state_def)
  moreover have "ke_fd ev = mode_fd t c" using Cons.prems(3,4) by (simp add: mode_fd_def)
  ultimately obtain d where d: "collector_event ev c = Some (False, d)" "col_core t d" "kept d = []" "col_state d = DISCONNECTED_C"
    "observeFd (terminator d) = observeFd (terminator c)"
    using mode_event [of t c ev] Cons.prems(1,4) by (metis list.set_intros(1))
  have "\<forall>ev \<in> set fs. event_ok t (observeFd (terminator d)) ev \<and> ke_fd ev = t \<and> \<not> cs_connect (ka_connect (ke_answer ev))"
    using Cons.prems(4) d(5) by simp
  from Cons.IH [OF d(2-4) this] show ?case using d(1,5) by simp
qed simp

text \<open>C16. A lost connection comes back: after the server hangs up, any number of failing attempts leave the
  collector reconnecting, and the first attempt that succeeds makes it ready again, with the timer off.\<close>

theorem collector_reconnects:
  assumes "col_core t c" "col_state c = READY_C"
    and ok: "\<forall>ev \<in> set (lost # failures @ [success]). event_ok t (observeFd (terminator c)) ev"
    and lost: "ke_fd lost = col_fd c" "ke_events lost = EPOLLRDHUP"
    and failures: "\<forall>ev \<in> set failures. ke_fd ev = t \<and> \<not> cs_connect (ka_connect (ke_answer ev))"
    and success: "ke_fd success = t" "ke_events success = EPOLLIN"
      "ka_connect (ke_answer success) = \<lparr>cs_socket = True, cs_sndtimeo = True, cs_nodelay = True, cs_connect = True\<rparr>"
  shows "\<exists>d e. collector_events (lost # failures) c = Some (False, d) \<and> col_state d = DISCONNECTED_C \<and> timer_armed d \<and>
    collector_events [success] d = Some (False, e) \<and> col_state e = READY_C \<and> \<not> timer_armed e \<and> col_fd e \<in> set (k_epoll e)"
proof -
  have "next_state t lost c = DISCONNECTED_C" "ke_fd lost = mode_fd t c"
    using assms(2) lost event_bits by (simp_all add: next_state_def mode_fd_def)
  then obtain c1 where c1: "collector_event lost c = Some (False, c1)" "col_core t c1" "kept c1 = []"
    "col_state c1 = DISCONNECTED_C" "observeFd (terminator c1) = observeFd (terminator c)"
    using mode_event [OF assms(1), of lost] ok by (metis list.set_intros(1))
  have "\<forall>ev \<in> set failures. event_ok t (observeFd (terminator c1)) ev \<and> ke_fd ev = t \<and> \<not> cs_connect (ka_connect (ke_answer ev))"
    using ok failures c1(5) by simp
  then obtain d where d: "collector_events failures c1 = Some (False, d)" "col_core t d" "col_state d = DISCONNECTED_C"
    "observeFd (terminator d) = observeFd (terminator c)"
    using failing_attempts [OF c1(2-4), of failures] c1(5) by auto
  have "fst (Collector_Connect (ka_connect (ke_answer success)) d)"
    using new_fd_fresh(2) [of d] success(3) by (simp add: Collector_Connect_def sys_accept_def SETSOCKOPT_def Let_def)
  then have "next_state t success d = READY_C" "ke_fd success = mode_fd t d"
    using d(3) success event_bits by (simp_all add: next_state_def mode_fd_def)
  moreover have "event_ok t (observeFd (terminator d)) success" using ok d(4) by simp
  ultimately obtain e where e: "collector_event success d = Some (False, e)" "col_core t e" "col_state e = READY_C"
    using mode_event [OF d(2), of success] by metis
  have "timer_armed d" "\<not> timer_armed e" "col_fd e \<in> set (k_epoll e)"
    using d(2,3) e(2,3) by (simp_all add: col_core_def col_mode_def)
  then show ?thesis using c1(1) d(1,3) e(1,3) by simp
qed

definition sample_collector :: Collector where
  "sample_collector =
     (let ok = \<lparr>cs_socket = True, cs_sndtimeo = True, cs_nodelay = True, cs_connect = True\<rparr>;
          tm = \<lparr>tm_read = 3, tm_write = 2, tm_pipe = []\<rparr>;
          c = Collector_new \<lparr>ks_connect = ok, ks_epoll = True, ks_timer = True, ks_db = False\<rparr> (Collector_init [0, 1, 2, 3, 4] tm) in
      case do { (_, c) \<leftarrow> registerSource 4 HandleGroupMsg c; OnConnect (snd (epollRegister 3 c)) } of
        None \<Rightarrow> Collector_init [] tm
      | Some c \<Rightarrow> c)"

lemma sample_collector_eq:
  "sample_collector =
     \<lparr>k_open = [7, 6, 5, 0, 1, 2, 3, 4], k_epoll = [5, 3, 4], k_closed = [], k_broken = [], k_sent = [], k_written = [],
      heap = [(0, \<lparr>cn_fd = 4, cn_recv = Some HandleGroupMsg, cn_send = None, cn_close = Some (SourceClosed 0), cn_buffer = []\<rparr>),
              (1, \<lparr>cn_fd = 5, cn_recv = None, cn_send = None, cn_close = Some (RemoteClosed 1), cn_buffer = []\<rparr>)],
      heap_next = 2, col_fd = 5, epoll_handler = 6, timer_fd = Some 7, timer_armed = False, retry_count = 0,
      col_state = READY_C, handlers = [1, 0], kept = [], terminator = \<lparr>tm_read = 3, tm_write = 2, tm_pipe = []\<rparr>,
      chan = Channel_new, paired = True, has_db = False, db_rows = []\<rparr>"
  by (simp add: sample_collector_def Collector_new_def Collector_init_def Collector_Connect_def sys_accept_def new_fd_def
      sys_open_def SETSOCKOPT_def registerSource_def make_connection_def epollRegister_def registerCallback_def node_set_def
      OnConnect_def Connection_new_def upt_rec Let_def)

lemma sample_collector_core: "col_core 7 sample_collector" "kept sample_collector = []" "col_state sample_collector = READY_C"
proof -
  show "col_core 7 sample_collector"
    by (auto simp: col_defs sample_collector_eq kcb_obj_def split: if_splits)
qed (simp_all add: sample_collector_eq)

definition sample_event :: "int \<Rightarrow> u32 \<Rightarrow> bool \<Rightarrow> epoll_collector_event" where
  "sample_event fd events ok =
     \<lparr>ke_fd = fd, ke_events = events,
      ke_answer = \<lparr>ka_connect = \<lparr>cs_socket = True, cs_sndtimeo = True, cs_nodelay = True, cs_connect = ok\<rparr>, ka_expiration = 1,
                   ka_got = [], ka_from = [], ka_mask = 7\<rparr>\<rparr>"

lemma sample_event_ok: "fd \<noteq> 3 \<Longrightarrow> fd = 7 \<longrightarrow> events AND EPOLLRDHUP = 0 \<Longrightarrow> event_ok 7 3 (sample_event fd events ok)"
proof -
  have "group_payload [] [] 7 \<noteq> None" by code_simp
  then show "fd \<noteq> 3 \<Longrightarrow> fd = 7 \<longrightarrow> events AND EPOLLRDHUP = 0 \<Longrightarrow> event_ok 7 3 (sample_event fd events ok)"
    by (simp add: event_ok_def sample_event_def)
qed


theorem collector_reconnects_witness:
  "\<exists>d e. collector_events [sample_event 5 EPOLLRDHUP True, sample_event 7 EPOLLIN False, sample_event 7 EPOLLIN False] sample_collector =
      Some (False, d) \<and> timer_armed d \<and>
    collector_events [sample_event 7 EPOLLIN True] d = Some (False, e) \<and> col_state e = READY_C"
proof -
  have t: "observeFd (terminator sample_collector) = 3" by (simp add: sample_collector_eq observeFd_def)
  have "\<forall>ev \<in> set (sample_event 5 EPOLLRDHUP True # [sample_event 7 EPOLLIN False, sample_event 7 EPOLLIN False] @
      [sample_event 7 EPOLLIN True]). event_ok 7 (observeFd (terminator sample_collector)) ev"
    unfolding t by (simp add: sample_event_ok event_bits)
  from collector_reconnects [OF sample_collector_core(1,3) this]
  show ?thesis by (auto simp: sample_event_def sample_collector_eq)
qed

text \<open>A collector that could not connect has no timer, and its destructor reads the uninitialized descriptor.\<close>

lemma unconnected_destructor_undefined:
  assumes "\<not> cs_connect (ks_connect sys)"
  shows "Collector_destroy (Collector_new sys (Collector_init fds tm)) = None"
proof -
  let ?c = "Collector_init fds tm"
  obtain ok c' where c': "Collector_Connect (ks_connect sys) ?c = (ok, c')" by (metis surj_pair)
  have "set (k_epoll ?c) \<subseteq> set (k_open ?c)" by (simp add: Collector_init_def)
  then have "timer_fd c' = timer_fd ?c" by (rule Collector_Connect_cases [OF c']) simp
  moreover have "\<not> ok" using c' assms by (auto simp: Collector_Connect_def SETSOCKOPT_def Let_def split: if_splits)
  ultimately have "timer_fd (Collector_new sys ?c) = None" using c' by (simp add: Collector_new_def Collector_init_def)
  moreover have "timer_fd (snd (FdHelper_Close fd d)) = timer_fd d" "timer_fd (Collector_quit d) = timer_fd d" for fd d
    by (simp_all add: FdHelper_Close_def sys_close_def Collector_quit_def Let_def)
  ultimately show ?thesis by (simp add: Collector_destroy_def Let_def)
qed

section \<open>Readings\<close>

text \<open>The text of a reading, as the handler of group messages parses it, and its fields.\<close>

definition reading :: "nat \<Rightarrow> int \<Rightarrow> int \<Rightarrow> u8 list" where
  "reading serial block weight = fmt_d serial @ 64 # fmt_int block @ 64 # fmt_int weight"

definition reading_input :: "nat \<Rightarrow> nat \<Rightarrow> int \<Rightarrow> int \<Rightarrow> Input" where
  "reading_input ip serial block weight =
     \<lparr>in_error = 0, in_ip = of_nat ip, in_weight = of_int weight, in_block = of_int block, in_serial = of_nat serial\<rparr>"

lemma takeWhile_stop: "c \<notin> set a \<Longrightarrow> takeWhile (\<lambda>b. b \<noteq> c) (a @ c # r) = a"
  by (induction a) auto

lemma takeWhile_all: "c \<notin> set a \<Longrightarrow> takeWhile (\<lambda>b. b \<noteq> c) a = a"
  by (induction a) auto

lemma after_first_stop: "c \<notin> set a \<Longrightarrow> after_first c (a @ c # b) = Some b"
  by (induction a) (auto simp: after_first_def)

lemma after_last_stop: "c \<notin> set b \<Longrightarrow> after_last c (a @ c # b) = Some b"
  by (simp add: after_last_def takeWhile_stop)

lemma number_chars:
  "64 \<notin> set (fmt_d n)" "46 \<notin> set (fmt_d n)" "0 \<notin> set (fmt_d n)" "64 \<notin> set (fmt_int i)" "0 \<notin> set (fmt_int i)"
  using fmt_d_set(2,3) [of 64 n] fmt_d_set(2) [of 46 n] fmt_d_set(2) [of 0 n] fmt_int_set [of 64 i] fmt_int_set [of 0 i]
  by auto

lemma short_weight_not_BAD:
  assumes "- 65535 < weight" "weight < 65535"
  shows "take BAD_LEN (fmt_int weight) \<noteq> BAD"
proof
  assume t: "take BAD_LEN (fmt_int weight) = BAD"
  have "length (fmt_int weight) \<le> BAD_LEN"
    using fmt_int_length [of weight 4] assms by (simp add: BAD_LEN_def)
  then have "fmt_int weight = BAD" using t by simp
  moreover have "fmt_int (- 65535) = BAD" by (simp add: BAD_def fmt_int_def fmt_d.simps)
  ultimately show False
    using signed_value_fmt_int [of "[]" weight] signed_value_fmt_int [of "[]" "- 65535"] assms by simp
qed

lemma reading_length:
  assumes "serial < 2 ^ 32" "- (2 ^ 31) \<le> block" "block < 2 ^ 31" "- 32768 \<le> weight" "weight < 32768"
  shows "length (reading serial block weight) < 64"
proof -
  have "length (fmt_d serial) \<le> 10" "length (fmt_int block) \<le> 11" "length (fmt_int weight) \<le> 6"
    using fmt_d_length [of serial 9] fmt_int_length [of block 9] fmt_int_length [of weight 4] assms by (simp_all add: abs_if split: if_splits)
  then show ?thesis by (simp add: reading_def)
qed

lemma group_payload_record:
  assumes "serial < 2 ^ 32" "- (2 ^ 31) \<le> block" "block < 2 ^ 31" "- 32768 \<le> weight" "weight < 32768" "ip < 256"
  shows "\<exists>p. group_payload (pre @ 46 # fmt_d ip) (reading serial block weight) m = Some (reading serial block weight, p) \<and>
    Encrypt m (Data_bytes (Encode (reading_input ip serial block weight))) kDataSize = Some p"
proof -
  let ?s = "reading serial block weight"
  let ?i = "reading_input ip serial block weight"
  have nd: "\<not> isdigit 64" by (simp add: isdigit_def)
  have buf: "cstring (take 64 ?s @ replicate (64 - length (take 64 ?s)) 0) = Some ?s"
  proof -
    obtain k where "64 - length ?s = Suc k" using reading_length [OF assms(1-5)] by (cases "64 - length ?s") auto
    moreover have "0 \<notin> set ?s" by (simp add: reading_def number_chars)
    ultimately show ?thesis using reading_length [OF assms(1-5)] by simp
  qed
  have ip: "parseIp (pre @ 46 # fmt_d ip) Input_new = Some (Input_new\<lparr>in_ip := of_nat ip\<rparr>)"
    using signed_value_fmt_d [of "[]" ip] assms(6) by (simp add: parseIp_def after_last_stop number_chars atoi_def)
  have "after_last 64 ?s = Some (fmt_int weight)"
    using after_last_stop [of 64 "fmt_int weight" "fmt_d serial @ 64 # fmt_int block"] by (simp add: reading_def number_chars)
  then have weight: "parseWeight ?s i = Some (i\<lparr>in_weight := of_int weight\<rparr>)" for i
    using short_weight_not_BAD [of weight] atoi_fmt_int [of "[]" weight] assms(4,5) by (simp add: parseWeight_def)
  have block: "parseBlock ?s i = Some (i\<lparr>in_block := of_int block\<rparr>)" for i
    using atoi_fmt_int [of "64 # fmt_int weight" block] assms(2,3) nd
    by (simp add: parseBlock_def reading_def after_first_stop number_chars)
  have "signed_value ?s = int serial"
    using signed_value_fmt_d [of "64 # fmt_int block @ 64 # fmt_int weight" serial] nd by (simp add: reading_def)
  then have serial: "parseSerial ?s i = i\<lparr>in_serial := of_nat serial\<rparr>" for i
    using assms(1) by (simp add: parseSerial_def strtoull_def unsigned_of_nat take_bit_nat_eq_self)
  have "Encrypt m (Data_bytes (Encode ?i)) kDataSize \<noteq> None"
    using Encrypt_masked [of "Data_bytes (Encode ?i)" m] by (simp add: Data_bytes_def kDataSize_def)
  moreover have "Input_new\<lparr>in_ip := of_nat ip, in_weight := of_int weight, in_block := of_int block, in_serial := of_nat serial\<rparr> = ?i"
    by (simp add: Input_new_def reading_input_def)
  then have "group_payload (pre @ 46 # fmt_d ip) ?s m =
      map_option (Pair ?s) (Encrypt m (Data_bytes (Encode ?i)) kDataSize)"
    unfolding group_payload_def Let_def buf by (simp add: ip weight block serial map_option_case split: option.split)
  ultimately show ?thesis by auto
qed

end
