(* ===== verification/Notifier.thy ===== *)
theory Notifier
  imports Collector
begin

text \<open>
  The relay and the notifier of \<^verbatim>\<open>src/io/notifier.h\<close>, \<^verbatim>\<open>notifier.cpp\<close> and \<^verbatim>\<open>reader.h\<close>: the relay accepts
  collectors, unmasks their records and writes those that somebody wants to a pipe; the notifier reads the
  pipe, formats the records and calls the subscribers of their topic.  Subscribers name their topics in the
  query of an address.  A subscriber's function is the address of its shared object; what the function answers
  is an argument of the step that calls it.
\<close>

unbundle bit_operations_syntax

section \<open>Random bytes\<close>

definition kBufferSize :: nat where
  "kBufferSize = 1024"

record RandomReader =
  rr_i :: nat
  rr_buf :: "u8 list"

text \<open>The reads of the file, each with the bytes it delivers; a short or failing read leaves old bytes.\<close>

fun Fetch :: "nat \<Rightarrow> u8 list list \<Rightarrow> RandomReader \<Rightarrow> (u8 list \<times> u8 list list \<times> RandomReader) option" where
  "Fetch 0 reads r = Some ([], reads, r)"
| "Fetch (Suc len) reads r =
     (let (reads, r) =
        (if rr_i r + 1 > kBufferSize then
           (case reads of
              [] \<Rightarrow> ([], r\<lparr>rr_i := 0\<rparr>)
            | got # reads \<Rightarrow> (reads, r\<lparr>rr_i := 0, rr_buf := take kBufferSize got @ drop (length got) (rr_buf r)\<rparr>))
         else (reads, r)) in
      do {
        b \<leftarrow> rd (rr_buf r) (rr_i r);
        (bs, reads, r) \<leftarrow> Fetch len reads (r\<lparr>rr_i := rr_i r + 1\<rparr>);
        Some (b # bs, reads, r)
      })"

section \<open>Topics\<close>

type_synonym topics = "(u8 list \<times> nat list) list"

text \<open>The \<^verbatim>\<open>operator[]\<close> of the table, for reading and for writing.\<close>

definition topic_at :: "u8 list \<Rightarrow> topics \<Rightarrow> nat list" where
  "topic_at topic tab = (case map_of tab topic of None \<Rightarrow> [] | Some ts \<Rightarrow> ts)"

definition topic_set :: "u8 list \<Rightarrow> nat list \<Rightarrow> topics \<Rightarrow> topics" where
  "topic_set topic ts tab = (topic, ts) # filter (\<lambda>x. fst x \<noteq> topic) tab"

definition topic_subscribe :: "u8 list list \<Rightarrow> nat \<Rightarrow> topics \<Rightarrow> topics" where
  "topic_subscribe topics task tab = fold (\<lambda>topic tab. topic_set topic (topic_at topic tab @ [task]) tab) topics tab"

definition topic_publish :: "(nat \<Rightarrow> bool) \<Rightarrow> u8 list \<Rightarrow> topics \<Rightarrow> topics" where
  "topic_publish accepts topic tab = topic_set topic (filter accepts (topic_at topic tab)) tab"

text \<open>\<^verbatim>\<open>find\<close> of a character from a position on.\<close>

definition find_from :: "u8 \<Rightarrow> nat \<Rightarrow> u8 list \<Rightarrow> nat option" where
  "find_from c k s =
     (if c \<in> set (drop k s) then Some (k + length (takeWhile (\<lambda>b. b \<noteq> c) (drop k s))) else None)"

text \<open>\<^verbatim>\<open>substr\<close> with a length that wraps when the comma comes first.\<close>

definition j2s :: "u8 list \<Rightarrow> u8 list" where
  "j2s json =
     (case find_from 119 0 json of
        None \<Rightarrow> json
      | Some k \<Rightarrow>
          (case (find_from 58 k json, find_from 44 k json) of
             (Some i, Some j) \<Rightarrow> (let i = i + 1 in if i \<le> j then take (j - i) (drop i json) else drop i json)
           | _ \<Rightarrow> json))"

text \<open>
  \<^verbatim>\<open>sscanf(&uri[i], "%[^=]=%[^&]%n", k, v, &n)\<close>: the contents of the two arrays, uninitialized at first, and the
  value of \<^verbatim>\<open>n\<close>.  A conversion of 16 characters or more overflows its array.
\<close>

type_synonym scan_state = "u8 list option \<times> u8 list option \<times> nat"

definition scan_pair :: "u8 list \<Rightarrow> u8 list option \<Rightarrow> u8 list option \<Rightarrow> scan_state option" where
  "scan_pair s k v =
     (let a = takeWhile (\<lambda>b. b \<noteq> 61) s; r = drop (length a) s in
      if a = [] then Some (k, v, 0)
      else if 16 \<le> length a then None
      else if r = [] then Some (Some a, v, 0)
      else
        (let b = takeWhile (\<lambda>b. b \<noteq> 38) (tl r) in
         if b = [] then Some (Some a, v, 0)
         else if 16 \<le> length b then None
         else Some (Some a, Some b, length a + 1 + length b)))"

function parse_loop :: "u8 list \<Rightarrow> nat \<Rightarrow> u8 list option \<Rightarrow> u8 list option \<Rightarrow> u8 list list option" where
  "parse_loop uri i k v =
     (if i + 1 < length uri then do {
        (k, v, n) \<leftarrow> scan_pair (takeWhile (\<lambda>b. b \<noteq> 0) (drop (i + 1) uri)) k v;
        _ \<leftarrow> k;
        t \<leftarrow> v;
        ts \<leftarrow> parse_loop uri (i + 1 + n) k v;
        Some (t # ts)
      }
      else Some [])"
  by pat_completeness auto
termination
  by (relation "measure (\<lambda>(uri, i, k, v). length uri - i)") auto

declare parse_loop.simps [simp del]

definition parseTopic :: "u8 list \<Rightarrow> u8 list list option" where
  "parseTopic uri =
     (case find_from 63 0 uri of None \<Rightarrow> Some [] | Some i \<Rightarrow> parse_loop uri i None None)"

section \<open>Notifier\<close>

text \<open>
  \<open>flight\<close> is what one round of \<^verbatim>\<open>Run\<close> holds between its two critical sections: the topic, the payload and the
  functions it took out of the table.  \<open>delivered\<close> lists the calls.
\<close>

record Notifier =
  subscriber :: "(int \<times> nat) list"
  manager :: topics
  next_task :: nat
  flight :: "(u8 list \<times> u8 list \<times> nat list) option"
  delivered :: "(nat \<times> u8 list) list"

definition Notifier_new :: Notifier where
  "Notifier_new = \<lparr>subscriber = [], manager = [], next_task = 0, flight = None, delivered = []\<rparr>"

text \<open>The filter of the relay.\<close>

definition has_subscriber :: "u8 list \<Rightarrow> Notifier \<Rightarrow> bool" where
  "has_subscriber topic n \<longleftrightarrow> topic_at topic (manager n) \<noteq> []"

definition Notifier_Register :: "int \<Rightarrow> u8 list list \<Rightarrow> Notifier \<Rightarrow> Notifier" where
  "Notifier_Register key topics n =
     (if key \<in> fst ` set (subscriber n) then n
      else
        (let task = next_task n in
         n\<lparr>next_task := Suc task, manager := topic_subscribe topics task (manager n),
           subscriber := (key, task) # subscriber n\<rparr>))"

text \<open>A weak pointer can be promoted while some vector still has the function.\<close>

definition task_alive :: "nat \<Rightarrow> Notifier \<Rightarrow> bool" where
  "task_alive task n \<longleftrightarrow>
     task \<in> set (concat (map snd (manager n))) \<or> (case flight n of None \<Rightarrow> False | Some (_, _, ts) \<Rightarrow> task \<in> set ts)"

text \<open>The first critical section; \<open>buf\<close> and \<open>i2s_buf\<close> are the arrays of the formatter.\<close>

definition notifier_take :: "u8 list \<Rightarrow> u8 list \<Rightarrow> Data \<Rightarrow> Notifier \<Rightarrow> Notifier option" where
  "notifier_take buf i2s_buf x n = do {
     output \<leftarrow> load buf i2s_buf x;
     let n = n\<lparr>subscriber := filter (\<lambda>p. task_alive (snd p) n) (subscriber n)\<rparr>;
     let ref = topic_at (out_topic output) (manager n);
     Some (if ref = [] then n
           else n\<lparr>manager := topic_set (out_topic output) [] (manager n),
                  flight := Some (out_topic output, out_payload output, ref)\<rparr>)
   }"

text \<open>The calls, and the second critical section, which puts the functions that answered true back.\<close>

definition notifier_publish :: "(nat \<Rightarrow> bool) \<Rightarrow> Notifier \<Rightarrow> Notifier" where
  "notifier_publish accepts n =
     (case flight n of
        None \<Rightarrow> n
      | Some (topic, payload, tasks) \<Rightarrow>
          n\<lparr>delivered := delivered n @ map (\<lambda>t. (t, payload)) tasks, flight := Some (topic, payload, filter accepts tasks)\<rparr>)"

definition notifier_restore :: "Notifier \<Rightarrow> Notifier" where
  "notifier_restore n =
     (case flight n of
        None \<Rightarrow> n
      | Some (topic, payload, ts) \<Rightarrow>
          (let n = n\<lparr>flight := None\<rparr> in
           if ts = [] then n else n\<lparr>manager := topic_set topic (topic_at topic (manager n) @ ts) (manager n)\<rparr>))"

definition notifier_round :: "u8 list \<Rightarrow> u8 list \<Rightarrow> (nat \<Rightarrow> bool) \<Rightarrow> Data \<Rightarrow> Notifier \<Rightarrow> Notifier option" where
  "notifier_round buf i2s_buf accepts x n =
     map_option (notifier_restore \<circ> notifier_publish accepts) (notifier_take buf i2s_buf x n)"

text \<open>
  One turn of the loop: it ends on the terminator's event; otherwise it reads a record from the pipe into a
  zeroed structure.
\<close>

definition Notifier_Run :: "u8 list \<Rightarrow> u8 list \<Rightarrow> (nat \<Rightarrow> bool) \<Rightarrow> bool \<Rightarrow> u8 list \<Rightarrow> Notifier \<Rightarrow>
    (bool \<times> u8 list \<times> Notifier) option" where
  "Notifier_Run buf i2s_buf accepts quit pipe n =
     (if quit then Some (True, pipe, n)
      else do {
        let got = take kDataSize pipe;
        n \<leftarrow> notifier_round buf i2s_buf accepts (Data_of_bytes (got @ replicate (kDataSize - length got) 0)) n;
        Some (False, drop kDataSize pipe, n)
      })"

section \<open>Relay\<close>

datatype rcb = HandleMessage | HandleConnection | RelayClosed | RelayQuit

definition rcb_captures :: "rcb \<Rightarrow> nat list" where
  "rcb_captures cb = []"

datatype relay_state = READY_R | WAIT_R | QUIT_R

record Relay = "rcb Net" +
  conns :: "(int \<times> nat) list"
  rl_state :: relay_state
  rl_pipe :: "u8 list"

definition relay_roots :: "Relay \<Rightarrow> nat list" where
  "relay_roots r = map snd (conns r)"

text \<open>Erasing an entry of the map drops its pointer.\<close>

definition conns_erase :: "int \<Rightarrow> Relay \<Rightarrow> Relay" where
  "conns_erase fd r =
     (case map_of (conns r) fd of
        None \<Rightarrow> r
      | Some a \<Rightarrow>
          (let r = r\<lparr>conns := filter (\<lambda>x. fst x \<noteq> fd) (conns r)\<rparr> in release rcb_captures (relay_roots r) a r))"

definition set_buffer :: "nat \<Rightarrow> u8 list \<Rightarrow> Relay \<Rightarrow> Relay option" where
  "set_buffer a buf r = do {
     c \<leftarrow> map_of (heap r) a;
     Some (r\<lparr>heap := node_set a (c\<lparr>cn_buffer := buf\<rparr>) (heap r)\<rparr>)
   }"

text \<open>\<open>got\<close> is what \<^verbatim>\<open>recv\<close> delivers: at most the size of the buffer, less when the peer has sent less.\<close>

definition handle_message :: "(u8 list \<Rightarrow> bool) option \<Rightarrow> u8 list \<Rightarrow> int \<Rightarrow> Relay \<Rightarrow> Relay option" where
  "handle_message flt got fd r = do {
     a \<leftarrow> map_of (conns r) fd;
     c \<leftarrow> map_of (heap r) a;
     let got = take (length (cn_buffer c)) got;
     let buf = got @ drop (length got) (cn_buffer c);
     (ok, buf, d) \<leftarrow> Decrypt buf kDataSize;
     r \<leftarrow> set_buffer a buf r;
     if \<not> ok then Some (conns_erase fd r)
     else
       (let x = Data_of_bytes d; topic = RetrieveTopic (d_b x) in
        if flt \<noteq> None \<and> \<not> the flt topic then Some r
        else
          (let r = (if length (rl_pipe r) < 128 then r\<lparr>rl_pipe := rl_pipe r @ Data_bytes x\<rparr> else r) in
           Some (r\<lparr>rl_state := READY_R\<rparr>)))
   }"

definition handle_connection :: "bool \<Rightarrow> Relay \<Rightarrow> Relay option" where
  "handle_connection ok r =
     (let sock = sys_accept ok r in
      if sock = -1 then Some r
      else
        (case make_connection sock (sys_open sock r) of (a, r) \<Rightarrow>
         case epollRegister sock r of (rc, r) \<Rightarrow>
           if rc \<noteq> 0 then Some (release rcb_captures (relay_roots r) a r)
           else do {
             r \<leftarrow> set_buffer a (replicate kDataLen 0) r;
             r \<leftarrow> registerCallback (Some HandleMessage) None (Some RelayClosed) a r;
             Some (if sock \<in> fst ` set (conns r) then release rcb_captures (relay_roots r) a r
                   else r\<lparr>conns := (sock, a) # conns r\<rparr>)
           }))"

record epoll_relay_event =
  re_fd :: int
  re_events :: u32
  re_accept :: bool
  re_got :: "u8 list"

definition relay_call :: "(u8 list \<Rightarrow> bool) option \<Rightarrow> epoll_relay_event \<Rightarrow> rcb \<Rightarrow> int \<Rightarrow> Relay \<Rightarrow> Relay option" where
  "relay_call flt ev cb fd r =
     (case cb of
        HandleMessage \<Rightarrow> handle_message flt (re_got ev) fd r
      | HandleConnection \<Rightarrow> handle_connection (re_accept ev) r
      | RelayClosed \<Rightarrow> Some (conns_erase fd r)
      | RelayQuit \<Rightarrow> Some (r\<lparr>rl_state := QUIT_R\<rparr>))"

text \<open>A descriptor without an entry gives a null pointer.\<close>

definition relay_event :: "(u8 list \<Rightarrow> bool) option \<Rightarrow> epoll_relay_event \<Rightarrow> Relay \<Rightarrow> Relay option" where
  "relay_event flt ev r = do {
     a \<leftarrow> map_of (conns r) (re_fd ev);
     eventTrigger (relay_call flt ev) (re_events ev) a r
   }"

fun relay_events :: "(u8 list \<Rightarrow> bool) option \<Rightarrow> epoll_relay_event list \<Rightarrow> Relay \<Rightarrow> Relay option" where
  "relay_events flt [] r = Some r"
| "relay_events flt (ev # evs) r = do { r \<leftarrow> relay_event flt ev r; relay_events flt evs r }"

text \<open>The listening socket and the terminator get their entries; only the socket is registered with epoll.\<close>

definition relay_start :: "int \<Rightarrow> int \<Rightarrow> Relay \<Rightarrow> Relay option" where
  "relay_start sock tfd r =
     (case make_connection sock r of (a, r) \<Rightarrow> do {
        let r = snd (epollRegister sock r);
        r \<leftarrow> registerCallback (Some HandleConnection) None None a r;
        let r = r\<lparr>conns := (sock, a) # conns r\<rparr>;
        let (b, r) = make_connection tfd r;
        r \<leftarrow> registerCallback (Some RelayQuit) None None b r;
        Some (r\<lparr>conns := (tfd, b) # conns r\<rparr>)
      })"

datatype relay_wait = RelayEvents "epoll_relay_event list" | RelayInterrupted | RelayWaitFailed

fun relay_rounds :: "(u8 list \<Rightarrow> bool) option \<Rightarrow> relay_wait list \<Rightarrow> Relay \<Rightarrow> (bool \<times> Relay) option" where
  "relay_rounds flt [] r = Some (rl_state r = QUIT_R, r)"
| "relay_rounds flt (w # ws) r =
     (if rl_state r = QUIT_R then Some (True, r)
      else
        (case w of
           RelayInterrupted \<Rightarrow> relay_rounds flt ws r
         | RelayWaitFailed \<Rightarrow> Some (True, r)
         | RelayEvents evs \<Rightarrow> do { r \<leftarrow> relay_events flt evs r; relay_rounds flt ws r }))"

definition Relay_init :: "int list \<Rightarrow> Relay" where
  "Relay_init fds =
     \<lparr>k_open = fds, k_epoll = [], k_closed = [], k_broken = [], k_sent = [], k_written = [], heap = [], heap_next = 0,
      conns = [], rl_state = WAIT_R, rl_pipe = []\<rparr>"

section \<open>The relay\<close>

text \<open>
  The entries of the map have their own open descriptors and own all live objects; only registered descriptors
  of entries other than the terminator's are in the epoll set; the pipe holds whole records and at most
  eleven of them.
\<close>

definition relay_obj :: "int \<Rightarrow> int \<Rightarrow> rcb Connection \<Rightarrow> bool" where
  "relay_obj tfd fd c \<longleftrightarrow> cn_fd c = fd \<and>
     (if fd = tfd then cn_recv c = Some RelayQuit \<and> cn_close c = None
      else cn_recv c = Some HandleConnection \<and> cn_close c = None \<or>
        cn_recv c = Some HandleMessage \<and> cn_close c = Some RelayClosed \<and> length (cn_buffer c) = kDataLen)"

definition relay_wf :: "int \<Rightarrow> Relay \<Rightarrow> bool" where
  "relay_wf tfd r \<longleftrightarrow>
     tfd \<in> fst ` set (conns r) \<and> distinct (map fst (conns r)) \<and> distinct (map snd (conns r)) \<and> snd ` set (conns r) \<subseteq> {..<heap_next r} \<and>
     dom (map_of (heap r)) = snd ` set (conns r) \<and>
     (\<forall>x \<in> set (conns r). \<exists>c. map_of (heap r) (snd x) = Some c \<and> relay_obj tfd (fst x) c) \<and>
     fst ` set (conns r) \<subseteq> set (k_open r) \<and> distinct (k_open r) \<and> -1 \<notin> set (k_open r) \<and> distinct (k_epoll r) \<and>
     set (k_epoll r) \<subseteq> fst ` set (conns r) - {tfd} \<and>
     rl_state r \<noteq> QUIT_R \<and> 12 dvd length (rl_pipe r) \<and> length (rl_pipe r) \<le> 132"

lemma no_captures: "conn_refs rcb_captures roots a n = count_list roots a"
proof -
  have "concat (map (\<lambda>x. concat (map rcb_captures (callbacks (snd x)))) h) = []" for h :: "(nat \<times> rcb Connection) list"
    by (simp add: rcb_captures_def [abs_def] concat_eq_Nil_conv)
  then show ?thesis unfolding conn_refs_def by simp
qed

lemma map_of_node_erase: "map_of (node_erase a h) b = (if b = a then None else map_of h b)"
  by (induction h) (auto simp: node_erase_def)

lemma snd_unique: "distinct (map snd xs) \<Longrightarrow> (a, c) \<in> set xs \<Longrightarrow> (b, c) \<in> set xs \<Longrightarrow> a = b"
  by (fastforce simp: distinct_map inj_on_def)

lemma conns_erase_eq:
  assumes "relay_wf tfd r" "(fd, a) \<in> set (conns r)"
  shows "conns_erase fd r =
    r\<lparr>conns := filter (\<lambda>x. fst x \<noteq> fd) (conns r), heap := node_erase a (heap r), k_open := remove1 fd (k_open r),
      k_epoll := remove1 fd (k_epoll r), k_closed := k_closed r @ [fd]\<rparr>"
proof -
  have m: "map_of (conns r) fd = Some a" using assms by (simp add: relay_wf_def)
  have "distinct (map snd (conns r))" using assms(1) by (simp add: relay_wf_def)
  then have "a \<notin> snd ` {x \<in> set (conns r). fst x \<noteq> fd}" using snd_unique [OF _ _ assms(2)] by auto
  then have "count_list (map snd (filter (\<lambda>x. fst x \<noteq> fd) (conns r))) a = 0" by (simp add: count_list_0_iff)
  moreover obtain c where "map_of (heap r) a = Some c" "cn_fd c = fd"
    using assms unfolding relay_wf_def relay_obj_def by fastforce
  moreover have "fd \<in> fst ` set (conns r)" using assms(2) by force
  then have "fd \<in> set (k_open r)" "fd \<noteq> -1" using assms(1) by (auto simp: relay_wf_def)
  ultimately show ?thesis
    using m by (simp add: conns_erase_def release_def no_captures relay_roots_def Connection_Cleanup_def sys_close_def Let_def)
qed

lemma conns_erase_wf:
  assumes "relay_wf tfd r" "(fd, a) \<in> set (conns r)" "fd \<noteq> tfd"
  shows "relay_wf tfd (conns_erase fd r)" "k_epoll (conns_erase fd r) = remove1 fd (k_epoll r)"
proof -
  let ?cs = "filter (\<lambda>x. fst x \<noteq> fd) (conns r)"
  have w: "distinct (map fst (conns r))" "distinct (map snd (conns r))" "dom (map_of (heap r)) = snd ` set (conns r)"
    "\<forall>x \<in> set (conns r). \<exists>c. map_of (heap r) (snd x) = Some c \<and> relay_obj tfd (fst x) c"
    "distinct (k_open r)" "distinct (k_epoll r)" "fst ` set (conns r) \<subseteq> set (k_open r)"
    "set (k_epoll r) \<subseteq> fst ` set (conns r) - {tfd}"
    using assms(1) by (simp_all add: relay_wf_def)
  have sp: "set ?cs = set (conns r) - {(fd, a)}"
  proof -
    have u: "y = (fd, a)" if "y \<in> set (conns r)" "fst y = fd" for y
      using that eq_key_imp_eq_value [OF w(1)] assms(2) by (metis prod.collapse)
    show ?thesis
    proof (rule set_eqI)
      fix y show "y \<in> set ?cs \<longleftrightarrow> y \<in> set (conns r) - {(fd, a)}" using u [of y] by (cases "y = (fd, a)") auto
    qed
  qed
  have "snd ` set ?cs = snd ` set (conns r) - {a}"
    using snd_unique [OF w(2) _ assms(2)] unfolding sp by force
  then have "dom (map_of (node_erase a (heap r))) = snd ` set ?cs"
    using w(3) by (auto simp: map_of_node_erase dom_def)
  moreover have "\<forall>x \<in> set ?cs. \<exists>c. map_of (node_erase a (heap r)) (snd x) = Some c \<and> relay_obj tfd (fst x) c"
    using w(4) snd_unique [OF w(2) _ assms(2)] by (auto simp: map_of_node_erase)
  moreover have "fst ` set ?cs \<subseteq> set (remove1 fd (k_open r))" "set (remove1 fd (k_epoll r)) \<subseteq> fst ` set ?cs - {tfd}"
    using w(5-8) by auto
  moreover have "tfd \<in> fst ` set (conns r)" using assms(1) by (simp add: relay_wf_def)
  then obtain b where "(tfd, b) \<in> set ?cs" using assms(3) by auto
  then have "tfd \<in> fst ` set ?cs" by (rule image_eqI [rotated]) simp
  ultimately show "relay_wf tfd (conns_erase fd r)"
    using assms(1) unfolding conns_erase_eq [OF assms(1,2)] relay_wf_def by (auto simp: distinct_map_filter)
  show "k_epoll (conns_erase fd r) = remove1 fd (k_epoll r)" by (simp add: conns_erase_eq [OF assms(1,2)])
qed

lemma unregister_wf:
  assumes "relay_wf tfd r"
  shows "relay_wf tfd (r\<lparr>k_epoll := remove1 fd (k_epoll r)\<rparr>)"
  using assms set_remove1_subset [of fd "k_epoll r"] unfolding relay_wf_def by auto

lemma set_buffer_wf:
  assumes "relay_wf tfd r" "map_of (heap r) a = Some c" "length buf = kDataLen"
  shows "\<exists>r'. set_buffer a buf r = Some r' \<and> r' = r\<lparr>heap := heap r'\<rparr> \<and> relay_wf tfd r'"
proof -
  let ?h = "node_set a (c\<lparr>cn_buffer := buf\<rparr>) (heap r)"
  have m: "map_of ?h b = (if b = a then Some (c\<lparr>cn_buffer := buf\<rparr>) else map_of (heap r) b)" for b
    using assms(2) by (simp add: map_of_node_set)
  have "dom (map_of ?h) = dom (map_of (heap r))" using assms(2) by (auto simp: map_of_node_set dom_def)
  moreover have "\<exists>d. map_of ?h (snd x) = Some d \<and> relay_obj tfd (fst x) d" if "x \<in> set (conns r)" for x
  proof -
    have "\<exists>d. map_of (heap r) (snd x) = Some d \<and> relay_obj tfd (fst x) d" using assms(1) that by (simp add: relay_wf_def)
    then obtain d where d: "map_of (heap r) (snd x) = Some d" "relay_obj tfd (fst x) d" by blast
    then have "relay_obj tfd (fst x) (d\<lparr>cn_buffer := buf\<rparr>)" using assms(3) by (auto simp: relay_obj_def split: if_splits)
    then show ?thesis using d assms(2) by (cases "snd x = a") (simp_all add: map_of_node_set)
  qed
  ultimately have "relay_wf tfd (r\<lparr>heap := ?h\<rparr>)" using assms(1) unfolding relay_wf_def by simp
  then show ?thesis using assms(2) by (simp add: set_buffer_def)
qed

lemma Decrypt_total:
  assumes "length s = kDataLen"
  shows "\<exists>ok s' d. Decrypt s kDataSize = Some (ok, s', d) \<and> length s' = kDataLen"
proof -
  have len: "length s = 16" using assms by (simp add: kDataLen_def)
  obtain k where k: "rd s 3 = Some k" using len by (simp add: rd_Some)
  have "xor_loop s 4 k = Some (masked k s)" "length (masked k s) = 16" using xor_loop_masked [OF len] len by simp_all
  then show ?thesis using len k
    by (cases "take 3 (masked k s) = SECRET")
       (auto simp: Decrypt_def SECRET_LEN_def kDataLen_def kDataSize_def rd_range_def)
qed

lemma handle_message_wf:
  assumes "relay_wf tfd r" "(fd, a) \<in> set (conns r)" "map_of (heap r) a = Some c" "length (cn_buffer c) = kDataLen"
    "fd \<noteq> tfd"
  shows "\<exists>r'. handle_message flt got fd r = Some r' \<and> relay_wf tfd r' \<and> set (k_epoll r) - {fd} \<subseteq> set (k_epoll r')"
proof -
  define g where "g = take (length (cn_buffer c)) got"
  define buf where "buf = g @ drop (length g) (cn_buffer c)"
  have "length buf = kDataLen" using assms(4) by (simp add: buf_def g_def)
  then obtain ok buf' d where d: "Decrypt buf kDataSize = Some (ok, buf', d)" "length buf' = kDataLen"
    using Decrypt_total by blast
  obtain r1 where r1: "set_buffer a buf' r = Some r1" "r1 = r\<lparr>heap := heap r1\<rparr>" "relay_wf tfd r1"
    using set_buffer_wf [OF assms(1,3) d(2)] by blast
  have c1: "conns r1 = conns r" "k_epoll r1 = k_epoll r" "rl_pipe r1 = rl_pipe r" by (subst r1(2), simp)+
  have m: "map_of (conns r) fd = Some a" using assms(1,2) by (simp add: relay_wf_def)
  have eq: "handle_message flt got fd r =
      (if \<not> ok then Some (conns_erase fd r1)
       else if flt \<noteq> None \<and> \<not> the flt (RetrieveTopic (d_b (Data_of_bytes d))) then Some r1
       else Some ((if length (rl_pipe r) < 128 then r1\<lparr>rl_pipe := rl_pipe r @ Data_bytes (Data_of_bytes d)\<rparr> else r1)\<lparr>rl_state := READY_R\<rparr>))"
    using m assms(3) d(1) r1(1) c1(3) by (simp add: handle_message_def g_def buf_def Let_def)
  show ?thesis
  proof (cases ok)
    case False
    have "relay_wf tfd (conns_erase fd r1)" "k_epoll (conns_erase fd r1) = remove1 fd (k_epoll r)"
      using conns_erase_wf [OF r1(3), of fd a] assms(2,5) c1 by auto
    moreover have "distinct (k_epoll r)" using assms(1) by (simp add: relay_wf_def)
    ultimately show ?thesis using False eq by auto
  next
    case True
    have "12 dvd length (rl_pipe r) \<Longrightarrow> length (rl_pipe r) < 128 \<Longrightarrow> length (rl_pipe r) \<le> 120" by (auto elim!: dvdE)
    then have "relay_wf tfd ((if length (rl_pipe r) < 128 then r1\<lparr>rl_pipe := rl_pipe r @ Data_bytes (Data_of_bytes d)\<rparr> else r1)\<lparr>rl_state := READY_R\<rparr>)"
      using r1(3) c1(3) unfolding relay_wf_def by (simp add: Data_bytes_def)
    then show ?thesis using True eq r1(3) c1(2) by auto
  qed
qed

lemma handle_connection_wf:
  assumes "relay_wf tfd r"
  shows "\<exists>r'. handle_connection ok r = Some r' \<and> relay_wf tfd r' \<and> set (k_epoll r) \<subseteq> set (k_epoll r')"
proof (cases ok)
  case False
  then show ?thesis using assms by (simp add: handle_connection_def sys_accept_def)
next
  case True
  define sock where "sock = new_fd r"
  define a where "a = heap_next r"
  define c :: "rcb Connection" where
    "c = \<lparr>cn_fd = sock, cn_recv = Some HandleMessage, cn_send = None, cn_close = Some RelayClosed, cn_buffer = replicate kDataLen 0\<rparr>"
  define r' where "r' = r\<lparr>k_open := sock # k_open r, k_epoll := sock # k_epoll r, heap := heap r @ [(a, c)],
    heap_next := Suc a, conns := (sock, a) # conns r\<rparr>"
  have w: "fst ` set (conns r) \<subseteq> set (k_open r)" "set (k_epoll r) \<subseteq> fst ` set (conns r) - {tfd}"
    "snd ` set (conns r) \<subseteq> {..<a}" "dom (map_of (heap r)) = snd ` set (conns r)" "-1 \<notin> set (k_open r)"
    using assms by (simp_all add: relay_wf_def a_def)
  have s: "sock \<noteq> -1" "sock \<notin> set (k_open r)" "sock \<notin> set (k_epoll r)" "sock \<notin> fst ` set (conns r)"
    using new_fd_fresh [of r] w(1,2) by (auto simp: sock_def dest!: subsetD)
  have na: "map_of (heap r) a = None" using w(3,4) by (metis domIff lessThan_iff less_irrefl subsetD)
  then have ns: "node_set a y (heap r @ [(a, x)]) = heap r @ [(a, y)]" for x y
    by (force simp: node_set_def map_of_eq_None_iff intro!: map_idI)
  have eq: "handle_connection ok r = Some r'"
    using True s
    by (simp add: handle_connection_def sys_accept_def sys_open_def make_connection_def epollRegister_def set_buffer_def
        registerCallback_def map_of_append_fresh na ns sock_def [symmetric] a_def [symmetric] r'_def c_def Connection_new_def Let_def)
  have m: "map_of (heap r') b = (if b = a then Some c else map_of (heap r) b)" for b
    using na by (simp add: r'_def map_of_append_fresh)
  have "tfd \<noteq> sock" using assms s(4) by (auto simp: relay_wf_def)
  then have ro: "relay_obj tfd sock c" by (simp add: relay_obj_def c_def)
  have "dom (map_of (heap r')) = snd ` set (conns r')" using w(4) by (auto simp: m dom_def r'_def)
  moreover have "\<forall>x \<in> set (conns r'). \<exists>d. map_of (heap r') (snd x) = Some d \<and> relay_obj tfd (fst x) d"
    using assms w(3) ro unfolding m by (auto simp: r'_def relay_wf_def)
  moreover have "a \<notin> snd ` set (conns r)" using w(3) by auto
  ultimately have "relay_wf tfd r'" using assms s w \<open>tfd \<noteq> sock\<close> unfolding relay_wf_def by (auto simp: r'_def a_def)
  then show ?thesis using eq by (auto simp: r'_def)
qed

lemma relay_event_wf:
  assumes "relay_wf tfd r" "re_fd ev \<in> set (k_epoll r)"
  shows "\<exists>r'. relay_event flt ev r = Some r' \<and> relay_wf tfd r' \<and> set (k_epoll r) - {re_fd ev} \<subseteq> set (k_epoll r')"
proof -
  let ?fd = "re_fd ev"
  have w: "distinct (map fst (conns r))" "distinct (k_epoll r)" "set (k_epoll r) \<subseteq> fst ` set (conns r) - {tfd}"
    "\<forall>x \<in> set (conns r). \<exists>c. map_of (heap r) (snd x) = Some c \<and> relay_obj tfd (fst x) c" "fst ` set (conns r) \<subseteq> set (k_open r)"
    using assms(1) by (simp_all add: relay_wf_def)
  have "?fd \<in> fst ` set (conns r) - {tfd}" using w(3) assms(2) by (rule subsetD)
  then obtain a where a: "(?fd, a) \<in> set (conns r)" and nt: "?fd \<noteq> tfd" by auto
  then obtain c where c: "map_of (heap r) a = Some c" "relay_obj tfd ?fd c" using w(4) by fastforce
  have op: "?fd \<in> set (k_open r)" using w(5) a by (metis fst_conv image_eqI subsetD)
  have m: "map_of (conns r) ?fd = Some a" using w(1) a by simp
  note defs = relay_event_def m eventTrigger_def c(1) relay_call_def
  let ?u = "r\<lparr>k_epoll := remove1 ?fd (k_epoll r)\<rparr>"
  have fd: "cn_fd c = ?fd" using c(2) by (simp add: relay_obj_def)
  have un: "snd (epollUnregister ?fd r) = ?u" using op by (rule epollUnregister_eq)
  have uw: "relay_wf tfd ?u" "set (k_epoll r) - {?fd} \<subseteq> set (k_epoll ?u)" using unregister_wf [OF assms(1)] w(2) by auto
  consider (hup) "re_events ev AND EPOLLRDHUP \<noteq> 0" | (input) "re_events ev AND EPOLLRDHUP = 0" "re_events ev AND EPOLLIN \<noteq> 0"
    | (none) "re_events ev AND EPOLLRDHUP = 0" "re_events ev AND EPOLLIN = 0" by blast
  then show ?thesis
  proof cases
    case hup
    show ?thesis
    proof (cases "cn_close c")
      case None
      then show ?thesis using hup uw by (simp add: defs fd un)
    next
      case (Some cb)
      then have "cb = RelayClosed" using c(2) nt by (auto simp: relay_obj_def)
      moreover have "relay_wf tfd (conns_erase ?fd ?u)" "k_epoll (conns_erase ?fd ?u) = remove1 ?fd (remove1 ?fd (k_epoll r))"
        using conns_erase_wf [OF uw(1), of ?fd a] a nt by auto
      ultimately show ?thesis using hup Some w(2) by (auto simp: defs fd un)
    qed
  next
    case input
    show ?thesis
    proof (cases "cn_recv c = Some HandleConnection")
      case True
      then show ?thesis using input handle_connection_wf [OF assms(1), of "re_accept ev"] by (auto simp: defs)
    next
      case False
      then have "cn_recv c = Some HandleMessage" "length (cn_buffer c) = kDataLen" using c(2) nt by (auto simp: relay_obj_def)
      then show ?thesis using input handle_message_wf [OF assms(1) a c(1) _ nt, of flt "re_got ev"] fd by (simp add: defs)
    qed
  next
    case none
    then show ?thesis using assms(1) by (auto simp: defs)
  qed
qed

lemma relay_events_wf:
  assumes "relay_wf tfd r" "distinct (map re_fd evs)" "re_fd ` set evs \<subseteq> set (k_epoll r)"
  shows "\<exists>r'. relay_events flt evs r = Some r' \<and> relay_wf tfd r'"
  using assms
proof (induction evs arbitrary: r)
  case (Cons ev evs)
  obtain r1 where r1: "relay_event flt ev r = Some r1" "relay_wf tfd r1" "set (k_epoll r) - {re_fd ev} \<subseteq> set (k_epoll r1)"
    using relay_event_wf [OF Cons.prems(1), of ev flt] Cons.prems(3) by auto
  have "re_fd ` set evs \<subseteq> set (k_epoll r) - {re_fd ev}" using Cons.prems(2,3) by (auto simp: image_iff)
  then have "re_fd ` set evs \<subseteq> set (k_epoll r1)" using r1(3) by blast
  then show ?case using Cons.IH [OF r1(2)] Cons.prems(2) r1(1) by simp
qed simp

text \<open>Every wait reports registered descriptors, each once.\<close>

fun relay_reported :: "(u8 list \<Rightarrow> bool) option \<Rightarrow> relay_wait list \<Rightarrow> Relay \<Rightarrow> bool" where
  "relay_reported flt [] r = True"
| "relay_reported flt (RelayEvents evs # ws) r =
     (distinct (map re_fd evs) \<and> re_fd ` set evs \<subseteq> set (k_epoll r) \<and>
      (case relay_events flt evs r of None \<Rightarrow> True | Some r' \<Rightarrow> relay_reported flt ws r'))"
| "relay_reported flt (_ # ws) r = relay_reported flt ws r"

text \<open>C13. The relay never meets a null pointer or an undefined step, keeps its map, heap and descriptors consistent
  and its pipe at no more than eleven whole records, whatever its peers send; and it never quits: the
  terminator is not registered, so only a failing wait ends its loop.\<close>

theorem relay_never_quits:
  assumes "relay_wf tfd r" "relay_reported flt ws r"
  shows "\<exists>r'. relay_rounds flt ws r = Some (RelayWaitFailed \<in> set ws, r') \<and> relay_wf tfd r'"
  using assms
proof (induction ws arbitrary: r)
  case Nil
  then show ?case by (simp add: relay_wf_def)
next
  case (Cons w ws)
  have q: "rl_state r \<noteq> QUIT_R" using Cons.prems(1) by (simp add: relay_wf_def)
  show ?case
  proof (cases w)
    case (RelayEvents evs)
    then obtain r1 where r1: "relay_events flt evs r = Some r1" "relay_wf tfd r1"
      using relay_events_wf [OF Cons.prems(1), of evs flt] Cons.prems(2) by auto
    from Cons.IH [OF r1(2)] Cons.prems(2) RelayEvents r1(1) q show ?thesis by simp
  next
    case RelayInterrupted
    then show ?thesis using Cons.IH [OF Cons.prems(1)] Cons.prems(2) q by simp
  next
    case RelayWaitFailed
    then show ?thesis using Cons.prems(1) q by simp
  qed
qed

definition sample_relay :: Relay where
  "sample_relay = (case relay_start 4 3 (Relay_init [0, 1, 2, 3, 4]) of None \<Rightarrow> Relay_init [] | Some r \<Rightarrow> r)"

lemma sample_relay_eq:
  "sample_relay =
     \<lparr>k_open = [0, 1, 2, 3, 4], k_epoll = [4], k_closed = [], k_broken = [], k_sent = [], k_written = [],
      heap = [(0, \<lparr>cn_fd = 4, cn_recv = Some HandleConnection, cn_send = None, cn_close = None, cn_buffer = []\<rparr>),
              (1, \<lparr>cn_fd = 3, cn_recv = Some RelayQuit, cn_send = None, cn_close = None, cn_buffer = []\<rparr>)],
      heap_next = 2, conns = [(3, 1), (4, 0)], rl_state = WAIT_R, rl_pipe = []\<rparr>"
  by (simp add: sample_relay_def relay_start_def Relay_init_def make_connection_def epollRegister_def registerCallback_def
      node_set_def Connection_new_def)

theorem relay_never_quits_witness:
  "\<exists>r'. relay_rounds None
     [RelayEvents [\<lparr>re_fd = 4, re_events = EPOLLIN, re_accept = True, re_got = []\<rparr>], RelayInterrupted] sample_relay = Some (False, r') \<and>
     relay_wf 3 r'"
proof -
  let ?ws = "[RelayEvents [\<lparr>re_fd = 4, re_events = EPOLLIN, re_accept = True, re_got = []\<rparr>], RelayInterrupted]"
  have w: "relay_wf 3 sample_relay"
    by (auto simp: relay_wf_def sample_relay_eq relay_obj_def)
  moreover have "relay_reported None ?ws sample_relay"
    by (simp add: sample_relay_eq split: option.split)
  ultimately show ?thesis using relay_never_quits [of 3 sample_relay None ?ws] by simp
qed

section \<open>Topics and subscribers\<close>

lemma topic_at_set [simp]: "topic_at t (topic_set t' ts tab) = (if t = t' then ts else topic_at t tab)"
proof -
  have "map_of (filter (\<lambda>x. fst x \<noteq> t') tab) t = (if t = t' then None else map_of tab t)"
    by (induction tab) auto
  then show ?thesis by (simp add: topic_at_def topic_set_def)
qed

lemma topic_at_Nil [simp]: "topic_at t [] = []"
  by (simp add: topic_at_def)

lemma topic_at_subscribe:
  "topic_at t (topic_subscribe ts task tab) = topic_at t tab @ replicate (count_list ts t) task"
  by (induction ts arbitrary: tab) (auto simp: topic_subscribe_def replicate_append_same [symmetric])

lemma topic_at_publish:
  "topic_at t (topic_publish accepts topic tab) = (if t = topic then filter accepts (topic_at t tab) else topic_at t tab)"
  by (simp add: topic_publish_def)

text \<open>A new key is subscribed to each of its topics; a known key changes nothing.\<close>

lemma Register_topics:
  "topic_at t (manager (Notifier_Register key topics n)) =
     topic_at t (manager n) @
     (if key \<in> fst ` set (subscriber n) then [] else replicate (count_list topics t) (next_task n))"
  by (simp add: Notifier_Register_def Let_def topic_at_subscribe)

lemma notifier_round_delivers:
  assumes "load buf i2s_buf x = Some out" "flight n = None"
  shows "\<exists>n'. notifier_round buf i2s_buf accepts x n = Some n' \<and> flight n' = None \<and>
    delivered n' = delivered n @ map (\<lambda>t. (t, out_payload out)) (topic_at (out_topic out) (manager n)) \<and>
    manager n' = (if topic_at (out_topic out) (manager n) = [] then manager n
      else if filter accepts (topic_at (out_topic out) (manager n)) = [] then topic_set (out_topic out) [] (manager n)
      else topic_set (out_topic out) (filter accepts (topic_at (out_topic out) (manager n))) (topic_set (out_topic out) [] (manager n)))"
  using assms
  by (auto simp: notifier_round_def notifier_take_def notifier_publish_def notifier_restore_def Let_def)

text \<open>C18. One turn of the notifier on a record that can be formatted: the functions subscribed to the record's topic
  are called in their order, each once per subscription, with the text of the record; those that answer true
  stay subscribed in the same order, the others are gone; no other topic changes, and nothing is left in
  flight.\<close>

theorem notifier_delivers:
  assumes "load buf i2s_buf x = Some out" "flight n = None"
  shows "\<exists>n'. notifier_round buf i2s_buf accepts x n = Some n' \<and> flight n' = None \<and>
    delivered n' = delivered n @ map (\<lambda>t. (t, out_payload out)) (topic_at (out_topic out) (manager n)) \<and>
    (\<forall>topic. topic_at topic (manager n') =
       (if topic = out_topic out then filter accepts (topic_at topic (manager n)) else topic_at topic (manager n)))"
  using notifier_round_delivers [OF assms, of accepts] by fastforce

theorem notifier_delivers_witness:
  "let n = Notifier_Register 5 [fmt_d 7, fmt_d 8] (Notifier_Register 4 [fmt_d 7] Notifier_new);
       out = load (replicate 64 0) (replicate 16 0) \<lparr>d_a = 3, d_b = push_bit 48 7\<rparr> in
   out \<noteq> None \<and>
   (\<exists>n'. notifier_round (replicate 64 0) (replicate 16 0) (\<lambda>t. t = 1) \<lparr>d_a = 3, d_b = push_bit 48 7\<rparr> n = Some n' \<and>
      delivered n' = [(0, out_payload (the out)), (1, out_payload (the out))] \<and> topic_at (fmt_d 7) (manager n') = [1])"
proof -
  let ?n = "Notifier_Register 5 [fmt_d 7, fmt_d 8] (Notifier_Register 4 [fmt_d 7] Notifier_new)"
  let ?i = "\<lparr>in_error = 0, in_ip = 7, in_weight = 0, in_block = 0, in_serial = 3\<rparr>"
  let ?x = "\<lparr>d_a = 3, d_b = push_bit 48 7\<rparr>"
  have x: "Encode ?i = ?x" by (simp add: Encode_def Let_def IP_OFFSET_def ERROR_OFFSET_def WEIGHT_OFFSET_def)
  have "length (fmt_d 3) = 1" "length (fmt_d 7) = 1" "length (fmt_int 0) = 1" "length (fmt_d 0) = 1"
    by (simp_all add: fmt_d.simps fmt_int_def)
  then obtain out where out: "load (replicate 64 0) (replicate 16 0) ?x = Some out" and topic: "out_topic out = fmt_d 7"
    using load_fits [of "replicate 64 0" "replicate 16 0" ?i thesis] unfolding x by auto
  have "topic_at (fmt_d 7) (manager ?n) = [0, 1]" "fmt_d 7 \<noteq> fmt_d 8" "flight ?n = None" "delivered ?n = []"
    by (simp_all add: Notifier_Register_def Notifier_new_def topic_at_subscribe fmt_d.simps)
  then show ?thesis
    using notifier_delivers [OF out, of ?n "\<lambda>t. t = 1"] topic out by (auto simp: Let_def)
qed
definition sample_peer :: Relay where
  "sample_peer = (case handle_connection True sample_relay of None \<Rightarrow> Relay_init [] | Some r \<Rightarrow> r)"

lemma sample_peer_eq:
  "map_of (conns sample_peer) 5 = Some 2" "rl_pipe sample_peer = []"
  "map_of (heap sample_peer) 2 = Some \<lparr>cn_fd = 5, cn_recv = Some HandleMessage, cn_send = None, cn_close = Some RelayClosed,
     cn_buffer = replicate kDataLen 0\<rparr>"
  by (simp_all add: sample_peer_def sample_relay_eq handle_connection_def sys_accept_def new_fd_def sys_open_def
      make_connection_def epollRegister_def registerCallback_def set_buffer_def node_set_def Connection_new_def Let_def)
text \<open>A record that arrives whole reaches the pipe exactly when the filter lets its topic pass and the pipe has
  fewer than 128 bytes.\<close>

lemma handle_message_record:
  assumes "map_of (conns r) fd = Some a" "map_of (heap r) a = Some c" "length (cn_buffer c) = kDataLen"
    "Encrypt m (Data_bytes x) kDataSize = Some p"
  shows "\<exists>r'. handle_message flt p fd r = Some r' \<and> conns r' = conns r \<and> rl_pipe r' = rl_pipe r @
    (if (flt = None \<or> the flt (RetrieveTopic (d_b x))) \<and> length (rl_pipe r) < 128 then Data_bytes x else [])"
proof -
  have len: "length (Data_bytes x) = 12" by (simp add: Data_bytes_def)
  have p: "p = masked m (SECRET @ m # Data_bytes x)"
    using assms(4) Encrypt_masked [OF len, of m] by (simp add: kDataSize_def)
  have "length p = 16" using len by (simp add: p SECRET_bytes)
  then have "Decrypt (take (length (cn_buffer c)) p @ drop (length (take (length (cn_buffer c)) p)) (cn_buffer c)) kDataSize =
      Some (True, SECRET @ m # Data_bytes x, Data_bytes x)"
    using assms(3) Decrypt_masked [OF len, of m] by (simp add: p kDataSize_def kDataLen_def)
  then show ?thesis using assms(1,2)
    by (simp add: handle_message_def set_buffer_def Data_of_bytes_Data_bytes Let_def)
qed

text \<open>C37. While a record of a topic is being published, the topic has no subscribers in the table: a record of the
  same topic that arrives in this window is dropped by the relay's filter, although before the window it would
  have been written to the pipe and the same subscribers are back after it.\<close>

theorem publish_window_drops:
  assumes "map_of (conns r) fd = Some a" "map_of (heap r) a = Some c" "length (cn_buffer c) = kDataLen"
    "Encrypt m (Data_bytes x) kDataSize = Some p" "length (rl_pipe r) < 128"
    "load buf i2s_buf y = Some out" "out_topic out = RetrieveTopic (d_b x)" "flight n = None"
    "has_subscriber (RetrieveTopic (d_b x)) n" "notifier_take buf i2s_buf y n = Some n1"
  shows "\<exists>before during. handle_message (Some (\<lambda>t. has_subscriber t n)) p fd r = Some before \<and>
    rl_pipe before = rl_pipe r @ Data_bytes x \<and>
    handle_message (Some (\<lambda>t. has_subscriber t n1)) p fd r = Some during \<and> rl_pipe during = rl_pipe r \<and>
    topic_at (RetrieveTopic (d_b x)) (manager (notifier_restore (notifier_publish (\<lambda>_. True) n1))) =
      topic_at (RetrieveTopic (d_b x)) (manager n)"
proof -
  let ?t = "RetrieveTopic (d_b x)"
  have n1: "\<not> has_subscriber ?t n1" using assms(6,7,9,10) by (auto simp: notifier_take_def has_subscriber_def Let_def)
  have "notifier_round buf i2s_buf (\<lambda>_. True) y n = Some (notifier_restore (notifier_publish (\<lambda>_. True) n1))"
    using assms(10) by (simp add: notifier_round_def)
  then have "topic_at ?t (manager (notifier_restore (notifier_publish (\<lambda>_. True) n1))) = topic_at ?t (manager n)"
    using assms(6-10) by (auto simp: notifier_take_def has_subscriber_def notifier_publish_def notifier_restore_def Let_def)
  then show ?thesis
    using handle_message_record [OF assms(1-4), of "Some (\<lambda>t. has_subscriber t n)"]
      handle_message_record [OF assms(1-4), of "Some (\<lambda>t. has_subscriber t n1)"] assms(5,9) n1 by auto
qed

theorem publish_window_drops_witness:
  "\<exists>x p n1 before during. Encrypt 9 (Data_bytes x) kDataSize = Some p \<and>
     notifier_take (replicate 64 0) (replicate 16 0) x (Notifier_Register 4 [fmt_d 7] Notifier_new) = Some n1 \<and>
     handle_message (Some (\<lambda>t. has_subscriber t (Notifier_Register 4 [fmt_d 7] Notifier_new))) p 5 sample_peer = Some before \<and>
     rl_pipe before = Data_bytes x \<and>
     handle_message (Some (\<lambda>t. has_subscriber t n1)) p 5 sample_peer = Some during \<and> rl_pipe during = []"
proof -
  let ?n = "Notifier_Register 4 [fmt_d 7] Notifier_new"
  let ?i = "\<lparr>in_error = 0, in_ip = 7, in_weight = 0, in_block = 0, in_serial = 3\<rparr>"
  let ?x = "Encode ?i"
  have "length (fmt_d 3) = 1" "length (fmt_d 7) = 1" "length (fmt_int 0) = 1"
    by (simp_all add: fmt_d.simps fmt_int_def)
  then obtain out where out: "load (replicate 64 0) (replicate 16 0) ?x = Some out" "out_topic out = fmt_d 7"
    using load_fits [of "replicate 64 0" "replicate 16 0" ?i thesis] by auto
  have topic: "RetrieveTopic (d_b ?x) = fmt_d 7" by (simp add: RetrieveTopic_def IP_OFFSET_def Encode_fields)
  obtain p where p: "Encrypt 9 (Data_bytes ?x) kDataSize = Some p"
    using Encrypt_masked [of "Data_bytes ?x" 9] by (auto simp: Data_bytes_def kDataSize_def)
  obtain n1 where n1: "notifier_take (replicate 64 0) (replicate 16 0) ?x ?n = Some n1"
    using out(1) by (simp add: notifier_take_def Let_def)
  have n: "flight ?n = None" "has_subscriber (fmt_d 7) ?n"
    by (simp_all add: Notifier_Register_def Notifier_new_def has_subscriber_def topic_at_subscribe)
  have "\<exists>before during. handle_message (Some (\<lambda>t. has_subscriber t ?n)) p 5 sample_peer = Some before \<and>
      rl_pipe before = rl_pipe sample_peer @ Data_bytes ?x \<and>
      handle_message (Some (\<lambda>t. has_subscriber t n1)) p 5 sample_peer = Some during \<and> rl_pipe during = rl_pipe sample_peer"
    using publish_window_drops [OF sample_peer_eq(1,3) _ p _ out(1) _ n(1) _ n1] n(2) out(2)
    by (auto simp: topic sample_peer_eq(2))
  with p n1 show ?thesis unfolding sample_peer_eq(2) append_Nil by blast
qed

section \<open>Topics in an address\<close>

text \<open>The query of an address with its pairs of keys and values.\<close>

fun query :: "(u8 list \<times> u8 list) list \<Rightarrow> u8 list" where
  "query [] = []"
| "query [(k, v)] = k @ 61 # v"
| "query ((k, v) # kvs) = k @ 61 # v @ 38 # query kvs"

definition pair_ok :: "u8 list \<times> u8 list \<Rightarrow> bool" where
  "pair_ok p \<longleftrightarrow> fst p \<noteq> [] \<and> length (fst p) < 16 \<and> 0 \<notin> set (fst p) \<and> 61 \<notin> set (fst p) \<and>
     snd p \<noteq> [] \<and> length (snd p) < 16 \<and> 0 \<notin> set (snd p) \<and> 38 \<notin> set (snd p)"

lemma scan_pair_query:
  assumes "pair_ok (k, v)" "r = [] \<or> (\<exists>q. r = 38 # q)"
  shows "scan_pair (k @ 61 # v @ r) k0 v0 = Some (Some k, Some v, length k + 1 + length v)"
proof -
  have "takeWhile (\<lambda>b. b \<noteq> 38) (v @ r) = v"
    using assms by (auto simp: pair_ok_def takeWhile_stop takeWhile_all)
  then show ?thesis using assms(1) by (simp add: scan_pair_def takeWhile_stop pair_ok_def)
qed

lemma query_no_NUL: "\<forall>p \<in> set kvs. pair_ok p \<Longrightarrow> 0 \<notin> set (query kvs)"
  by (induction kvs rule: query.induct) (auto simp: pair_ok_def)

lemma parse_loop_step:
  assumes "i + 1 < length uri" "scan_pair (takeWhile (\<lambda>b. b \<noteq> 0) (drop (i + 1) uri)) k0 v0 = Some (Some k, Some v, n)"
    "parse_loop uri (i + 1 + n) (Some k) (Some v) = Some ts"
  shows "parse_loop uri i k0 v0 = Some (v # ts)"
  using assms by (subst parse_loop.simps) simp

lemma parse_loop_query:
  assumes "\<forall>p \<in> set kvs. pair_ok p"
  shows "parse_loop (pre @ c # query kvs) (length pre) k0 v0 = Some (map snd kvs)"
  using assms
proof (induction kvs arbitrary: pre c k0 v0 rule: query.induct)
  case 1
  show ?case by (subst parse_loop.simps) simp
next
  case (2 k v)
  let ?u = "pre @ c # query [(k, v)]"
  have z: "takeWhile (\<lambda>b. b \<noteq> 0) (drop (length pre + 1) ?u) = k @ 61 # v @ []"
    using takeWhile_all [OF query_no_NUL [OF 2]] by simp
  have "parse_loop ?u (length pre + 1 + (length k + 1 + length v)) (Some k) (Some v) = Some []"
    by (subst parse_loop.simps) simp
  moreover have "scan_pair (takeWhile (\<lambda>b. b \<noteq> 0) (drop (length pre + 1) ?u)) k0 v0 = Some (Some k, Some v, length k + 1 + length v)"
    unfolding z using 2 by (intro scan_pair_query) simp_all
  ultimately have "parse_loop ?u (length pre) k0 v0 = Some [v]"
    by (intro parse_loop_step [where n = "length k + 1 + length v" and k = k]) simp_all
  then show ?case by simp
next
  case (3 k v p kvs)
  let ?u = "pre @ c # query ((k, v) # p # kvs)"
  have z: "takeWhile (\<lambda>b. b \<noteq> 0) (drop (length pre + 1) ?u) = k @ 61 # v @ 38 # query (p # kvs)"
    using takeWhile_all [OF query_no_NUL [OF "3.prems"]] by simp
  have "parse_loop ((pre @ c # k @ 61 # v) @ 38 # query (p # kvs)) (length (pre @ c # k @ 61 # v)) (Some k) (Some v) =
      Some (map snd (p # kvs))" using "3.prems" by (intro "3.IH") simp
  then have "parse_loop ?u (length pre + 1 + (length k + 1 + length v)) (Some k) (Some v) = Some (map snd (p # kvs))"
    by simp
  moreover have "scan_pair (takeWhile (\<lambda>b. b \<noteq> 0) (drop (length pre + 1) ?u)) k0 v0 = Some (Some k, Some v, length k + 1 + length v)"
    unfolding z using "3.prems" by (intro scan_pair_query) simp_all
  ultimately have "parse_loop ?u (length pre) k0 v0 = Some (v # map snd (p # kvs))"
    by (intro parse_loop_step [where n = "length k + 1 + length v" and k = k]) simp_all
  then show ?case by simp
qed

text \<open>C36. The topics of an address are the values of its query, in their order, as long as every key and value
  has between 1 and 15 characters; an address without a query has none.\<close>

theorem parseTopic_query:
  assumes "63 \<notin> set base" "\<forall>p \<in> set kvs. pair_ok p"
  shows "parseTopic (base @ 63 # query kvs) = Some (map snd kvs) \<and> parseTopic base = Some []"
  using assms parse_loop_query [OF assms(2), of base 63 None None]
  by (simp add: parseTopic_def find_from_def takeWhile_stop)

theorem parseTopic_query_witness:
  "parseTopic (str ''ws://h?w1=182&w2=184'') = Some [str ''182'', str ''184'']"
  using parseTopic_query [of "str ''ws://h''" "[(str ''w1'', str ''182''), (str ''w2'', str ''184'')]"]
  by (simp add: pair_ok_def)

section \<open>Weights and random bytes\<close>

lemma find_from_append: "c \<notin> set b \<Longrightarrow> find_from c (length a) (a @ b @ c # r) = Some (length a + length b)"
  by (simp add: find_from_def takeWhile_stop)

text \<open>From the line of a record \<^verbatim>\<open>j2s\<close> cuts out the weight.\<close>

lemma j2s_weight:
  assumes "119 \<notin> set topic"
  shows "j2s (json_line serial topic weight block) = fmt_int weight"
proof -
  define a where "a = str ''{\"serial\":'' @ fmt_d (unat serial) @ str '',\"topic\":\"'' @ topic @ str ''\",\"''"
  define r where "r = str ''\"id\":\"'' @ block @ str ''\"}''"
  have l: "json_line serial topic weight block = a @ str ''weight\":'' @ fmt_int weight @ 44 # r"
    by (simp add: json_line_def a_def r_def)
  have "119 \<notin> set (fmt_d (unat serial))" using fmt_d_set(3) [of 119 "unat serial"] by auto
  then have d: "119 \<notin> set a" using assms by (simp add: a_def)
  have w: "44 \<notin> set (fmt_int weight)" using fmt_int_set [of 44 weight] by auto
  have k: "find_from 119 0 (json_line serial topic weight block) = Some (length a)"
    using d by (simp add: l find_from_def takeWhile_stop)
  have i: "find_from 58 (length a) (json_line serial topic weight block) = Some (length a + 7)"
    using find_from_append [of 58 "str ''weight\"''" a "fmt_int weight @ 44 # r"] by (simp add: l)
  have j: "find_from 44 (length a) (json_line serial topic weight block) = Some (length a + 8 + length (fmt_int weight))"
    using find_from_append [of 44 "str ''weight\":'' @ fmt_int weight" a r] w by (simp add: l)
  have "j2s (json_line serial topic weight block) =
      take (length (fmt_int weight)) (drop (length a + 8) (json_line serial topic weight block))"
    by (simp add: j2s_def k i j add.commute)
  then show ?thesis by (simp add: l)
qed

text \<open>With full reads the bytes are those of the file, in order.\<close>

lemma Fetch_stream:
  assumes "length (rr_buf r) = kBufferSize" "rr_i r \<le> kBufferSize" "\<forall>b \<in> set reads. length b = kBufferSize"
    "len \<le> length (drop (rr_i r) (rr_buf r) @ concat reads)"
  shows "\<exists>reads' r'. Fetch len reads r = Some (take len (drop (rr_i r) (rr_buf r) @ concat reads), reads', r') \<and>
    drop (rr_i r') (rr_buf r') @ concat reads' = drop len (drop (rr_i r) (rr_buf r) @ concat reads)"
  using assms
proof (induction len arbitrary: reads r)
  case 0
  then show ?case by simp
next
  case (Suc len)
  show ?case
  proof (cases "rr_i r < kBufferSize")
    case True
    let ?r = "r\<lparr>rr_i := rr_i r + 1\<rparr>"
    have d: "drop (rr_i r) (rr_buf r) = rr_buf r ! rr_i r # drop (rr_i ?r) (rr_buf ?r)"
      using True Suc.prems(1) by (simp add: Cons_nth_drop_Suc)
    then obtain reads' r' where "Fetch len reads ?r = Some (take len (drop (rr_i ?r) (rr_buf ?r) @ concat reads), reads', r')"
        "drop (rr_i r') (rr_buf r') @ concat reads' = drop len (drop (rr_i ?r) (rr_buf ?r) @ concat reads)"
      using Suc.IH [of ?r reads] Suc.prems True by auto
    then show ?thesis using d True Suc.prems(1) by (simp add: rd_def)
  next
    case False
    then have i: "rr_i r = kBufferSize" using Suc.prems(2) by simp
    then obtain b reads2 where reads: "reads = b # reads2" using Suc.prems(1,4) by (cases reads) auto
    have b: "length b = kBufferSize" using Suc.prems(3) reads by simp
    then obtain c cs where cs: "b = c # cs" by (cases b) (auto simp: kBufferSize_def)
    let ?r = "r\<lparr>rr_buf := b, rr_i := 1\<rparr>"
    obtain reads' r' where "Fetch len reads2 ?r = Some (take len (cs @ concat reads2), reads', r')"
        "drop (rr_i r') (rr_buf r') @ concat reads' = drop len (cs @ concat reads2)"
      using Suc.IH [of ?r reads2] Suc.prems b i by (auto simp: reads cs kBufferSize_def)
    then show ?thesis using i Suc.prems(1) b by (simp add: reads cs rd_def)
  qed
qed

end
