(* ===== verification/Spec2Isabelle.thy ===== *)
theory Spec2Isabelle
  imports NameCodec Base64 Buffers Bits Dns Arp Listener Telemetry SmallTools Coordinator Notifier
begin

text \<open>
  A verification library for the repository, a collection of C and C++ programs.  Paths below are under
  \<^verbatim>\<open>src/\<close>; definitions have the names of the code where HOL allows it.

  \<^bold>\<open>The programs and how they interact.\<close>
  \<^item> The \<^emph>\<open>monitor\<close> (\<^verbatim>\<open>socket/monitor\<close>) is a server with worker threads: \<^verbatim>\<open>Listener\<close> reads and writes the
    messages of \<^verbatim>\<open>message.h\<close>, hands requests to the task runner of \<^verbatim>\<open>runner.h\<close>, keeps a heartbeat with the timer
    runner, and drops a silent peer.  Its \<^verbatim>\<open>examples\<close> use the event loop \<^verbatim>\<open>Poll\<close>: the forwarder matches clients
    with follower processes, the coordinator passes connections to workers and drops dead ones.
  \<^item> The \<^emph>\<open>telemetry chain\<close>: sensors send readings to multicast groups; the collector (\<^verbatim>\<open>socket/collector.h\<close>)
    packs and masks them (\<^verbatim>\<open>socket/codec.h\<close>, \<^verbatim>\<open>socket/secure.h\<close>) and sends them over a connection
    (\<^verbatim>\<open>socket/network.h\<close>) to the relay (\<^verbatim>\<open>io/notifier.cpp\<close>), which unmasks them into a pipe; the notifier reads
    the pipe, formats the records and calls the subscribers.
  \<^item> \<^emph>\<open>Stand-alone tools\<close>: the DNS client and the ARP tool of \<^verbatim>\<open>socket\<close>, the family-name tool with its UTF-8
    coder, the Base64 coder, ring buffers, bit routines and small text tools.

  \<^bold>\<open>Conventions.\<close>  A C integer is a word of its width; a \<^verbatim>\<open>double\<close> that only measures time is a real number, one
  that is stored in a message its bit pattern.  A memory object is a list of bytes and a pointer into it an
  offset; \<^term>\<open>None\<close> is an access outside an object, the use of an uninitialized variable or of an erased
  node, an exception, or another step without a defined result, as the theories say.  A \<^verbatim>\<open>struct\<close> or class is
  a record, and a class that extends another or owns the event loop extends its record.  A callback is a value
  of a datatype that its client interprets.  What a system call answers is an argument (a record of answers, or
  one answer per event); the descriptors a process has open and registered are part of the state
  (\<^theory_text>\<open>record Kernel\<close> in \<^verbatim>\<open>Reactor\<close>).  A thread that blocks is given by the function of one round or one
  step, and the steps of several threads are interleaved by an inductive relation.

  \<^bold>\<open>Theories.\<close>
  \<^item> \<^verbatim>\<open>CPrelude\<close>: machine types, memory objects (\<open>rd\<close>, \<open>wr\<close>, \<open>rd_range\<close>, \<open>wr_range\<close>), C strings, byte views of
    words; the locales \<open>byte_codec\<close> and \<open>codec_loop\<close> (a stream of encoded items is read back) and \<open>ring_index\<close>
    (cyclic indices).  \<^verbatim>\<open>Libc\<close>: the library functions the programs call, \<^verbatim>\<open>bsearch\<close> and \<^verbatim>\<open>qsort\<close> under the
    locale \<open>key_compare\<close>, \<^verbatim>\<open>sprintf\<close>, numbers to and from text with their round trip, byte order.
  \<^item> \<^verbatim>\<open>Utf8\<close>, \<^verbatim>\<open>NameCodec\<close> (\<^verbatim>\<open>trivial/name_codec.c\<close>): encoder and decoder are inverse below \<^verbatim>\<open>2^21\<close>, the inputs the
    decoder accepts are characterised, streams are read back (\<open>codec_loop\<close>); the tables are inverse and \<^verbatim>\<open>main\<close>
    is described on every input.
  \<^item> \<^verbatim>\<open>Base64\<close> (\<^verbatim>\<open>codec/base64.c\<close>): the encoder equals a reference on bit strings and the decoder inverts it.
  \<^item> \<^verbatim>\<open>Buffers\<close> (\<^verbatim>\<open>trivial/ring_buffer.c\<close>, \<^verbatim>\<open>trivial/cmd-buffer.c\<close>): the weight window keeps the last weights; the
    command buffer refines a queue with limited room (locale \<open>fifo_queue\<close>).
  \<^item> \<^verbatim>\<open>Bits\<close>, \<^verbatim>\<open>SmallTools\<close> (\<^verbatim>\<open>builtin\<close>, \<^verbatim>\<open>num\<close>, \<^verbatim>\<open>string\<close>, \<^verbatim>\<open>trivial\<close>, \<^verbatim>\<open>codec/clip_varchar.c\<close>): bit counts, printers,
    tree index, majority vote, decoders of names, columns and declarations.
  \<^item> \<^verbatim>\<open>Dns\<close> (\<^verbatim>\<open>socket/dns-demo.c\<close>): the query packet; the two name encoders and the two name readers agree; reading
    a well-formed compressed name ends; the addresses printed are those of the reply.  \<^verbatim>\<open>Arp\<close>
    (\<^verbatim>\<open>socket/arp-demo.c\<close>): the frame sent, and that the tool completes when a reply comes.
  \<^item> \<^verbatim>\<open>Message\<close>, \<^verbatim>\<open>Runner\<close>, \<^verbatim>\<open>Listener\<close>, \<^verbatim>\<open>MonitorUtil\<close> (\<^verbatim>\<open>socket/monitor\<close>): messages and framed streams are read
    back; no task is lost or run twice under any interleaving; the timer runs exactly the due tasks; the
    listener's connection invariant over all interleavings; a silent peer is dropped; the string copy by words
    equals the byte-wise one.
  \<^item> \<^verbatim>\<open>Reactor\<close>, \<^verbatim>\<open>Forwarder\<close>, \<^verbatim>\<open>Coordinator\<close> (\<^verbatim>\<open>socket/monitor\<close> and its \<^verbatim>\<open>examples\<close>): the event loop with the locale
    \<open>reactor_client\<close> (a client whose callbacks keep its invariant keeps it in every run), interpreted by the
    forwarder; ownership of descriptors, matching of clients and followers, the exact callbacks that fault; a
    silent worker is dropped by the wheel.
  \<^item> \<^verbatim>\<open>Telemetry\<close>, \<^verbatim>\<open>Network\<close>, \<^verbatim>\<open>Collector\<close>, \<^verbatim>\<open>Notifier\<close>: records and their masking; connections as objects with
    reference counts, the multicast group and the TCP server; the collector with its two threads and its
    reconnection; topics, notifier and relay.  Payloads are sent exactly once and in order; the collector is
    always connected or retrying and reconnects; the relay and the server keep their objects consistent for any
    input, and the same theorems show that they never end and that the server never closes a descriptor; one
    turn of the notifier calls exactly the subscribers of the topic.
  \<^item> This theory composes the telemetry chain: \<open>telemetry_end_to_end\<close> follows a reading from its datagram to the
    subscribers.

  \<^bold>\<open>Bounds.\<close>  No definition has fuel that could run out: recursion is structural or has a termination proof, and
  the loops that need not end (\<^verbatim>\<open>read_name\<close> and \<^verbatim>\<open>ReadName\<close> of the DNS client on cyclic compression pointers, the
  receive loop of the ARP tool) are partial functions into \<^verbatim>\<open>option\<close>, whose termination on the inputs of interest
  is proved.  The consumer of the collector is run for \<^const>\<open>chan_size\<close> steps where \<^verbatim>\<open>quit\<close> joins it: every step that
  changes the channel makes this measure smaller, so it has come to rest by then.  An event loop is a function of
  the list of what its waits return, for every such list.

  \<^bold>\<open>Not modelled.\<close>  Log output and its macros (\<^verbatim>\<open>macro.h\<close>, \<^verbatim>\<open>socket/logger.cpp\<close>); the database connectors (\<^verbatim>\<open>db\<close>), which wrap
  a library outside the repository; inotify and netlink watchers (\<^verbatim>\<open>socket/monitor/file_watcher.cpp\<close>,
  \<^verbatim>\<open>proc_monitor.cpp\<close>); demonstrations that are sequences of system calls (\<^verbatim>\<open>pty\<close>, \<^verbatim>\<open>ptrace\<close>, \<^verbatim>\<open>process\<close>, \<^verbatim>\<open>signal\<close>, \<^verbatim>\<open>tty\<close>,
  \<^verbatim>\<open>multicast\<close>, parts of \<^verbatim>\<open>io\<close>); context switches and inline assembly (\<^verbatim>\<open>coroutine\<close>, \<^verbatim>\<open>gcc\<close>); timing experiments
  (\<^verbatim>\<open>design_pattern\<close>); and the single-file demonstrations of language features (\<^verbatim>\<open>class\<close>, \<^verbatim>\<open>feature\<close>, \<^verbatim>\<open>functional\<close>,
  \<^verbatim>\<open>meta\<close>, \<^verbatim>\<open>boost\<close>, \<^verbatim>\<open>library\<close> and most of \<^verbatim>\<open>trivial\<close>), which have no behaviour beyond what the compiler gives them.
  Data races are not modelled: every critical section and every access to a shared variable is one step.
\<close>

section \<open>From a sensor to the subscribers\<close>

text \<open>Formatting the record of a reading.\<close>

lemma load_reading:
  assumes "length buf = 64" "length i2s_buf = 16" "serial < 2 ^ 32" "- 32768 \<le> weight" "weight < 32768" "ip < 256"
    "length (fmt_d serial) + length (fmt_d ip) + length (fmt_int weight) < 16"
  shows "\<exists>ident. load buf i2s_buf (Encode (reading_input ip serial block weight)) =
    Some \<lparr>out_payload = json_line (of_nat serial) (fmt_d ip) weight ident, out_topic = fmt_d ip\<rparr>"
proof -
  let ?i = "reading_input ip serial block weight"
  have i: "unat (in_serial ?i) = serial" "unat (in_ip ?i) = ip" "in_error ?i = 0"
    using assms(3,6) by (simp_all add: reading_input_def unsigned_of_nat take_bit_nat_eq_self)
  have w: "sint (in_weight ?i) = weight"
    using assms(4,5) by (simp add: reading_input_def signed_of_int signed_take_bit_int_eq_self)
  have "length (fmt_d (unat (in_serial ?i))) + length (fmt_d (unat (in_ip ?i))) +
      length (fmt_int (if in_error ?i \<noteq> 0 then - 65535 else sint (in_weight ?i))) + (if in_block ?i = 0 then 4 else 8) < 24"
    using assms(7) unfolding i w by simp
  then obtain ident where "load buf i2s_buf (Encode ?i) = Some \<lparr>out_payload = record_line ?i ident, out_topic = fmt_d (unat (in_ip ?i))\<rparr>"
    using load_fits [OF assms(1,2), of ?i thesis] by auto
  moreover have "in_serial ?i = of_nat serial" by (simp add: reading_input_def)
  ultimately show ?thesis unfolding record_line_def i w by auto
qed

text \<open>Running the consumer after a message of the group sends the message's payload last.\<close>

lemma group_msg_sent:
  assumes "group_payload (ka_from ans) (ka_got ans) (ka_mask ans) = Some (text, p)" "paired c"
    "chan_reach ps (chan c)" "chan_ready (chan c)"
  shows "\<exists>c'. handle_group_msg ans c = Some c' \<and>
    last (ch_taken ((consume_step READY_C ^^ chan_size (chan c')) (chan c'))) = (p, True)"
proof -
  let ?ch = "chan_notify (chan_push p (chan c))"
  let ?d = "(consume_step READY_C ^^ chan_size ?ch) ?ch"
  obtain c' where c': "handle_group_msg ans c = Some c'" "chan c' = ?ch"
    using assms(1,2) by (simp add: handle_group_msg_def addPayload_def Let_def)
  have "chan_reach (ps @ [p]) ?ch" using assms(3,4)
    by (intro chan_reach.notify chan_reach.push) (simp_all add: chan_ready_def chan_push_def)
  moreover have "chan_ready ?ch" using assms(4) by (simp add: chan_ready_def chan_notify_def chan_push_def)
  ultimately have d: "map fst (ch_taken ?d) = ps @ [p]" "\<exists>qs. ch_taken ?d = ch_taken ?ch @ map (\<lambda>p. (p, True)) qs"
    by (rule consumer_delivers(3,4) [OF _ _ refl])+
  then obtain qs where qs: "ch_taken ?d = ch_taken (chan c) @ map (\<lambda>p. (p, True)) qs"
    by (auto simp: chan_notify_def chan_push_def)
  have "length (ch_taken (chan c)) \<le> length ps"
    using chan_reach_inv [OF assms(3)] by (auto simp: chan_inv_def)
  then have "qs \<noteq> []" using arg_cong [OF d(1), of length] qs by auto
  moreover from this have "last qs = p" using arg_cong [OF d(1), of last] by (simp add: qs last_map)
  ultimately show ?thesis using c' qs by (simp add: last_map)
qed

text \<open>C3. A reading travels from its datagram to the subscribers: the collector parses the datagram, packs and masks
  the record and its consumer sends it; the relay unmasks the bytes and writes the record to the pipe, since
  the topic has a subscriber; the notifier reads the pipe empty, formats the record and calls each subscriber
  of the sender's topic, in order, with the line that has the serial number, the topic and the weight of the
  reading.  It holds for every serial number, weight and block that fit their fields and the line, every
  mask, and whatever payloads went before.\<close>

theorem telemetry_end_to_end:
  assumes "serial < 2 ^ 32" "- (2 ^ 31) \<le> block" "block < 2 ^ 31" "- 32768 \<le> weight" "weight < 32768" "ip < 256"
    "length (fmt_d serial) + length (fmt_d ip) + length (fmt_int weight) < 16"
    "ka_from ans = pre @ 46 # fmt_d ip" "ka_got ans = reading serial block weight"
    "paired c" "chan_reach ps (chan c)" "chan_ready (chan c)"
    "map_of (conns r) fd = Some a" "map_of (heap r) a = Some conn" "length (cn_buffer conn) = kDataLen" "rl_pipe r = []"
    "has_subscriber (fmt_d ip) n" "flight n = None" "length buf = 64" "length i2s_buf = 16"
  shows "\<exists>c' p r' n' ident. handle_group_msg ans c = Some c' \<and>
    last (ch_taken ((consume_step READY_C ^^ chan_size (chan c')) (chan c'))) = (p, True) \<and>
    handle_message (Some (\<lambda>t. has_subscriber t n)) p fd r = Some r' \<and>
    Notifier_Run buf i2s_buf accepts False (rl_pipe r') n = Some (False, [], n') \<and>
    delivered n' = delivered n @
      map (\<lambda>t. (t, json_line (of_nat serial) (fmt_d ip) weight ident)) (topic_at (fmt_d ip) (manager n))"
proof -
  let ?x = "Encode (reading_input ip serial block weight)"
  obtain p where p: "group_payload (ka_from ans) (ka_got ans) (ka_mask ans) = Some (reading serial block weight, p)"
      "Encrypt (ka_mask ans) (Data_bytes ?x) kDataSize = Some p"
    using group_payload_record [OF assms(1-6)] assms(8,9) by metis
  obtain c' where c': "handle_group_msg ans c = Some c'"
      "last (ch_taken ((consume_step READY_C ^^ chan_size (chan c')) (chan c'))) = (p, True)"
    using group_msg_sent [OF p(1) assms(10-12)] by blast
  have topic: "RetrieveTopic (d_b ?x) = fmt_d ip"
    using assms(6) by (simp add: RetrieveTopic_def IP_OFFSET_def Encode_fields reading_input_def unsigned_of_nat take_bit_nat_eq_self)
  obtain r' where r': "handle_message (Some (\<lambda>t. has_subscriber t n)) p fd r = Some r'" "rl_pipe r' = Data_bytes ?x"
    using handle_message_record [OF assms(13-15) p(2), of "Some (\<lambda>t. has_subscriber t n)"] assms(16,17) by (auto simp: topic)
  obtain ident where "load buf i2s_buf ?x = Some \<lparr>out_payload = json_line (of_nat serial) (fmt_d ip) weight ident, out_topic = fmt_d ip\<rparr>"
    using load_reading [OF assms(19,20,1,4-7)] by blast
  then obtain n' where "notifier_round buf i2s_buf accepts ?x n = Some n'" "delivered n' = delivered n @
      map (\<lambda>t. (t, json_line (of_nat serial) (fmt_d ip) weight ident)) (topic_at (fmt_d ip) (manager n))"
    using notifier_round_delivers [OF _ assms(18)] by fastforce
  moreover have "length (Data_bytes ?x) = kDataSize" by (simp add: Data_bytes_def kDataSize_def)
  ultimately have "Notifier_Run buf i2s_buf accepts False (rl_pipe r') n = Some (False, [], n')"
    by (simp add: Notifier_Run_def r'(2) Data_of_bytes_Data_bytes)
  then show ?thesis using c' r'(1) \<open>delivered n' = _\<close> by blast
qed

definition sample_answer :: collector_answer where
  "sample_answer =
     \<lparr>ka_connect = \<lparr>cs_socket = True, cs_sndtimeo = True, cs_nodelay = True, cs_connect = True\<rparr>, ka_expiration = 0,
      ka_got = reading 42 5 (- 3), ka_from = str ''10.0.0.'' @ fmt_d 7, ka_mask = 9\<rparr>"

theorem telemetry_end_to_end_witness:
  "\<exists>c' p r' n' ident. handle_group_msg sample_answer sample_collector = Some c' \<and>
     last (ch_taken ((consume_step READY_C ^^ chan_size (chan c')) (chan c'))) = (p, True) \<and>
     handle_message (Some (\<lambda>t. has_subscriber t (Notifier_Register 4 [fmt_d 7] Notifier_new))) p 5 sample_peer = Some r' \<and>
     Notifier_Run (replicate 64 0) (replicate 16 0) (\<lambda>_. True) False (rl_pipe r') (Notifier_Register 4 [fmt_d 7] Notifier_new) =
       Some (False, [], n') \<and>
     delivered n' = [(0, json_line 42 (fmt_d 7) (- 3) ident)]"
proof -
  let ?n = "Notifier_Register 4 [fmt_d 7] Notifier_new"
  have c: "paired sample_collector" "chan sample_collector = Channel_new" by (simp_all add: sample_collector_eq)
  have ch: "chan_reach [] (chan sample_collector)" "chan_ready (chan sample_collector)"
    unfolding c by (rule chan_reach.start) (simp add: chan_ready_def Channel_new_def)
  have ans: "ka_from sample_answer = str ''10.0.0'' @ 46 # fmt_d 7" "ka_got sample_answer = reading 42 5 (- 3)"
    by (simp_all add: sample_answer_def)
  have len: "length (fmt_d 42) + length (fmt_d 7) + length (fmt_int (- 3)) < 16"
    by (simp add: fmt_d.simps fmt_int_def)
  have n: "has_subscriber (fmt_d 7) ?n" "flight ?n = None" "delivered ?n = []" "topic_at (fmt_d 7) (manager ?n) = [0]"
    by (simp_all add: Notifier_Register_def Notifier_new_def has_subscriber_def topic_at_subscribe)
  show ?thesis
    using telemetry_end_to_end [OF _ _ _ _ _ _ len ans c(1) ch sample_peer_eq(1,3) _ sample_peer_eq(2) n(1,2),
      of "replicate 64 0" "replicate 16 0" "\<lambda>_. True"]
    unfolding n(3,4) by simp
qed

end
